(* ===== verification/Prelude.thy ===== *)
theory Prelude
  imports Main "HOL-Library.Word" "HOL-Library.AList" "HOL-Library.Multiset"
begin

text \<open>
  What every component of the development shares.

  \<^item> The Go types the sources use: \<open>uint64\<close> is \<open>u64\<close> (arithmetic wraps), a
    \<open>common.Address\<close> (20 bytes) and a \<open>common.Hash\<close> (32 bytes) are the unsigned words
    their big-endian bytes spell, so that \<open>bytes.Compare\<close> on them is the order of the words;
    a \<open>*big.Int\<close> is an \<open>int\<close>.
  \<^item> Failure: a Go \<open>error\<close> and a run-time panic are both values of \<open>gerror\<close>, and a fallible
    function returns \<open>gerror + 'a\<close>.  \<open>bind_res\<close> is the early return, \<open>foldM\<close> a loop whose
    body may return early.
  \<^item> Lemmas on these, collected in \<open>res_simps\<close>.
\<close>

named_theorems res_simps "unfolding of fallible computations"
named_theorems frame_simps "fields an operation leaves unchanged"

subsection \<open>Go types\<close>

type_synonym u64 = "64 word"
type_synonym byte = "8 word"
type_synonym address = "160 word"
type_synonym hash = "256 word"

text \<open>
  \<open>(*big.Int).Uint64\<close> is the low 64 bits of the absolute value; \<open>int(x)\<close> on a \<open>uint64\<close>
  reinterprets the bits; arithmetic on the 64-bit \<open>int\<close> wraps.
\<close>

definition Uint64 :: "int \<Rightarrow> u64" where
  "Uint64 x = word_of_int \<bar>x\<bar>"

definition go_int :: "u64 \<Rightarrow> int" where
  "go_int w = sint w"

definition wrap_int :: "int \<Rightarrow> int" where
  "wrap_int x = sint (word_of_int x :: u64)"

lemma Uint64_uint [simp]: "Uint64 (uint w) = w"
  by (simp add: Uint64_def)

lemma uint_Uint64: "0 \<le> x \<Longrightarrow> x < 2 ^ 64 \<Longrightarrow> uint (Uint64 x) = x"
  by (simp add: Uint64_def uint_word_of_int take_bit_int_eq_self)

lemma unat_Uint64: "0 \<le> x \<Longrightarrow> x < 2 ^ 64 \<Longrightarrow> unat (Uint64 x) = nat x"
  using uint_Uint64[of x] by (simp add: unat_eq_nat_uint)

lemma len64: "LENGTH(64) = 64"
  by simp

lemma unat_of_nat_u64: "n < 2 ^ 64 \<Longrightarrow> unat (of_nat n :: u64) = n"
  by (simp only: unat_of_nat len64 mod_less)

lemma u64_pred_less:
  assumes "lim < (i :: u64)"
  shows "unat (i - 1) < unat i"
proof -
  have "i \<noteq> 0" using assms by auto
  then show ?thesis using unat_minus_one[of i] unat_gt_0[of i] by simp
qed

lemma sint_eq_uint_small: "uint (w :: u64) < 2 ^ 63 \<Longrightarrow> sint w = uint w"
proof -
  have "- 9223372036854775808 \<le> uint w"
    by (rule order_trans[OF _ uint_ge_0]) simp
  then show "uint w < 2 ^ 63 \<Longrightarrow> sint w = uint w"
    by (simp add: sint_uint signed_take_bit_int_eq_self_iff)
qed

lemma go_int_small:
  assumes "int (unat w) < 2 ^ 63"
  shows "go_int w = int (unat w)"
  using assms by (simp add: go_int_def sint_eq_uint_small)

lemma wrap_int_small: "- (2 ^ 63) \<le> x \<Longrightarrow> x < 2 ^ 63 \<Longrightarrow> wrap_int x = x"
  by (simp add: wrap_int_def signed_of_int signed_take_bit_int_eq_self_iff)

text \<open>The values of a counter that runs over an interval of \<open>uint64\<close>.\<close>

lemma u64_of_nat_range:
  "k \<in> set (map (of_nat :: nat \<Rightarrow> u64) [unat lo..<unat hi]) \<longleftrightarrow> lo \<le> k \<and> k < hi" (is "?L = ?R")
proof
  assume ?L
  then obtain n where n: "k = of_nat n" "unat lo \<le> n" "n < unat hi" by auto
  then have "n < 2 ^ LENGTH(64)" using unsigned_less[of hi] by (rule_tac order.strict_trans)
  then have "unat k = n" by (simp only: n(1) unat_of_nat_u64 len64)
  then show ?R using n by (simp add: word_le_nat_alt word_less_nat_alt)
next
  assume ?R
  then show ?L
    by (auto simp: word_le_nat_alt word_less_nat_alt intro!: image_eqI[of _ _ "unat k"])
qed

lemma u64_of_nat_range_Suc:
  "k \<in> set (map (of_nat :: nat \<Rightarrow> u64) [unat lo..<Suc (unat hi)]) \<longleftrightarrow> lo \<le> k \<and> k \<le> hi" (is "?L = ?R")
proof
  assume ?L
  then obtain n where n: "k = of_nat n" "unat lo \<le> n" "n \<le> unat hi" by auto
  then have "n < 2 ^ LENGTH(64)" using unsigned_less[of hi] by (rule_tac order.strict_trans1)
  then have "unat k = n" by (simp only: n(1) unat_of_nat_u64 len64)
  then show ?R using n by (simp add: word_le_nat_alt)
next
  assume ?R
  then have "unat k \<in> set [unat lo..<Suc (unat hi)]"
    by (simp only: set_upt atLeastLessThan_iff word_le_nat_alt less_Suc_eq_le)
  then have "of_nat (unat k) \<in> (of_nat :: nat \<Rightarrow> u64) ` set [unat lo..<Suc (unat hi)]" by (rule imageI)
  then show ?L by (simp only: set_map of_nat_unat ucast_id)
qed
subsection \<open>Errors and panics\<close>

datatype gerror =
    PanicNil        \<comment> \<open>nil pointer dereference, write to a nil map\<close>
  | PanicIndex      \<comment> \<open>index or slice bounds out of range\<close>
  | PanicDivide     \<comment> \<open>integer division by zero\<close>
  | PanicOther      \<comment> \<open>an explicit panic\<close>
  | NotTerminating  \<comment> \<open>the loop does not end\<close>
  | errUnknownBlock | errMissingVanity | errMissingSignature | errInvalidMixDigest
  | errInvalidUncleHash | ErrInvalidTimestamp | errInvalidVotingChain | errUnauthorized
  | errPunishedMissing | errWaitTransactions | errUnclesNotAllowed
  | errCreateSignerQueueNotAllowed | errInvalidSignerQueue | errSignerQueueEmpty
  | errGetLastLoopInfoFail | errInvalidNeighborSigner | errMissingGenesisLightConfig
  | errLastLoopHeaderFail | errIncorrectTallyCount | errAllStakeMissing
  | errNotSideChain | errMCRPCClientEmpty | errMCPeriodMissing | errMCGasChargingInvalid
  | ErrUnknownAncestor | ErrFutureBlock
  | errInvalidVote
  | ErrExternal nat  \<comment> \<open>an error made outside the modelled code, by its number\<close>

definition is_panic :: "gerror \<Rightarrow> bool" where
  "is_panic e \<longleftrightarrow> e \<in> {PanicNil, PanicIndex, PanicDivide, PanicOther, NotTerminating}"

type_synonym 'a res = "gerror + 'a"

definition bind_res :: "'e + 'a \<Rightarrow> ('a \<Rightarrow> 'e + 'b) \<Rightarrow> 'e + 'b" where
  "bind_res m f = (case m of Inl e \<Rightarrow> Inl e | Inr x \<Rightarrow> f x)"

lemma bind_res_simps [simp]:
  "bind_res (Inl e) f = Inl e"
  "bind_res (Inr x) f = f x"
  by (simp_all add: bind_res_def)

lemma bind_res_eq_Inr [res_simps]:
  "bind_res m f = Inr y \<longleftrightarrow> (\<exists>x. m = Inr x \<and> f x = Inr y)"
  by (cases m) auto

lemma bind_res_eq_Inl [res_simps]:
  "bind_res m f = Inl e \<longleftrightarrow> m = Inl e \<or> (\<exists>x. m = Inr x \<and> f x = Inl e)"
  by (cases m) auto

lemma bind_res_assoc: "bind_res (bind_res m f) g = bind_res m (\<lambda>x. bind_res (f x) g)"
  by (cases m) auto

lemma bind_res_cong [fundef_cong]:
  "m = m' \<Longrightarrow> (\<And>x. m' = Inr x \<Longrightarrow> f x = f' x) \<Longrightarrow> bind_res m f = bind_res m' f'"
  by (cases m') auto

text \<open>A loop over a slice or a map whose body may return early.\<close>

fun foldM :: "('s \<Rightarrow> 'x \<Rightarrow> 'e + 's) \<Rightarrow> 's \<Rightarrow> 'x list \<Rightarrow> 'e + 's" where
  "foldM f s [] = Inr s"
| "foldM f s (x # xs) = bind_res (f s x) (\<lambda>s'. foldM f s' xs)"

lemma foldM_append: "foldM f s (xs @ ys) = bind_res (foldM f s xs) (\<lambda>s'. foldM f s' ys)"
  by (induction xs arbitrary: s) (auto simp: bind_res_assoc)

lemma foldM_invariant:
  assumes "foldM f s xs = Inr s'" and "I s"
    and "\<And>s x s'. x \<in> set xs \<Longrightarrow> I s \<Longrightarrow> f s x = Inr s' \<Longrightarrow> I s'"
  shows "I s'"
  using assms
proof (induction xs arbitrary: s)
  case Nil
  then show ?case by simp
next
  case (Cons x xs)
  from Cons.prems(1) obtain t where t: "f s x = Inr t" "foldM f t xs = Inr s'"
    by (auto simp: bind_res_eq_Inr)
  have "I t"
    by (rule Cons.prems(3)[OF _ Cons.prems(2) t(1)]) simp
  show ?case
    by (rule Cons.IH[OF t(2) \<open>I t\<close>]) (auto intro: Cons.prems(3))
qed

lemma foldM_total:
  assumes "I s" and "\<And>s x. x \<in> set xs \<Longrightarrow> I s \<Longrightarrow> \<exists>s'. f s x = Inr s' \<and> I s'"
  shows "\<exists>s'. foldM f s xs = Inr s' \<and> I s'"
  using assms
proof (induction xs arbitrary: s)
  case Nil
  then show ?case by simp
next
  case (Cons x xs)
  then obtain t where "f s x = Inr t" "I t" by (meson list.set_intros(1))
  with Cons show ?case by auto
qed

lemma foldM_unit_ok: "foldM (\<lambda>_ x. f x) () xs = Inr () \<longleftrightarrow> (\<forall>x \<in> set xs. f x = Inr ())"
  by (induction xs) (auto simp: res_simps)

text \<open>A body that cannot fail makes the loop a plain fold.\<close>

lemma foldM_Inr: "foldM (\<lambda>s x. Inr (f s x)) s xs = Inr (foldl f s xs)"
  by (induction xs arbitrary: s) auto

lemma foldl_invariant:
  assumes "I s" and "\<And>s x. x \<in> set xs \<Longrightarrow> I s \<Longrightarrow> I (f s x)"
  shows "I (foldl f s xs)"
  using assms by (induction xs arbitrary: s) auto

text \<open>A part of the state that no step of a loop changes.\<close>

lemma foldl_keeps: "(\<And>s x. g (f s x) = g s) \<Longrightarrow> g (foldl f s xs) = g s"
  by (induction xs arbitrary: s) auto

lemma foldM_keeps:
  "foldM f s xs = Inr t \<Longrightarrow> (\<And>s x t. f s x = Inr t \<Longrightarrow> g t = g s) \<Longrightarrow> g t = g s"
  by (induction xs arbitrary: s) (auto simp: bind_res_eq_Inr)

lemma foldl_append_if:
  "foldl (\<lambda>acc x. if P x then acc @ [f x] else acc) acc xs = acc @ map f (filter P xs)"
  by (induction xs arbitrary: acc) auto

subsection \<open>Slices\<close>

text \<open>\<open>xs[i]\<close> and \<open>xs[lo:hi]\<close> panic out of range.\<close>

definition go_nth :: "'a list \<Rightarrow> int \<Rightarrow> 'a res" where
  "go_nth xs i = (if 0 \<le> i \<and> i < int (length xs) then Inr (xs ! nat i) else Inl PanicIndex)"

definition go_slice :: "'a list \<Rightarrow> int \<Rightarrow> int \<Rightarrow> 'a list res" where
  "go_slice xs lo hi =
     (if 0 \<le> lo \<and> lo \<le> hi \<and> hi \<le> int (length xs)
      then Inr (take (nat (hi - lo)) (drop (nat lo) xs)) else Inl PanicIndex)"

lemma go_nth_in_range [simp]: "i < length xs \<Longrightarrow> go_nth xs (int i) = Inr (xs ! i)"
  by (simp add: go_nth_def)

lemma go_nth_eq_Inr [res_simps]:
  "go_nth xs i = Inr x \<longleftrightarrow> 0 \<le> i \<and> i < int (length xs) \<and> x = xs ! nat i"
  by (auto simp: go_nth_def)

lemma go_nth_mem: "go_nth xs i = Inr x \<Longrightarrow> x \<in> set xs"
  by (auto simp: go_nth_def split: if_splits)

lemma length_go_slice: "go_slice xs lo hi = Inr ys \<Longrightarrow> int (length ys) = hi - lo"
  by (auto simp: go_slice_def split: if_splits)

lemma set_go_slice: "go_slice xs lo hi = Inr ys \<Longrightarrow> set ys \<subseteq> set xs"
  by (auto simp: go_slice_def dest!: in_set_takeD in_set_dropD split: if_splits)

end
