(* ===== verification/Go_Map.thy ===== *)
theory Go_Map
  imports Prelude
begin

text \<open>
  Go maps.  A map is the list of its entries in the order in which a \<open>range\<close> loop would meet
  them; Go leaves that order open, so every statement about a map holds for each order of its
  entries.  \<open>gget\<close>, \<open>gput\<close> and \<open>gdel\<close> are \<open>m[k]\<close>, \<open>m[k] = v\<close> and \<open>delete(m, k)\<close>;
  \<open>length\<close> is \<open>len(m)\<close>; \<open>ginv\<close> says that a key occurs once.

  The interface the components rely on is the locale \<open>finite_map\<close>: the laws of lookup after an
  update, and from them the laws of a sum over all entries, which is what tallies, refunds and
  rewards are made of.
\<close>

type_synonym ('k, 'v) gomap = "('k \<times> 'v) list"

definition gget :: "('k, 'v) gomap \<Rightarrow> 'k \<Rightarrow> 'v option" where
  "gget m k = map_of m k"

definition gput :: "('k, 'v) gomap \<Rightarrow> 'k \<Rightarrow> 'v \<Rightarrow> ('k, 'v) gomap" where
  "gput m k v = AList.update k v m"

definition gdel :: "('k, 'v) gomap \<Rightarrow> 'k \<Rightarrow> ('k, 'v) gomap" where
  "gdel m k = AList.delete k m"

definition ghas :: "('k, 'v) gomap \<Rightarrow> 'k \<Rightarrow> bool" where
  "ghas m k \<longleftrightarrow> gget m k \<noteq> None"

definition ginv :: "('k, 'v) gomap \<Rightarrow> bool" where
  "ginv m \<longleftrightarrow> distinct (map fst m)"

definition gkeys :: "('k, 'v) gomap \<Rightarrow> 'k list" where
  "gkeys m = map fst m"

subsection \<open>The interface\<close>

locale finite_map =
  fixes entries :: "'m \<Rightarrow> ('k \<times> 'v) list"
    and get :: "'m \<Rightarrow> 'k \<Rightarrow> 'v option"
    and put :: "'m \<Rightarrow> 'k \<Rightarrow> 'v \<Rightarrow> 'm"
    and del :: "'m \<Rightarrow> 'k \<Rightarrow> 'm"
    and inv :: "'m \<Rightarrow> bool"
  assumes distinct_entries: "inv m \<Longrightarrow> distinct (map fst (entries m))"
    and get_entries: "inv m \<Longrightarrow> get m k = map_of (entries m) k"
    and get_put: "inv m \<Longrightarrow> get (put m k v) = (get m)(k \<mapsto> v)"
    and get_del: "inv m \<Longrightarrow> get (del m k) = (get m)(k := None)"
    and inv_put: "inv m \<Longrightarrow> inv (put m k v)"
    and inv_del: "inv m \<Longrightarrow> inv (del m k)"
begin

definition sum_over :: "('k \<Rightarrow> 'v \<Rightarrow> int) \<Rightarrow> 'm \<Rightarrow> int" where
  "sum_over f m = (\<Sum>(k, v)\<leftarrow>entries m. f k v)"

definition at :: "('k \<Rightarrow> 'v \<Rightarrow> int) \<Rightarrow> 'm \<Rightarrow> 'k \<Rightarrow> int" where
  "at f m k = (case get m k of None \<Rightarrow> 0 | Some v \<Rightarrow> f k v)"

lemma dom_get: "inv m \<Longrightarrow> dom (get m) = fst ` set (entries m)"
proof -
  assume "inv m"
  then have "get m = map_of (entries m)" by (simp add: get_entries fun_eq_iff)
  then show ?thesis by (simp add: dom_map_of_conv_image_fst)
qed

lemma finite_dom_get: "inv m \<Longrightarrow> finite (dom (get m))"
  by (simp add: dom_get)

lemma sum_over_dom: "inv m \<Longrightarrow> sum_over f m = (\<Sum>k\<in>dom (get m). at f m k)"
proof -
  assume m: "inv m"
  let ?E = "entries m"
  have "sum_over f m = (\<Sum>e\<in>set ?E. case e of (k, v) \<Rightarrow> f k v)"
    unfolding sum_over_def using distinct_entries[OF m]
    by (intro sum_list_distinct_conv_sum_set) (simp add: distinct_map)
  also have "\<dots> = (\<Sum>e\<in>set ?E. at f m (fst e))"
    using distinct_entries[OF m] by (intro sum.cong) (auto simp: at_def get_entries[OF m])
  also have "\<dots> = (\<Sum>k\<in>fst ` set ?E. at f m k)"
    using distinct_entries[OF m] by (subst sum.reindex) (auto simp: distinct_map)
  finally show ?thesis by (simp add: dom_get[OF m])
qed

lemma sum_over_put: "inv m \<Longrightarrow> sum_over f (put m k v) = sum_over f m - at f m k + f k v"
proof -
  assume m: "inv m"
  let ?D = "dom (get m)"
  have D: "dom (get (put m k v)) = insert k ?D" and fin: "finite ?D"
    using m by (auto simp: get_put finite_dom_get)
  have "sum_over f (put m k v) = (\<Sum>j\<in>insert k ?D. at f (put m k v) j)"
    using inv_put[OF m] by (simp add: sum_over_dom D)
  also have "\<dots> = f k v + (\<Sum>j\<in>?D - {k}. at f (put m k v) j)"
    using fin by (subst sum.insert_remove) (auto simp: at_def get_put[OF m])
  also have "(\<Sum>j\<in>?D - {k}. at f (put m k v) j) = (\<Sum>j\<in>?D - {k}. at f m j)"
    by (rule sum.cong) (auto simp: at_def get_put[OF m])
  also have "(\<Sum>j\<in>?D - {k}. at f m j) = sum_over f m - at f m k"
    using fin m by (cases "k \<in> ?D") (auto simp: sum_over_dom sum_diff1 at_def split: option.splits)
  finally show ?thesis by simp
qed

lemma sum_over_del: "inv m \<Longrightarrow> sum_over f (del m k) = sum_over f m - at f m k"
proof -
  assume m: "inv m"
  let ?D = "dom (get m)"
  have D: "dom (get (del m k)) = ?D - {k}" and fin: "finite ?D"
    using m by (auto simp: get_del finite_dom_get)
  have "sum_over f (del m k) = (\<Sum>j\<in>?D - {k}. at f (del m k) j)"
    using inv_del[OF m] by (simp add: sum_over_dom D)
  also have "\<dots> = (\<Sum>j\<in>?D - {k}. at f m j)"
    by (rule sum.cong) (auto simp: at_def get_del[OF m])
  also have "\<dots> = sum_over f m - at f m k"
    using fin m by (cases "k \<in> ?D") (auto simp: sum_over_dom sum_diff1 at_def split: option.splits)
  finally show ?thesis .
qed

lemma get_SomeD: "inv m \<Longrightarrow> get m k = Some v \<Longrightarrow> (k, v) \<in> set (entries m)"
  by (auto simp: get_entries dest: map_of_SomeD)

lemma get_SomeI: "inv m \<Longrightarrow> (k, v) \<in> set (entries m) \<Longrightarrow> get m k = Some v"
  using distinct_entries by (simp add: get_entries)

lemma sum_over_nonneg:
  "inv m \<Longrightarrow> (\<And>k v. get m k = Some v \<Longrightarrow> 0 \<le> f k v) \<Longrightarrow> 0 \<le> sum_over f m"
  unfolding sum_over_dom by (rule sum_nonneg) (auto simp: at_def)

lemma at_le_sum_over:
  assumes "inv m" "\<And>k v. get m k = Some v \<Longrightarrow> 0 \<le> f k v"
  shows "at f m k \<le> sum_over f m"
proof (cases "k \<in> dom (get m)")
  case True
  show ?thesis
    unfolding sum_over_dom[OF assms(1)]
    by (rule member_le_sum[OF True]) (use assms finite_dom_get in \<open>auto simp: at_def\<close>)
next
  case False
  then have "at f m k = 0" by (auto simp: at_def split: option.split)
  then show ?thesis using sum_over_nonneg[of m f] assms by simp
qed

end

subsection \<open>Association lists implement it\<close>

lemma ginv_Nil [simp]: "ginv []"
  by (simp add: ginv_def)

lemma gget_Nil [simp]: "gget [] k = None"
  by (simp add: gget_def)

lemma gget_gput [simp]: "gget (gput m k v) = (gget m)(k \<mapsto> v)"
  by (simp add: gget_def gput_def fun_eq_iff AList.update_conv')

lemma gget_gdel [simp]: "gget (gdel m k) = (gget m)(k := None)"
  by (simp add: gget_def gdel_def fun_eq_iff AList.delete_conv')

lemma ginv_gput [simp, intro]: "ginv m \<Longrightarrow> ginv (gput m k v)"
  by (simp add: ginv_def gput_def AList.distinct_update)

lemma ginv_gdel [simp, intro]: "ginv m \<Longrightarrow> ginv (gdel m k)"
  by (simp add: ginv_def gdel_def AList.distinct_delete)

interpretation gm: finite_map "\<lambda>m. m" gget gput gdel ginv
  by unfold_locales (simp_all add: ginv_def [symmetric], simp_all add: ginv_def gget_def)

text \<open>The sum over all entries and the contribution of one key, as executable functions.\<close>

definition gsum :: "('k \<Rightarrow> 'v \<Rightarrow> int) \<Rightarrow> ('k, 'v) gomap \<Rightarrow> int" where
  "gsum f m = (\<Sum>(k, v)\<leftarrow>m. f k v)"

definition gat :: "('k \<Rightarrow> 'v \<Rightarrow> int) \<Rightarrow> ('k, 'v) gomap \<Rightarrow> 'k \<Rightarrow> int" where
  "gat f m k = (case gget m k of None \<Rightarrow> 0 | Some v \<Rightarrow> f k v)"

lemma gm_sum_over: "gm.sum_over = gsum" and gm_at: "gm.at = gat"
  by (simp_all add: fun_eq_iff gm.sum_over_def gsum_def gm.at_def gat_def)

lemmas gsum_gput = gm.sum_over_put [unfolded gm_sum_over gm_at]
lemmas gsum_gdel = gm.sum_over_del [unfolded gm_sum_over gm_at]
lemmas gsum_nonneg = gm.sum_over_nonneg [unfolded gm_sum_over]
lemmas gat_le_gsum = gm.at_le_sum_over [unfolded gm_sum_over gm_at]

lemma gsum_Nil [simp]: "gsum f [] = 0"
  by (simp add: gsum_def)

lemma gsum_Cons [simp]: "gsum f (e # m) = f (fst e) (snd e) + gsum f m"
  by (cases e) (simp add: gsum_def)

lemma gsum_zero: "(\<And>k v. (k, v) \<in> set m \<Longrightarrow> f k v = 0) \<Longrightarrow> gsum f m = 0"
  by (induction m) auto

lemma gsum_append [simp]: "gsum f (m @ m') = gsum f m + gsum f m'"
  by (induction m) auto

lemma ghas_iff [simp]: "ghas m k \<longleftrightarrow> (\<exists>v. gget m k = Some v)"
  by (auto simp: ghas_def)

lemma gget_eq_None: "gget m k = None \<longleftrightarrow> k \<notin> fst ` set m"
  by (simp add: gget_def map_of_eq_None_iff)

lemma gget_mem: "gget m k = Some v \<Longrightarrow> (k, v) \<in> set m"
  by (auto simp: gget_def dest: map_of_SomeD)

lemma gget_ginv_iff: "ginv m \<Longrightarrow> gget m k = Some v \<longleftrightarrow> (k, v) \<in> set m"
  by (auto simp: gget_def ginv_def)

lemma gkeys_set: "k \<in> set (gkeys m) \<longleftrightarrow> gget m k \<noteq> None"
  by (simp add: gkeys_def gget_eq_None)

lemma distinct_gkeys: "distinct (gkeys m) \<longleftrightarrow> ginv m"
  by (simp add: gkeys_def ginv_def)

text \<open>
  Deleting the entries that fail a test, one key at a time while ranging over the map, is a
  filter; so is a test whose outcome depends on the entry only.
\<close>

lemma gdel_notin: "k \<notin> fst ` set m \<Longrightarrow> gdel m k = m"
  by (simp add: gdel_def)

lemma gdel_filter: "gdel (filter P m) k = filter (\<lambda>e. fst e \<noteq> k \<and> P e) m"
  by (auto simp: gdel_def AList.delete_eq case_prod_unfold intro!: filter_cong)

lemma foldl_gdel_filter:
  "foldl (\<lambda>m k. gdel m k) m ks = filter (\<lambda>e. fst e \<notin> set ks) m"
proof (induction ks arbitrary: m)
  case (Cons k ks)
  have "foldl gdel m (k # ks) = filter (\<lambda>e. fst e \<notin> set ks) (gdel (filter (\<lambda>_. True) m) k)"
    using Cons by simp
  also have "\<dots> = filter (\<lambda>e. fst e \<notin> set (k # ks)) m"
    unfolding gdel_filter by (auto simp: intro!: filter_cong)
  finally show ?case .
qed simp

lemma ginv_filter: "ginv m \<Longrightarrow> ginv (filter P m)"
  by (simp add: ginv_def distinct_map_filter)

lemma gget_filter:
  "ginv m \<Longrightarrow> gget (filter P m) k =
    (case gget m k of None \<Rightarrow> None | Some v \<Rightarrow> if P (k, v) then Some v else None)"
  by (induction m) (auto simp: gget_def ginv_def map_of_eq_None_iff rev_image_eqI split: option.splits)

end
