(* ===== verification/Go_Sort.thy ===== *)
theory Go_Sort
  imports Prelude
begin

text \<open>
  \<open>sort.Sort\<close> of the Go library.  It is not stable and its algorithm depends on the length, so
  what a caller may rely on is the contract of the locale \<open>sort_order\<close>: for a \<open>Less\<close> that is a
  strict weak order the result is a permutation in which no later element is \<open>Less\<close> than an
  earlier one.  \<open>go_sort\<close> is the insertion sort Go runs on short slices; where distinct elements
  are always ordered the contract determines the result, so every algorithm agrees with it.
\<close>

fun insert_by :: "('a \<Rightarrow> 'a \<Rightarrow> bool) \<Rightarrow> 'a \<Rightarrow> 'a list \<Rightarrow> 'a list" where
  "insert_by lt x [] = [x]"
| "insert_by lt x (y # ys) = (if lt x y then x # y # ys else y # insert_by lt x ys)"

definition go_sort :: "('a \<Rightarrow> 'a \<Rightarrow> bool) \<Rightarrow> 'a list \<Rightarrow> 'a list" where
  "go_sort lt xs = foldl (\<lambda>acc x. insert_by lt x acc) [] xs"

lemma mset_insert_by [simp]: "mset (insert_by lt x xs) = add_mset x (mset xs)"
  by (induction xs) auto

lemma mset_foldl_insert_by:
  "mset (foldl (\<lambda>acc x. insert_by lt x acc) acc xs) = mset acc + mset xs"
  by (induction xs arbitrary: acc) auto

lemma mset_go_sort [simp]: "mset (go_sort lt xs) = mset xs"
  by (simp add: go_sort_def mset_foldl_insert_by)

lemma set_go_sort [simp]: "set (go_sort lt xs) = set xs"
  by (metis mset_go_sort set_mset_mset)

lemma length_go_sort [simp]: "length (go_sort lt xs) = length xs"
  by (metis mset_go_sort size_mset)

lemma distinct_go_sort [simp]: "distinct (go_sort lt xs) \<longleftrightarrow> distinct xs"
  by (metis mset_go_sort mset_eq_imp_distinct_iff)

lemma set_insert_by: "set (insert_by lt x xs) = insert x (set xs)"
  by (induction xs) auto

locale sort_order =
  fixes lt :: "'a \<Rightarrow> 'a \<Rightarrow> bool"
  assumes irrefl: "\<not> lt x x"
    and trans: "lt x y \<Longrightarrow> lt y z \<Longrightarrow> lt x z"
    and neg_trans: "lt x z \<Longrightarrow> lt x y \<or> lt y z"
begin

definition ordered :: "'a list \<Rightarrow> bool" where
  "ordered = sorted_wrt (\<lambda>x y. \<not> lt y x)"

lemma asym: "lt x y \<Longrightarrow> \<not> lt y x"
  using irrefl trans by blast

lemma ordered_insert_by: "ordered xs \<Longrightarrow> ordered (insert_by lt x xs)"
proof (induction xs)
  case Nil
  then show ?case by (simp add: ordered_def)
next
  case (Cons y ys)
  show ?case
  proof (cases "lt x y")
    case True
    with Cons.prems show ?thesis
      unfolding ordered_def by (auto dest: asym) (metis neg_trans asym)
  next
    case False
    with Cons show ?thesis
      unfolding ordered_def by (auto simp: set_insert_by)
  qed
qed

lemma ordered_go_sort: "ordered (go_sort lt xs)"
  unfolding go_sort_def
  by (rule foldl_invariant[where I = ordered]) (simp add: ordered_def, rule ordered_insert_by)

text \<open>Two ordered permutations agree as soon as distinct elements are ordered.\<close>

lemma ordered_unique:
  assumes "ordered xs" "ordered ys" "mset xs = mset ys"
    and "\<And>x y. x \<in> set xs \<Longrightarrow> y \<in> set xs \<Longrightarrow> x \<noteq> y \<Longrightarrow> lt x y \<or> lt y x"
  shows "xs = ys"
  using assms
proof (induction xs arbitrary: ys)
  case Nil
  then show ?case by simp
next
  case (Cons x xs)
  then obtain y ys' where ys: "ys = y # ys'" by (cases ys) auto
  have mem: "x \<in> set ys" "y \<in> set (x # xs)"
    using Cons.prems(3) ys by (metis list.set_intros(1) set_mset_mset)+
  have "x = y"
  proof (rule ccontr)
    assume "x \<noteq> y"
    then have "y \<in> set xs" "x \<in> set ys'" using mem ys by auto
    then have "\<not> lt y x" "\<not> lt x y"
      using Cons.prems(1,2) ys by (auto simp: ordered_def)
    then show False using Cons.prems(4)[of x y] \<open>x \<noteq> y\<close> mem by auto
  qed
  then have "xs = ys'"
    using Cons.prems ys by (intro Cons.IH) (auto simp: ordered_def)
  with \<open>x = y\<close> ys show ?case by simp
qed

lemma go_sort_determined:
  assumes "mset ys = mset xs" "ordered ys"
    and "\<And>x y. x \<in> set xs \<Longrightarrow> y \<in> set xs \<Longrightarrow> x \<noteq> y \<Longrightarrow> lt x y \<or> lt y x"
  shows "ys = go_sort lt xs"
proof -
  have "set ys = set xs" using assms(1) by (metis set_mset_mset)
  then show ?thesis
    using ordered_unique[OF assms(2) ordered_go_sort] assms by auto
qed

text \<open>The result does not depend on the order in which the slice was filled.\<close>

lemma go_sort_permute:
  assumes "mset xs = mset ys"
    and "\<And>x y. x \<in> set xs \<Longrightarrow> y \<in> set xs \<Longrightarrow> x \<noteq> y \<Longrightarrow> lt x y \<or> lt y x"
  shows "go_sort lt xs = go_sort lt ys"
  using go_sort_determined[of "go_sort lt ys" xs] assms ordered_go_sort by auto

lemma ordered_takeD:
  assumes "ordered xs" "x \<in> set (take n xs)" "y \<in> set (drop n xs)"
  shows "\<not> lt y x"
  using assms by (metis append_take_drop_id ordered_def sorted_wrt_append)

end

end
