(* ===== verification/Alien_Types.thy ===== *)
theory Alien_Types
  imports Go_Map Go_Sort
begin

text \<open>
  The data of the delegated-proof-of-stake engine: the consensus parameters
  (\<open>params/config.go\<close>), the block header (\<open>core/types/block.go\<close>), the events a block carries in
  its extra data (\<open>consensus/alien/custom_tx.go\<close>) and the voting snapshot
  (\<open>consensus/alien/snapshot.go\<close>), with the constants of the engine.

  Maps are \<open>gomap\<close>s.  A \<open>*big.Int\<close> that the code may leave \<open>nil\<close> is an \<open>int option\<close>.  All
  pointers but one are owned by the map that holds them and are modelled by their value; the
  exception is \<open>Proposals\<close>, whose entries may share one \<open>Proposal\<close> object, so the snapshot keeps
  a store \<open>PropHeap\<close> of proposals and \<open>Proposals\<close> maps a hash to an index of it.
\<close>

subsection \<open>Constants\<close>

definition defaultFullCredit :: u64 where "defaultFullCredit = 28800"
definition missingPublishCredit :: u64 where "missingPublishCredit = 100"
definition signRewardCredit :: u64 where "signRewardCredit = 10"
definition autoRewardCredit :: u64 where "autoRewardCredit = 1"
definition minCalSignerQueueCredit :: u64 where "minCalSignerQueueCredit = 10000"
definition defaultOfficialMaxSignerCount :: int where "defaultOfficialMaxSignerCount = 21"
definition defaultOfficialFirstLevelCount :: int where "defaultOfficialFirstLevelCount = 10"
definition defaultOfficialSecondLevelCount :: int where "defaultOfficialSecondLevelCount = 20"
definition defaultOfficialThirdLevelCount :: int where "defaultOfficialThirdLevelCount = 30"
definition defaultOfficialMaxValidCount :: int where "defaultOfficialMaxValidCount = 50"
definition maxUncheckBalanceVoteCount :: nat where "maxUncheckBalanceVoteCount = 10000"
definition candidateStateNormal :: u64 where "candidateStateNormal = 1"
definition candidateMaxLen :: nat where "candidateMaxLen = 500"
definition scRewardDelayLoopCount :: u64 where "scRewardDelayLoopCount = 0"
definition scRewardExpiredLoopCount :: u64 where
  "scRewardExpiredLoopCount = scRewardDelayLoopCount + 4"
definition scMaxCountPerPeriod :: u64 where "scMaxCountPerPeriod = 6"
definition scMaxConfirmedRecordLength :: nat where
  "scMaxConfirmedRecordLength = nat defaultOfficialMaxSignerCount * 50"
definition proposalRefundDelayLoopCount :: u64 where "proposalRefundDelayLoopCount = 0"
definition proposalRefundExpiredLoopCount :: u64 where
  "proposalRefundExpiredLoopCount = proposalRefundDelayLoopCount + 2"
definition mcNoticeClearDelayLoopCount :: u64 where "mcNoticeClearDelayLoopCount = 4"
definition scNoticeClearDelayLoopCount :: u64 where
  "scNoticeClearDelayLoopCount = mcNoticeClearDelayLoopCount * scMaxCountPerPeriod * 2"
definition scGasChargingDelayLoopCount :: u64 where "scGasChargingDelayLoopCount = 1"
definition bugFixBlockNumber :: int where "bugFixBlockNumber = 14456164"

definition candidateNeedPD :: bool where "candidateNeedPD = False"
definition minVoterBalance :: int where "minVoterBalance = 100 * 10 ^ 18"
definition minerRewardPerThousand :: u64 where "minerRewardPerThousand = 618"
definition defaultLoopCntRecalculateSigners :: u64 where "defaultLoopCntRecalculateSigners = 10"
definition extraVanity :: nat where "extraVanity = 32"
definition extraSeal :: nat where "extraSeal = 65"

definition proposalTypeCandidateAdd :: u64 where "proposalTypeCandidateAdd = 1"
definition proposalTypeCandidateRemove :: u64 where "proposalTypeCandidateRemove = 2"
definition proposalTypeMinerRewardDistributionModify :: u64 where
  "proposalTypeMinerRewardDistributionModify = 3"
definition proposalTypeSideChainAdd :: u64 where "proposalTypeSideChainAdd = 4"
definition proposalTypeSideChainRemove :: u64 where "proposalTypeSideChainRemove = 5"
definition proposalTypeMinVoterBalanceModify :: u64 where "proposalTypeMinVoterBalanceModify = 6"
definition proposalTypeProposalDepositModify :: u64 where "proposalTypeProposalDepositModify = 7"
definition proposalTypeRentSideChain :: u64 where "proposalTypeRentSideChain = 8"
definition noticeTypeGasCharging :: u64 where "noticeTypeGasCharging = 1"

lemmas credit_defs = defaultFullCredit_def missingPublishCredit_def signRewardCredit_def
  autoRewardCredit_def minCalSignerQueueCredit_def
lemmas queue_defs = defaultOfficialMaxSignerCount_def defaultOfficialFirstLevelCount_def
  defaultOfficialSecondLevelCount_def defaultOfficialThirdLevelCount_def
  defaultOfficialMaxValidCount_def
lemmas proposal_type_defs = proposalTypeCandidateAdd_def proposalTypeCandidateRemove_def
  proposalTypeMinerRewardDistributionModify_def proposalTypeSideChainAdd_def
  proposalTypeSideChainRemove_def proposalTypeMinVoterBalanceModify_def
  proposalTypeProposalDepositModify_def proposalTypeRentSideChain_def
lemmas sc_defs = scRewardDelayLoopCount_def scRewardExpiredLoopCount_def scMaxCountPerPeriod_def
  scMaxConfirmedRecordLength_def proposalRefundDelayLoopCount_def
  proposalRefundExpiredLoopCount_def mcNoticeClearDelayLoopCount_def
  scNoticeClearDelayLoopCount_def scGasChargingDelayLoopCount_def

subsection \<open>Parameters and headers\<close>

record alien_config =
  Period :: u64
  Epoch :: u64
  MaxSignerCount :: u64
  MinVoterBalance :: "int option"
  GenesisTimestamp :: u64
  SelfVoteSigners :: "address list"
  SideChain :: bool
  TrantorBlock :: "int option"
  TerminusBlock :: "int option"

text \<open>\<open>isForked\<close>: whether the fork scheduled at \<open>s\<close> is active at block \<open>head\<close>.\<close>

definition isForked :: "int option \<Rightarrow> int option \<Rightarrow> bool" where
  "isForked s head = (case (s, head) of (Some a, Some b) \<Rightarrow> a \<le> b | _ \<Rightarrow> False)"

definition IsTrantor :: "alien_config \<Rightarrow> int option \<Rightarrow> bool" where
  "IsTrantor a num = isForked (TrantorBlock a) num"

record header =
  ParentHash :: hash
  UncleHash :: hash
  Coinbase :: address
  Root :: hash
  TxHash :: hash
  ReceiptHash :: hash
  Bloom :: "byte list"
  Difficulty :: int
  Hdr_Number :: int
  GasLimit :: u64
  GasUsed :: u64
  Hdr_Time :: int
  Extra :: "byte list"
  MixDigest :: hash
  Nonce :: u64

subsection \<open>Events carried by a block\<close>

record vote =
  Voter :: address
  Candidate :: address
  Stake :: int

record confirmation =
  Signer :: address
  BlockNumber :: int

record declare_t =
  ProposalHash :: hash
  Declarer :: address
  Decision :: bool

record proposal =
  Prop_Hash :: hash
  ReceivedNumber :: int
  CurrentDeposit :: int
  ValidationLoopCnt :: u64
  ProposalType :: u64
  Proposer :: address
  TargetAddress :: address
  MinerRewardPerThousand :: u64
  SCHash :: hash
  SCBlockCountPerPeriod :: u64
  SCBlockRewardPerPeriod :: u64
  Declares :: "declare_t list"
  Prop_MinVoterBalance :: u64
  ProposalDeposit :: u64
  SCRentFee :: u64
  SCRentRate :: u64
  SCRentLength :: u64

record sc_confirmation =
  SCC_Hash :: hash
  SCC_Coinbase :: address
  SCC_Number :: u64
  LoopInfo :: "string list"

record sc_set_coinbase =
  SSC_Hash :: hash
  SSC_Signer :: address
  SSC_Coinbase :: address

record gas_charging =
  Target :: address
  Volume :: u64
  GC_Hash :: hash

record header_extra =
  CurrentBlockConfirmations :: "confirmation list"
  CurrentBlockVotes :: "vote list"
  CurrentBlockProposals :: "proposal list"
  CurrentBlockDeclares :: "declare_t list"
  ModifyPredecessorVotes :: "vote list"
  Ext_LoopStartTime :: u64
  SignerQueue :: "address list"
  SignerMissing :: "address list"
  ConfirmedBlockNumber :: u64
  SideChainConfirmations :: "sc_confirmation list"
  SideChainSetCoinbases :: "sc_set_coinbase list"
  SideChainNoticeConfirmed :: "sc_confirmation list"
  SideChainCharging :: "gas_charging list"

text \<open>The zero value \<open>HeaderExtra{}\<close>.\<close>

definition empty_extra :: header_extra where
  "empty_extra = \<lparr>CurrentBlockConfirmations = [], CurrentBlockVotes = [], CurrentBlockProposals = [],
     CurrentBlockDeclares = [], ModifyPredecessorVotes = [], Ext_LoopStartTime = 0, SignerQueue = [],
     SignerMissing = [], ConfirmedBlockNumber = 0, SideChainConfirmations = [],
     SideChainSetCoinbases = [], SideChainNoticeConfirmed = [], SideChainCharging = []\<rparr>"

subsection \<open>Side chain records\<close>

record sc_rent_info =
  RentPerPeriod :: int
  MaxRewardNumber :: int

record sc_record =
  Record :: "(u64, sc_confirmation list) gomap"
  LastConfirmedNumber :: u64
  MaxHeaderNumber :: u64
  CountPerPeriod :: u64
  RewardPerPeriod :: u64
  RentReward :: "(hash, sc_rent_info) gomap"

record sc_block_reward =
  RewardScoreMap :: "(address, u64) gomap"

record sc_reward =
  SCBlockRewardMap :: "(u64, sc_block_reward) gomap"

record notice_cr =
  NRecord :: "(address, bool) gomap"
  NCR_Number :: u64
  NCR_Type :: u64
  Success :: bool

record cc_notice =
  CurrentCharging :: "(hash, gas_charging) gomap"
  ConfirmReceived :: "(hash, notice_cr) gomap"

subsection \<open>The snapshot\<close>

record snapshot =
  config :: alien_config
  LCRS :: u64
  Snap_Period :: u64
  Number :: u64
  ConfirmedNumber :: u64
  Hash :: hash
  HistoryHash :: "hash list"
  Signers :: "address list"
  Votes :: "(address, vote) gomap"
  Tally :: "(address, int) gomap"
  Voters :: "(address, int) gomap"
  Candidates :: "(address, u64) gomap"
  Punished :: "(address, u64) gomap"
  Confirmations :: "(u64, address list) gomap"
  Proposals :: "(hash, nat) gomap"
  PropHeap :: "proposal list"
  HeaderTime :: u64
  LoopStartTime :: u64
  ProposalRefund :: "(u64, (address, int) gomap) gomap"
  SCCoinbase :: "(address, (hash, address) gomap) gomap"
  SCRecordMap :: "(hash, sc_record) gomap"
  SCRewardMap :: "(hash, sc_reward) gomap"
  SCNoticeMap :: "(hash, cc_notice) gomap"
  LocalNotice :: cc_notice
  MinerReward :: u64
  MinVB :: "int option"

definition isVoter :: "snapshot \<Rightarrow> address \<Rightarrow> bool" where
  "isVoter s a = ghas (Voters s) a"

definition isCandidate :: "snapshot \<Rightarrow> address \<Rightarrow> bool" where
  "isCandidate s a = ghas (Candidates s) a"

definition isSideChainExist :: "snapshot \<Rightarrow> hash \<Rightarrow> bool" where
  "isSideChainExist s h = ghas (SCRecordMap s) h"

text \<open>
  \<open>a % m\<close> and \<open>a / m\<close> on \<open>uint64\<close> panic when \<open>m\<close> is zero.
\<close>

definition u64_mod :: "u64 \<Rightarrow> u64 \<Rightarrow> u64 res" where
  "u64_mod a m = (if m = 0 then Inl PanicDivide else Inr (a mod m))"

definition u64_div :: "u64 \<Rightarrow> u64 \<Rightarrow> u64 res" where
  "u64_div a m = (if m = 0 then Inl PanicDivide else Inr (a div m))"

lemma u64_mod_eq_Inr [res_simps]: "u64_mod a m = Inr r \<longleftrightarrow> m \<noteq> 0 \<and> r = a mod m"
  by (auto simp: u64_mod_def)

lemma u64_div_eq_Inr [res_simps]: "u64_div a m = Inr r \<longleftrightarrow> m \<noteq> 0 \<and> r = a div m"
  by (auto simp: u64_div_def)

text \<open>Two snapshots with the same stakes: the operations on other fields keep these.\<close>

definition same_votes :: "snapshot \<Rightarrow> snapshot \<Rightarrow> bool" where
  "same_votes s t \<longleftrightarrow> Votes t = Votes s \<and> Voters t = Voters s \<and> Tally t = Tally s \<and> config t = config s"

lemma same_votes_refl [simp]: "same_votes s s"
  by (simp add: same_votes_def)

lemma same_votes_trans: "same_votes s t \<Longrightarrow> same_votes t u \<Longrightarrow> same_votes s u"
  by (simp add: same_votes_def)

lemma same_votes_foldM:
  assumes "foldM f s xs = Inr s'" "\<And>s x s'. f s x = Inr s' \<Longrightarrow> same_votes s s'"
  shows "same_votes s s'"
  by (rule foldM_invariant[OF assms(1), where I = "same_votes s"])
    (auto intro: same_votes_trans assms(2))

lemma same_votes_foldl:
  assumes "\<And>s x. same_votes s (f s x)"
  shows "same_votes s (foldl f s xs)"
  by (rule foldl_invariant[where I = "same_votes s"]) (auto intro: same_votes_trans assms)

lemma same_votes_Proposals [simp]:
  "same_votes s (t\<lparr>Proposals := x\<rparr>) = same_votes s t"
  "same_votes s (t\<lparr>ProposalRefund := y\<rparr>) = same_votes s t"
  "same_votes (t\<lparr>ProposalRefund := y\<rparr>) s = same_votes t s"
  by (simp_all add: same_votes_def)

subsection \<open>Concrete inputs\<close>

text \<open>A small configuration and an empty snapshot, from which the examples below are built.\<close>

definition sample_config :: alien_config where
  "sample_config = \<lparr>Period = 3, Epoch = 201600, MaxSignerCount = 3, MinVoterBalance = Some 100,
     GenesisTimestamp = 1000, SelfVoteSigners = [], SideChain = False, TrantorBlock = None,
     TerminusBlock = None\<rparr>"

definition sample_snapshot :: snapshot where
  "sample_snapshot = \<lparr>config = sample_config, LCRS = 1, Snap_Period = 3, Number = 0,
     ConfirmedNumber = 0, Hash = 0, HistoryHash = [], Signers = [], Votes = [], Tally = [],
     Voters = [], Candidates = [], Punished = [], Confirmations = [], Proposals = [], PropHeap = [],
     HeaderTime = 0, LoopStartTime = 1000, ProposalRefund = [], SCCoinbase = [], SCRecordMap = [],
     SCRewardMap = [], SCNoticeMap = [], LocalNotice = \<lparr>CurrentCharging = [], ConfirmReceived = []\<rparr>,
     MinerReward = 618, MinVB = Some 100\<rparr>"

definition sample_proposal :: proposal where
  "sample_proposal = \<lparr>Prop_Hash = 1, ReceivedNumber = 0, CurrentDeposit = 100, ValidationLoopCnt = 4,
     ProposalType = 3, Proposer = 7, TargetAddress = 0, MinerRewardPerThousand = 700, SCHash = 0,
     SCBlockCountPerPeriod = 1, SCBlockRewardPerPeriod = 0, Declares = [], Prop_MinVoterBalance = 0,
     ProposalDeposit = 0, SCRentFee = 0, SCRentRate = 0, SCRentLength = 0\<rparr>"

definition sample_header :: header where
  "sample_header = \<lparr>ParentHash = 0, UncleHash = 0, Coinbase = 9, Root = 0, TxHash = 0, ReceiptHash = 0,
     Bloom = [], Difficulty = 1, Hdr_Number = 1, GasLimit = 0, GasUsed = 0, Hdr_Time = 1003,
     Extra = replicate 97 0, MixDigest = 0, Nonce = 0\<rparr>"

lemmas sample_defs = sample_config_def sample_snapshot_def

end
