(* ===== verification/Alien_Tally.thy ===== *)
theory Alien_Tally
  imports Alien_Types
begin

text \<open>
  Votes and tallies (\<open>consensus/alien/snapshot.go\<close>): how a block's votes, the balance changes of
  earlier voters and the expiry of old votes update \<open>Votes\<close>, \<open>Tally\<close> and \<open>Voters\<close>, and
  \<open>verifyTallyCnt\<close>, which recomputes the tallies from the votes.

  The specification is \<open>stake_for\<close>: the tally of a candidate is the sum of the stakes of the votes
  for it.  \<open>tally_inv\<close> says that the snapshot keeps it, and every operation preserves it.
\<close>

subsection \<open>Operations\<close>

text \<open>\<open>s.Tally[c].Sub(s.Tally[c], x)\<close>: a missing entry is a \<open>nil\<close> pointer.\<close>

definition tally_sub :: "(address, int) gomap \<Rightarrow> address \<Rightarrow> int \<Rightarrow> (address, int) gomap res" where
  "tally_sub t c x = (case gget t c of None \<Rightarrow> Inl PanicNil | Some y \<Rightarrow> Inr (gput t c (y - x)))"

definition updateVote :: "int \<Rightarrow> snapshot \<Rightarrow> vote \<Rightarrow> snapshot res" where
  "updateVote headerNumber s v =
     bind_res
       (case gget (Votes s) (Voter v) of
          None \<Rightarrow> Inr (Tally s)
        | Some lastVote \<Rightarrow> tally_sub (Tally s) (Candidate lastVote) (Stake lastVote))
       (\<lambda>t.
          let s1 =
            (case gget t (Candidate v) of
               Some y \<Rightarrow> s\<lparr>Tally := gput t (Candidate v) (y + Stake v)\<rparr>
             | None \<Rightarrow>
                 s\<lparr>Tally := gput t (Candidate v) (Stake v),
                   Candidates :=
                     (if \<not> candidateNeedPD
                      then gput (Candidates s) (Candidate v) candidateStateNormal
                      else Candidates s)\<rparr>)
          in Inr (s1\<lparr>Votes := gput (Votes s1) (Voter v) v,
                     Voters := gput (Voters s1) (Voter v) headerNumber\<rparr>))"

definition updateSnapshotByVotes :: "snapshot \<Rightarrow> vote list \<Rightarrow> int \<Rightarrow> snapshot res" where
  "updateSnapshotByVotes s votes headerNumber = foldM (updateVote headerNumber) s votes"

definition updateMPVote :: "snapshot \<Rightarrow> vote \<Rightarrow> snapshot res" where
  "updateMPVote s txVote =
     (case gget (Votes s) (Voter txVote) of
        None \<Rightarrow> Inr s
      | Some lastVote \<Rightarrow>
          bind_res (tally_sub (Tally s) (Candidate lastVote) (Stake lastVote))
            (\<lambda>t1. bind_res (tally_sub t1 (Candidate lastVote) (- Stake txVote))
              (\<lambda>t2. Inr (s\<lparr>Tally := t2,
                 Votes := gput (Votes s) (Voter txVote)
                   \<lparr>Voter = Voter txVote, Candidate = Candidate lastVote, Stake = Stake txVote\<rparr>\<rparr>))))"

definition updateSnapshotByMPVotes :: "snapshot \<Rightarrow> vote list \<Rightarrow> snapshot res" where
  "updateSnapshotByMPVotes s votes = foldM updateMPVote s votes"

text \<open>
  Expiry.  \<open>isExpired\<close> is the test of the first loop, \<open>removeVote\<close> the body of the second; the
  comparison with \<open>MinVB\<close> dereferences it only when the balance check is on.
\<close>

definition isExpired :: "snapshot \<Rightarrow> int \<Rightarrow> bool \<Rightarrow> int \<Rightarrow> vote \<Rightarrow> bool res" where
  "isExpired s headerNumber checkBalance voteNumber v =
     (if Uint64 headerNumber - Uint64 voteNumber > Epoch (config s) then Inr True
      else if checkBalance
      then (case MinVB s of None \<Rightarrow> Inl PanicNil | Some m \<Rightarrow> Inr (Stake v < m))
      else Inr False)"

definition collectExpired :: "snapshot \<Rightarrow> int \<Rightarrow> vote list res" where
  "collectExpired s headerNumber =
     (let checkBalance = length (Voters s) > maxUncheckBalanceVoteCount
      in foldM (\<lambda>acc (voterAddress, voteNumber).
           case gget (Votes s) voterAddress of
             None \<Rightarrow> Inr acc
           | Some expiredVote \<Rightarrow>
               bind_res (isExpired s headerNumber checkBalance voteNumber expiredVote)
                 (\<lambda>b. Inr (if b then acc @ [expiredVote] else acc)))
         [] (Voters s))"

definition removeVote :: "snapshot \<Rightarrow> vote \<Rightarrow> snapshot" where
  "removeVote s v =
     (let t = (case gget (Tally s) (Candidate v) of
                 None \<Rightarrow> Tally s
               | Some y \<Rightarrow>
                   if y - Stake v = 0 then gdel (gput (Tally s) (Candidate v) (y - Stake v)) (Candidate v)
                   else gput (Tally s) (Candidate v) (y - Stake v))
      in s\<lparr>Tally := t, Votes := gdel (Votes s) (Voter v), Voters := gdel (Voters s) (Voter v)\<rparr>)"

definition removeExpiredVotes :: "snapshot \<Rightarrow> vote list \<Rightarrow> snapshot" where
  "removeExpiredVotes s expiredVotes =
     (if word_of_int (int (length (Voters s)) - int (length expiredVotes)) \<ge> MaxSignerCount (config s)
      then foldl removeVote s expiredVotes else s)"

definition expireConfirmations :: "snapshot \<Rightarrow> int \<Rightarrow> snapshot" where
  "expireConfirmations s headerNumber =
     foldl (\<lambda>s blockNumber.
        if Uint64 headerNumber - blockNumber > MaxSignerCount (config s)
        then s\<lparr>Confirmations := gdel (Confirmations s) blockNumber\<rparr> else s)
      s (gkeys (Confirmations s))"

definition dropEmptyTally :: "snapshot \<Rightarrow> address \<times> int \<Rightarrow> snapshot" where
  "dropEmptyTally s e =
     (if snd e \<le> 0
      then s\<lparr>SCCoinbase := (if ghas (SCCoinbase s) (fst e) then gdel (SCCoinbase s) (fst e)
                            else SCCoinbase s),
             Tally := gdel (Tally s) (fst e)\<rparr>
      else s)"

definition dropEmptyTallies :: "snapshot \<Rightarrow> snapshot" where
  "dropEmptyTallies s = foldl dropEmptyTally s (Tally s)"

definition updateSnapshotForExpired :: "snapshot \<Rightarrow> int \<Rightarrow> snapshot res" where
  "updateSnapshotForExpired s headerNumber =
     bind_res (collectExpired s headerNumber)
       (\<lambda>expiredVotes.
          Inr (dropEmptyTallies
            (expireConfirmations (removeExpiredVotes s expiredVotes) headerNumber)))"

text \<open>\<open>verifyTallyCnt\<close>: recompute the tallies from the votes and compare.\<close>

definition addTallyTarget :: "(address, int) gomap \<Rightarrow> vote \<Rightarrow> (address, int) gomap" where
  "addTallyTarget t v =
     (case gget t (Candidate v) of
        Some y \<Rightarrow> gput t (Candidate v) (y + Stake v)
      | None \<Rightarrow> gput t (Candidate v) (Stake v))"

definition tallyTarget :: "snapshot \<Rightarrow> (address, int) gomap" where
  "tallyTarget s = foldl addTallyTarget [] (map snd (Votes s))"

definition verifyTallyCnt :: "snapshot \<Rightarrow> unit res" where
  "verifyTallyCnt s =
     foldM (\<lambda>_ (address, tally).
        case gget (tallyTarget s) address of
          Some target \<Rightarrow> if target = tally then Inr () else Inl errIncorrectTallyCount
        | None \<Rightarrow> Inl errIncorrectTallyCount)
      () (Tally s)"

subsection \<open>The specification\<close>

definition stake_for :: "snapshot \<Rightarrow> address \<Rightarrow> int" where
  "stake_for s c = gsum (\<lambda>_ v. if Candidate v = c then Stake v else 0) (Votes s)"

definition tally_at :: "snapshot \<Rightarrow> address \<Rightarrow> int" where
  "tally_at s c = gat (\<lambda>_ t. t) (Tally s) c"

text \<open>
  The shape of the three maps: a vote is filed under its voter, has a nonnegative stake, and
  \<open>Voters\<close> knows exactly the voters of \<open>Votes\<close>.
\<close>

definition votes_wf :: "snapshot \<Rightarrow> bool" where
  "votes_wf s \<longleftrightarrow>
     ginv (Votes s) \<and> ginv (Voters s) \<and> ginv (Tally s) \<and>
     (\<forall>k v. gget (Votes s) k = Some v \<longrightarrow> Voter v = k \<and> 0 \<le> Stake v) \<and>
     (\<forall>k. gget (Voters s) k = None \<longleftrightarrow> gget (Votes s) k = None)"

definition tally_inv :: "snapshot \<Rightarrow> bool" where
  "tally_inv s \<longleftrightarrow> votes_wf s \<and> (\<forall>c. tally_at s c = stake_for s c)"

text \<open>Every vote has a tally entry to be subtracted from: what excludes the \<open>nil\<close> dereference.\<close>

definition votes_backed :: "snapshot \<Rightarrow> bool" where
  "votes_backed s \<longleftrightarrow> (\<forall>k v. gget (Votes s) k = Some v \<longrightarrow> gget (Tally s) (Candidate v) \<noteq> None)"

lemma tally_inv_ginv:
  assumes "tally_inv s"
  shows "ginv (Votes s)" "ginv (Voters s)" "ginv (Tally s)"
  using assms by (simp_all add: tally_inv_def votes_wf_def)

lemma tally_inv_voteD:
  assumes "tally_inv s" "gget (Votes s) k = Some v"
  shows "Voter v = k" "0 \<le> Stake v"
  using assms by (simp_all add: tally_inv_def votes_wf_def)

lemma tally_inv_cong:
  assumes "Votes s' = Votes s" "Voters s' = Voters s" "Tally s' = Tally s"
  shows "tally_inv s' = tally_inv s"
  using assms by (simp add: tally_inv_def votes_wf_def tally_at_def stake_for_def)

lemma stake_for_put:
  assumes "ginv (Votes s)" "Votes s' = gput (Votes s) k v"
  shows "stake_for s' c =
    stake_for s c
    - (case gget (Votes s) k of None \<Rightarrow> 0 | Some u \<Rightarrow> if Candidate u = c then Stake u else 0)
    + (if Candidate v = c then Stake v else 0)"
  using assms by (auto simp: stake_for_def gsum_gput gat_def split: option.splits)

lemma stake_for_nonneg: "tally_inv s \<Longrightarrow> 0 \<le> stake_for s c"
  unfolding stake_for_def
  by (rule gsum_nonneg) (auto simp: tally_inv_ginv dest: tally_inv_voteD)

lemma stake_le_stake_for:
  assumes "tally_inv s" "gget (Votes s) k = Some v"
  shows "Stake v \<le> stake_for s (Candidate v)"
proof -
  have "gat (\<lambda>_ u. if Candidate u = Candidate v then Stake u else 0) (Votes s) k
      \<le> stake_for s (Candidate v)"
    unfolding stake_for_def
    by (rule gat_le_gsum) (use assms in \<open>auto simp: tally_inv_ginv dest: tally_inv_voteD\<close>)
  then show ?thesis using assms(2) by (simp add: gat_def)
qed

subsection \<open>Votes of a block\<close>

lemma tally_sub_eq_Inr [res_simps]:
  "tally_sub t c x = Inr t' \<longleftrightarrow> (\<exists>y. gget t c = Some y \<and> t' = gput t c (y - x))"
  by (auto simp: tally_sub_def split: option.splits)

lemma tally_sub_eq_Inl [res_simps]: "tally_sub t c x = Inl e \<longleftrightarrow> gget t c = None \<and> e = PanicNil"
  by (auto simp: tally_sub_def split: option.splits)

text \<open>The tally after one vote, whatever branch is taken.\<close>

lemma updateVote_effect:
  assumes "updateVote n s v = Inr s'"
  shows "Votes s' = gput (Votes s) (Voter v) v"
    and "Voters s' = gput (Voters s) (Voter v) n"
    and "ginv (Tally s) \<Longrightarrow> ginv (Tally s')"
  using assms
  by (auto simp: updateVote_def Let_def res_simps split: option.splits)

lemma updateVote_tally:
  assumes "updateVote n s v = Inr s'"
  shows "tally_at s' c = tally_at s c
      - (case gget (Votes s) (Voter v) of None \<Rightarrow> 0 | Some u \<Rightarrow> if Candidate u = c then Stake u else 0)
      + (if Candidate v = c then Stake v else 0)"
proof (cases "gget (Votes s) (Voter v)")
  case None
  with assms show ?thesis
    by (cases "gget (Tally s) (Candidate v)") (auto simp: updateVote_def tally_at_def gat_def)
next
  case (Some u)
  with assms obtain y where y: "gget (Tally s) (Candidate u) = Some y"
    by (auto simp: updateVote_def res_simps)
  with assms Some show ?thesis
    by (cases "gget (Tally s) (Candidate v)"; cases "Candidate u = Candidate v")
      (auto simp: updateVote_def tally_at_def gat_def tally_sub_def split: if_splits)
qed

lemma updateMPVote_effect:
  assumes "updateMPVote s v = Inr s'"
  shows "Voters s' = Voters s"
    and "ginv (Tally s) \<Longrightarrow> ginv (Tally s')"
  using assms
  by (auto simp: updateMPVote_def res_simps  split: option.splits)

lemma updateMPVote_tally:
  assumes "updateMPVote s v = Inr s'" "gget (Votes s) (Voter v) = Some u"
  shows "Votes s' = gput (Votes s) (Voter v) \<lparr>Voter = Voter v, Candidate = Candidate u, Stake = Stake v\<rparr>"
    and "tally_at s' c = tally_at s c + (if Candidate u = c then Stake v - Stake u else 0)"
  using assms
  by (auto simp: updateMPVote_def res_simps tally_at_def gat_def)

lemma updateVote_inv:
  assumes "tally_inv s" "0 \<le> Stake v" "updateVote n s v = Inr s'"
  shows "tally_inv s'"
proof -
  note eff = updateVote_effect[OF assms(3)]
  have "votes_wf s'"
    using assms(1,2) by (auto simp: tally_inv_def votes_wf_def eff split: if_splits)
  moreover have "tally_at s' c = stake_for s' c" for c
    using assms(1) tally_inv_ginv(1)[OF assms(1)]
    by (simp add: updateVote_tally[OF assms(3)] stake_for_put[OF _ eff(1)] tally_inv_def)
  ultimately show ?thesis by (simp add: tally_inv_def)
qed

lemma updateMPVote_inv:
  assumes "tally_inv s" "0 \<le> Stake v" "updateMPVote s v = Inr s'"
  shows "tally_inv s'"
proof (cases "gget (Votes s) (Voter v)")
  case None
  then show ?thesis using assms by (simp add: updateMPVote_def)
next
  case (Some u)
  note eff = updateMPVote_effect[OF assms(3)] updateMPVote_tally[OF assms(3) Some]
  have "votes_wf s'"
    using assms(1,2) Some by (auto simp: tally_inv_def votes_wf_def eff split: if_splits)
  moreover have "tally_at s' c = stake_for s' c" for c
    using assms(1) Some tally_inv_ginv(1)[OF assms(1)]
    by (simp add: eff(4) stake_for_put[OF _ eff(3)] tally_inv_def)
  ultimately show ?thesis by (simp add: tally_inv_def)
qed

lemma updateSnapshotByVotes_inv:
  assumes "tally_inv s" "\<forall>v \<in> set votes. 0 \<le> Stake v" "updateSnapshotByVotes s votes n = Inr s'"
  shows "tally_inv s'"
  using foldM_invariant[OF assms(3)[unfolded updateSnapshotByVotes_def], of tally_inv]
    assms(1,2) updateVote_inv by blast

lemma updateSnapshotByMPVotes_inv:
  assumes "tally_inv s" "\<forall>v \<in> set votes. 0 \<le> Stake v" "updateSnapshotByMPVotes s votes = Inr s'"
  shows "tally_inv s'"
  using foldM_invariant[OF assms(3)[unfolded updateSnapshotByMPVotes_def], of tally_inv]
    assms(1,2) updateMPVote_inv by blast

text \<open>While every vote is backed by a tally entry, no vote can make the node panic.\<close>

lemma votes_backedE:
  assumes "votes_backed s" "gget (Votes s) k = Some v"
  obtains y where "gget (Tally s) (Candidate v) = Some y"
  using assms by (auto simp: votes_backed_def)

lemma updateVote_backed:
  assumes "votes_backed s"
  shows "\<exists>s'. updateVote n s v = Inr s' \<and> votes_backed s'"
proof -
  have "\<exists>s'. updateVote n s v = Inr s' \<and> gget (Tally s') (Candidate v) \<noteq> None \<and>
      dom (gget (Tally s)) \<subseteq> dom (gget (Tally s'))"
    by (cases "gget (Votes s) (Voter v)"; cases "gget (Tally s) (Candidate v)")
      (auto simp: updateVote_def Let_def tally_sub_def split: option.splits if_splits
        elim!: votes_backedE[OF assms])
  then obtain s' where s': "updateVote n s v = Inr s'" "gget (Tally s') (Candidate v) \<noteq> None"
      "dom (gget (Tally s)) \<subseteq> dom (gget (Tally s'))"
    by blast
  have "votes_backed s'"
    using assms s'(2,3) updateVote_effect(1)[OF s'(1)]
    unfolding votes_backed_def by (auto simp: dom_def split: if_splits) blast
  with s'(1) show ?thesis by blast
qed

lemma updateMPVote_backed:
  assumes "votes_backed s"
  shows "\<exists>s'. updateMPVote s v = Inr s' \<and> votes_backed s'"
proof (cases "gget (Votes s) (Voter v)")
  case (Some u)
  then obtain y where "gget (Tally s) (Candidate u) = Some y"
    using votes_backedE[OF assms] by blast
  with Some assms show ?thesis
    by (auto simp: updateMPVote_def votes_backed_def tally_sub_def)
qed (simp add: updateMPVote_def assms)

lemma updateSnapshotByVotes_backed:
  "votes_backed s \<Longrightarrow> \<exists>s'. updateSnapshotByVotes s votes n = Inr s' \<and> votes_backed s'"
  unfolding updateSnapshotByVotes_def by (rule foldM_total) (auto intro: updateVote_backed)

lemma updateSnapshotByMPVotes_backed:
  "votes_backed s \<Longrightarrow> \<exists>s'. updateSnapshotByMPVotes s votes = Inr s' \<and> votes_backed s'"
  unfolding updateSnapshotByMPVotes_def by (rule foldM_total) (auto intro: updateMPVote_backed)

subsection \<open>Expiry\<close>

lemma expireConfirmations_frame [frame_simps]:
  "Votes (expireConfirmations s n) = Votes s" "Voters (expireConfirmations s n) = Voters s"
  "Tally (expireConfirmations s n) = Tally s" "config (expireConfirmations s n) = config s"
proof -
  let ?I = "\<lambda>t. Votes t = Votes s \<and> Voters t = Voters s \<and> Tally t = Tally s \<and> config t = config s"
  have "?I (expireConfirmations s n)"
    unfolding expireConfirmations_def by (rule foldl_invariant[where I = ?I]) auto
  then show "Votes (expireConfirmations s n) = Votes s" "Voters (expireConfirmations s n) = Voters s"
    "Tally (expireConfirmations s n) = Tally s" "config (expireConfirmations s n) = config s" by auto
qed

lemma foldl_dropEmptyTally:
  "Tally (foldl dropEmptyTally s es) = filter (\<lambda>e. fst e \<notin> fst ` {x \<in> set es. snd x \<le> 0}) (Tally s)"
  "Votes (foldl dropEmptyTally s es) = Votes s"
  "Voters (foldl dropEmptyTally s es) = Voters s"
proof (induction es arbitrary: s)
  case (Cons e es)
  {
    case 1
    have "Tally (dropEmptyTally s e) =
        filter (\<lambda>x. snd e \<le> 0 \<longrightarrow> fst x \<noteq> fst e) (Tally s)"
      using gdel_filter[of "\<lambda>_. True" "Tally s" "fst e"] by (simp add: dropEmptyTally_def)
    with Cons(1) show ?case by (auto simp: intro!: filter_cong)
  next
    case 2
    from Cons(2) show ?case by (simp add: dropEmptyTally_def)
  next
    case 3
    from Cons(3) show ?case by (simp add: dropEmptyTally_def)
  }
qed auto

lemma dropEmptyTallies_frame [frame_simps]:
  "Votes (dropEmptyTallies s) = Votes s" "Voters (dropEmptyTallies s) = Voters s"
  by (simp_all add: dropEmptyTallies_def foldl_dropEmptyTally)

lemma dropEmptyTallies_Tally:
  assumes "ginv (Tally s)"
  shows "Tally (dropEmptyTallies s) = filter (\<lambda>e. 0 < snd e) (Tally s)"
  unfolding dropEmptyTallies_def foldl_dropEmptyTally
proof (rule filter_cong[OF refl])
  fix e assume "e \<in> set (Tally s)"
  then have "\<And>x. x \<in> set (Tally s) \<Longrightarrow> fst x = fst e \<Longrightarrow> x = e"
    using assms by (metis gget_ginv_iff option.inject prod.collapse)
  then show "fst e \<notin> fst ` {x \<in> set (Tally s). snd x \<le> 0} \<longleftrightarrow> 0 < snd e"
    using \<open>e \<in> set (Tally s)\<close> by (fastforce simp: image_iff not_le)
qed

lemma dropEmptyTallies_inv:
  assumes "tally_inv s"
  shows "tally_inv (dropEmptyTallies s)"
    and "gget (Tally (dropEmptyTallies s)) c = Some t \<Longrightarrow> 0 < t"
proof -
  have T: "Tally (dropEmptyTallies s) = filter (\<lambda>e. 0 < snd e) (Tally s)"
    by (rule dropEmptyTallies_Tally[OF tally_inv_ginv(3)[OF assms]])
  have S: "stake_for (dropEmptyTallies s) c = stake_for s c" for c
    by (simp add: stake_for_def frame_simps)
  have "tally_at (dropEmptyTallies s) c = stake_for s c" for c
    using assms stake_for_nonneg[OF assms, of c] gget_filter[OF tally_inv_ginv(3)[OF assms]]
    by (auto simp: tally_at_def gat_def T tally_inv_def split: option.splits) force
  then show "tally_inv (dropEmptyTallies s)"
    using assms by (simp add: tally_inv_def votes_wf_def frame_simps S T ginv_filter)
  show "0 < t" if "gget (Tally (dropEmptyTallies s)) c = Some t"
    using that gget_filter[OF tally_inv_ginv(3)[OF assms]] by (auto simp: T split: option.splits if_splits)
qed

lemma removeVote_maps [simp]:
  "Votes (removeVote s v) = gdel (Votes s) (Voter v)"
  "Voters (removeVote s v) = gdel (Voters s) (Voter v)"
  "config (removeVote s v) = config s"
  by (simp_all add: removeVote_def Let_def)

lemma removeVote_inv:
  assumes "tally_inv s" "gget (Votes s) (Voter v) = Some v"
  shows "tally_inv (removeVote s v)"
proof -
  note gi = tally_inv_ginv[OF assms(1)]
  have "votes_wf (removeVote s v)"
    using assms(1) gi by (auto simp: tally_inv_def votes_wf_def)
      (auto simp: removeVote_def Let_def split: option.splits)
  moreover have "tally_at (removeVote s v) c = stake_for (removeVote s v) c" for c
  proof -
    have st: "stake_for (removeVote s v) c
        = stake_for s c - (if Candidate v = c then Stake v else 0)"
      using gi assms(2) by (simp add: stake_for_def gsum_gdel gat_def)
    have "gget (Tally s) (Candidate v) = None \<Longrightarrow> Stake v = 0"
      using stake_le_stake_for[OF assms] tally_inv_voteD(2)[OF assms] assms(1)
      by (auto simp: tally_inv_def tally_at_def gat_def dest: spec[of _ "Candidate v"])
    then have "tally_at (removeVote s v) c = tally_at s c - (if Candidate v = c then Stake v else 0)"
      by (auto simp: tally_at_def gat_def removeVote_def Let_def split: option.splits)
    with st assms(1) show ?thesis by (simp add: tally_inv_def)
  qed
  ultimately show ?thesis by (simp add: tally_inv_def)
qed

definition filed :: "snapshot \<Rightarrow> vote list \<Rightarrow> bool" where
  "filed s vs \<longleftrightarrow> distinct (map Voter vs) \<and> (\<forall>v \<in> set vs. gget (Votes s) (Voter v) = Some v)"

lemma foldl_removeVote_inv: "tally_inv s \<Longrightarrow> filed s vs \<Longrightarrow> tally_inv (foldl removeVote s vs)"
proof (induction vs arbitrary: s)
  case (Cons v vs)
  have v: "gget (Votes s) (Voter v) = Some v" and vs: "filed s vs"
    and fresh: "Voter v \<notin> Voter ` set vs"
    using Cons.prems(2) by (simp_all add: filed_def)
  have "gget (Votes (removeVote s v)) (Voter u) = gget (Votes s) (Voter u)" if "u \<in> set vs" for u
    using fresh that by (auto simp: image_iff)
  with vs have "filed (removeVote s v) vs"
    unfolding filed_def by simp
  then show ?case
    using Cons.IH[OF removeVote_inv[OF Cons.prems(1) v]] by simp
qed simp

lemma collectExpired_filed:
  assumes "tally_inv s" "collectExpired s n = Inr vs"
  shows "filed s vs"
proof -
  have step: "filed s vs"
    if "foldM (\<lambda>acc (voterAddress, voteNumber).
           case gget (Votes s) voterAddress of
             None \<Rightarrow> Inr acc
           | Some expiredVote \<Rightarrow>
               bind_res (isExpired s n cb voteNumber expiredVote)
                 (\<lambda>b. Inr (if b then acc @ [expiredVote] else acc))) acc es = Inr vs"
      "distinct (map Voter acc @ map fst es)" "filed s acc" for acc es cb
    using that
  proof (induction es arbitrary: acc)
    case (Cons e es)
    obtain a m where e: "e = (a, m)" by (cases e)
    show ?case
    proof (cases "gget (Votes s) a")
      case None
      with Cons e show ?thesis by simp
    next
      case (Some u)
      then have u: "Voter u = a" using tally_inv_voteD[OF assms(1)] by simp
      from Some Cons.prems(1) e obtain b where b: "isExpired s n cb m u = Inr b"
        by (auto simp: res_simps)
      have acc: "distinct (map Voter (acc @ [u]) @ map fst es)" "filed s (acc @ [u])"
        "distinct (map Voter acc @ map fst es)"
        using Cons.prems(2,3) Some u e by (simp_all add: filed_def)
      show ?thesis
        using Cons.IH[of "acc @ [u]"] Cons.IH[of acc] Cons.prems(1,3) acc
        by (cases b) (simp_all add: e Some b)
    qed
  qed simp
  show ?thesis
    using step[of _ "[]" "Voters s"] assms tally_inv_ginv(2)[OF assms(1)]
    by (simp add: collectExpired_def filed_def ginv_def Let_def)
qed

lemma removeExpiredVotes_inv:
  "tally_inv s \<Longrightarrow> filed s vs \<Longrightarrow> tally_inv (removeExpiredVotes s vs)"
  by (simp add: removeExpiredVotes_def foldl_removeVote_inv)

lemma updateSnapshotForExpired_inv:
  assumes "tally_inv s" "updateSnapshotForExpired s n = Inr s'"
  shows "tally_inv s'" and "gget (Tally s') c = Some t \<Longrightarrow> 0 < t"
proof -
  obtain vs where vs: "collectExpired s n = Inr vs"
    and s': "s' = dropEmptyTallies (expireConfirmations (removeExpiredVotes s vs) n)"
    using assms(2) by (auto simp: updateSnapshotForExpired_def res_simps)
  have "tally_inv (removeExpiredVotes s vs)"
    using removeExpiredVotes_inv collectExpired_filed[OF assms(1) vs] assms(1) by blast
  then have "tally_inv (expireConfirmations (removeExpiredVotes s vs) n)"
    by (subst tally_inv_cong) (simp_all add: frame_simps)
  from dropEmptyTallies_inv[OF this] show "tally_inv s'"
    and "gget (Tally s') c = Some t \<Longrightarrow> 0 < t" by (simp_all add: s')
qed

subsection \<open>The recount agrees\<close>

lemma gget_foldl_addTallyTarget:
  "gget (foldl addTallyTarget t vs) c =
    (if gget t c = None \<and> (\<forall>v \<in> set vs. Candidate v \<noteq> c) then None
     else Some (gat (\<lambda>_ x. x) t c + (\<Sum>v\<leftarrow>vs. if Candidate v = c then Stake v else 0)))"
proof (induction vs arbitrary: t)
  case (Cons v vs)
  show ?case
    by (simp add: Cons) (auto simp: addTallyTarget_def gat_def split: option.splits)
qed (auto simp: gat_def split: option.splits)

lemma gget_tallyTarget:
  "gget (tallyTarget s) c =
    (if \<forall>v \<in> snd ` set (Votes s). Candidate v \<noteq> c then None else Some (stake_for s c))"
proof -
  have "(\<Sum>v\<leftarrow>map snd (Votes s). if Candidate v = c then Stake v else 0) = stake_for s c"
    unfolding stake_for_def gsum_def by (simp add: case_prod_unfold comp_def)
  then show ?thesis
    unfolding tallyTarget_def by (simp add: gget_foldl_addTallyTarget gat_def)
qed

lemma stake_for_no_vote: "\<forall>v \<in> snd ` set (Votes s). Candidate v \<noteq> c \<Longrightarrow> stake_for s c = 0"
  unfolding stake_for_def by (rule gsum_zero) auto

text \<open>\<open>verifyTallyCnt\<close> accepts exactly when each tally is the stake of at least one vote.\<close>

lemma verifyTallyCnt_iff:
  "verifyTallyCnt s = Inr () \<longleftrightarrow>
    (\<forall>(c, t) \<in> set (Tally s). (\<exists>v \<in> snd ` set (Votes s). Candidate v = c) \<and> t = stake_for s c)"
  unfolding verifyTallyCnt_def
  by (subst foldM_unit_ok) (auto simp: gget_tallyTarget split: if_splits; fastforce)

lemma verifyTallyCnt_ok:
  assumes "tally_inv s" "\<And>c t. gget (Tally s) c = Some t \<Longrightarrow> 0 < t"
  shows "verifyTallyCnt s = Inr ()"
  unfolding verifyTallyCnt_iff
proof clarify
  fix c t assume "(c, t) \<in> set (Tally s)"
  then have t: "gget (Tally s) c = Some t"
    using tally_inv_ginv(3)[OF assms(1)] by (simp add: gget_ginv_iff)
  then have eq: "t = stake_for s c"
    using assms(1) by (auto simp: tally_inv_def tally_at_def gat_def dest: spec[of _ c])
  show "(\<exists>v \<in> snd ` set (Votes s). Candidate v = c) \<and> t = stake_for s c"
    using assms(2)[OF t] eq stake_for_no_vote[of s c] by auto
qed

subsection \<open>The abstract ledger\<close>

text \<open>
  What the votes promise: each voter backs one candidate with one stake.  A vote sets both; a change
  of the voter's balance sets the stake only.  The tally of a candidate is the sum of the stakes
  behind it.
\<close>

type_synonym ledger = "address \<rightharpoonup> address \<times> int"

definition ledger_of :: "snapshot \<Rightarrow> ledger" where
  "ledger_of s a = map_option (\<lambda>v. (Candidate v, Stake v)) (gget (Votes s) a)"

definition cast_vote :: "ledger \<Rightarrow> vote \<Rightarrow> ledger" where
  "cast_vote L v = L(Voter v \<mapsto> (Candidate v, Stake v))"

definition restake :: "ledger \<Rightarrow> vote \<Rightarrow> ledger" where
  "restake L v = (case L (Voter v) of None \<Rightarrow> L | Some e \<Rightarrow> L(Voter v \<mapsto> (fst e, Stake v)))"

definition backing :: "ledger \<Rightarrow> address \<Rightarrow> int" where
  "backing L c = (\<Sum>a\<in>dom L. if fst (the (L a)) = c then snd (the (L a)) else 0)"

lemma dom_ledger_of: "dom (ledger_of s) = dom (gget (Votes s))"
  by (auto simp: ledger_of_def dom_def)

lemma stake_for_backing: "ginv (Votes s) \<Longrightarrow> stake_for s c = backing (ledger_of s) c"
  unfolding stake_for_def backing_def dom_ledger_of
  using gm.sum_over_dom[of "Votes s", unfolded gm_sum_over gm_at]
  by (auto simp: gat_def ledger_of_def intro!: sum.cong)

lemma tally_inv_backing: "tally_inv s \<Longrightarrow> tally_at s c = backing (ledger_of s) c"
  using stake_for_backing[OF tally_inv_ginv(1)[of s], of c] unfolding tally_inv_def by metis

lemma updateVote_ledger: "updateVote n s v = Inr s' \<Longrightarrow> ledger_of s' = cast_vote (ledger_of s) v"
  using updateVote_effect(1)[of n s v s'] by (auto simp: ledger_of_def cast_vote_def fun_eq_iff)

lemma updateMPVote_ledger: "updateMPVote s v = Inr s' \<Longrightarrow> ledger_of s' = restake (ledger_of s) v"
proof (cases "gget (Votes s) (Voter v)")
  case None
  then show "updateMPVote s v = Inr s' \<Longrightarrow> ?thesis"
    by (simp add: updateMPVote_def restake_def ledger_of_def)
next
  case (Some u)
  then show "updateMPVote s v = Inr s' \<Longrightarrow> ?thesis"
    using updateMPVote_tally(1)[OF _ Some] by (auto simp: ledger_of_def restake_def fun_eq_iff)
qed

lemma foldM_ledger:
  assumes "foldM f s vs = Inr s'" "\<And>s v s'. f s v = Inr s' \<Longrightarrow> ledger_of s' = g (ledger_of s) v"
  shows "ledger_of s' = foldl g (ledger_of s) vs"
  using assms(1) by (induction vs arbitrary: s) (auto simp: res_simps assms(2))

subsection \<open>Properties\<close>

text \<open>
  C8.  The votes of a block refine the abstract ledger: after \<open>updateSnapshotByVotes\<close> and
  \<open>updateSnapshotByMPVotes\<close> the recorded votes are those of the ledger after the same votes and
  balance changes, and the tally of every candidate is the sum of the stakes that back it there.
\<close>

theorem votes_refine_ledger:
  assumes "tally_inv s" "\<forall>v \<in> set votes. 0 \<le> Stake v" "\<forall>v \<in> set mps. 0 \<le> Stake v"
    and "updateSnapshotByVotes s votes n = Inr s1" "updateSnapshotByMPVotes s1 mps = Inr s2"
  shows "ledger_of s2 = foldl restake (foldl cast_vote (ledger_of s) votes) mps
    \<and> tally_at s2 c = backing (ledger_of s2) c"
proof -
  have "ledger_of s1 = foldl cast_vote (ledger_of s) votes"
    using assms(4) unfolding updateSnapshotByVotes_def by (rule foldM_ledger) (rule updateVote_ledger)
  moreover have "ledger_of s2 = foldl restake (ledger_of s1) mps"
    using assms(5) unfolding updateSnapshotByMPVotes_def by (rule foldM_ledger) (rule updateMPVote_ledger)
  moreover have "tally_inv s2"
    using updateSnapshotByMPVotes_inv[OF updateSnapshotByVotes_inv] assms by blast
  ultimately show ?thesis using tally_inv_backing by simp
qed

theorem votes_refine_ledger_witness:
  "\<exists>s1 s2. updateSnapshotByVotes sample_snapshot [\<lparr>Voter = 1, Candidate = 9, Stake = 200\<rparr>] 1 = Inr s1
     \<and> updateSnapshotByMPVotes s1 [\<lparr>Voter = 1, Candidate = 0, Stake = 150\<rparr>] = Inr s2
     \<and> ledger_of s2 = [1 \<mapsto> (9, 150)] \<and> tally_at s2 9 = backing (ledger_of s2) 9"
proof -
  let ?v = "[\<lparr>Voter = 1, Candidate = 9, Stake = 200\<rparr>]" and ?m = "[\<lparr>Voter = 1, Candidate = 0, Stake = 150\<rparr>]"
  have inv: "tally_inv sample_snapshot"
    by (simp add: sample_defs tally_inv_def votes_wf_def tally_at_def stake_for_def gat_def)
  have b0: "votes_backed sample_snapshot" by (simp add: sample_defs votes_backed_def)
  from updateSnapshotByVotes_backed[OF b0, of ?v 1] obtain s1
    where e1: "updateSnapshotByVotes sample_snapshot ?v 1 = Inr s1" and b1: "votes_backed s1" by blast
  from updateSnapshotByMPVotes_backed[OF b1, of ?m] obtain s2
    where e2: "updateSnapshotByMPVotes s1 ?m = Inr s2" by blast
  from votes_refine_ledger[OF inv _ _ e1 e2, of 9] e1 e2 show ?thesis
    by (auto simp: cast_vote_def restake_def ledger_of_def sample_defs)
qed

text \<open>
  C10.  The recount: \<open>verifyTallyCnt\<close> accepts a snapshot exactly if every candidate with a tally has
  a vote and its tally is the sum of the stakes of the votes for it.
\<close>

theorem recount_exact:
  "verifyTallyCnt s = Inr () \<longleftrightarrow>
    (\<forall>(c, t) \<in> set (Tally s). (\<exists>v \<in> snd ` set (Votes s). Candidate v = c) \<and> t = stake_for s c)"
  by (rule verifyTallyCnt_iff)

theorem recount_exact_witness:
  "verifyTallyCnt (sample_snapshot\<lparr>Votes := [(1, \<lparr>Voter = 1, Candidate = 9, Stake = 5\<rparr>)], Tally := [(9, 5)]\<rparr>) = Inr ()"
  using recount_exact[of "sample_snapshot\<lparr>Votes := [(1, \<lparr>Voter = 1, Candidate = 9, Stake = 5\<rparr>)], Tally := [(9, 5)]\<rparr>"]
  by (simp add: sample_defs stake_for_def)

text \<open>
  C9.  A vote left without a tally: when the stakes behind the candidate of a recorded vote sum to
  zero, \<open>updateSnapshotForExpired\<close> deletes the tally and keeps the vote; the next vote of that voter,
  or the next change of its balance, then dereferences the missing tally and panics.
\<close>

theorem zero_stake_panics:
  assumes "tally_inv s" "updateSnapshotForExpired s n = Inr s'"
    and "gget (Votes s') (Voter v) = Some u" "stake_for s' (Candidate u) = 0"
  shows "updateVote m s' v = Inl PanicNil \<and> updateMPVote s' v = Inl PanicNil"
proof -
  note inv = updateSnapshotForExpired_inv[OF assms(1,2)]
  have "gget (Tally s') (Candidate u) = None"
  proof (cases "gget (Tally s') (Candidate u)")
    case (Some t)
    then have "tally_at s' (Candidate u) = t" by (simp add: tally_at_def gat_def)
    with inv(1) assms(4) have "t = 0" by (simp add: tally_inv_def)
    with inv(2)[OF Some] show ?thesis by simp
  qed
  then show ?thesis
    using assms(3) by (simp add: updateVote_def updateMPVote_def tally_sub_def)
qed

theorem zero_stake_panics_witness:
  "\<exists>s'. updateSnapshotForExpired (sample_snapshot\<lparr>Votes := [(1, \<lparr>Voter = 1, Candidate = 9, Stake = 0\<rparr>)],
       Voters := [(1, 5)], Tally := [(9, 0)]\<rparr>) 6 = Inr s'
     \<and> updateMPVote s' \<lparr>Voter = 1, Candidate = 0, Stake = 150\<rparr> = Inl PanicNil"
proof -
  let ?s = "sample_snapshot\<lparr>Votes := [(1, \<lparr>Voter = 1, Candidate = 9, Stake = 0\<rparr>)],
       Voters := [(1, 5)], Tally := [(9, 0)]\<rparr>"
  have inv: "tally_inv ?s"
    by (auto simp: sample_defs tally_inv_def votes_wf_def tally_at_def stake_for_def gat_def gget_def ginv_def
        split: if_splits)
  have ex: "updateSnapshotForExpired ?s 6 = Inr (?s\<lparr>Tally := []\<rparr>)"
    by (simp add: updateSnapshotForExpired_def collectExpired_def isExpired_def removeExpiredVotes_def
        expireConfirmations_def dropEmptyTallies_def dropEmptyTally_def sample_defs gget_def gdel_def
        gkeys_def maxUncheckBalanceVoteCount_def)
  from zero_stake_panics[OF inv ex, of "\<lparr>Voter = 1, Candidate = 0, Stake = 150\<rparr>"
      "\<lparr>Voter = 1, Candidate = 9, Stake = 0\<rparr>"] ex show ?thesis
    by (simp add: gget_def stake_for_def)
qed

end
