(* ===== verification/Alien_Signing.thy ===== *)
theory Alien_Signing
  imports Alien_Types
begin

text \<open>
  Who signs, who is punished and which blocks are confirmed: \<open>updateSnapshotForPunish\<close>,
  \<open>inturn\<close>, \<open>updateSnapshotByConfirmations\<close> and \<open>getLastConfirmedBlockNumber\<close> of
  \<open>consensus/alien/snapshot.go\<close>, and \<open>getSignerMissing\<close> and \<open>getSignerMissingTrantor\<close> of
  \<open>consensus/alien/alien.go\<close>.
\<close>

subsection \<open>Punishment\<close>

definition punishMissing :: "(address, u64) gomap \<Rightarrow> address \<Rightarrow> (address, u64) gomap" where
  "punishMissing p signerEach =
     (case gget p signerEach of
        Some c \<Rightarrow> if c \<le> 10 * defaultFullCredit then gput p signerEach (c + missingPublishCredit) else p
      | None \<Rightarrow> gput p signerEach missingPublishCredit)"

definition reducePunish :: "u64 \<Rightarrow> (address, u64) gomap \<Rightarrow> address \<Rightarrow> (address, u64) gomap" where
  "reducePunish credit p a =
     (case gget p a of
        Some c \<Rightarrow> if c > credit then gput p a (c - credit) else gdel p a
      | None \<Rightarrow> p)"

definition updateSnapshotForPunish ::
  "snapshot \<Rightarrow> address list \<Rightarrow> int \<Rightarrow> address \<Rightarrow> snapshot" where
  "updateSnapshotForPunish s signerMissing headerNumber coinbase =
     (let p1 = foldl punishMissing (Punished s) signerMissing;
          p2 = reducePunish signRewardCredit p1 coinbase;
          p3 = foldl (reducePunish autoRewardCredit) p2 (gkeys p2);
          p4 = (if IsTrantor (config s) (Some headerNumber) \<and>
                   \<not> IsTrantor (config s) (Some (headerNumber - 1)) then [] else p3)
      in s\<lparr>Punished := p4\<rparr>)"

text \<open>The count a signer has been punished by, zero when there is no entry.\<close>

definition credit_of :: "(address, u64) gomap \<Rightarrow> address \<Rightarrow> nat" where
  "credit_of p a = (case gget p a of None \<Rightarrow> 0 | Some c \<Rightarrow> unat c)"

definition bump :: "nat \<Rightarrow> nat" where
  "bump c = (if c \<le> 288000 then c + 100 else c)"

lemma u64_le_nat: "(c \<le> (k :: u64)) \<longleftrightarrow> unat c \<le> unat k"
  by (simp add: word_le_nat_alt)

lemma credit_of_Nil [simp]: "credit_of [] a = 0"
  by (simp add: credit_of_def)

lemma punishMissing_ginv: "ginv p \<Longrightarrow> ginv (punishMissing p a)"
  by (simp add: punishMissing_def split: option.split)

lemma reducePunish_ginv: "ginv p \<Longrightarrow> ginv (reducePunish k p a)"
  by (simp add: reducePunish_def split: option.split)

lemma credit_of_punishMissing:
  "credit_of (punishMissing p a) b = (if a = b then bump (credit_of p b) else credit_of p b)"
proof (cases "gget p a")
  case None
  then show ?thesis
    by (auto simp: punishMissing_def credit_of_def bump_def credit_defs)
next
  case (Some c)
  have "unat (c + 100) = unat c + 100" if "c \<le> 288000"
    using that by (simp add: word_le_nat_alt unat_word_ariths)
  with Some show ?thesis
    by (auto simp: punishMissing_def credit_of_def bump_def credit_defs u64_le_nat)
qed

lemma credit_of_foldl_punishMissing:
  "credit_of (foldl punishMissing p xs) b = (bump ^^ count_list xs b) (credit_of p b)"
  by (induction xs arbitrary: p) (simp_all add: credit_of_punishMissing funpow_swap1)

lemma credit_of_reducePunish:
  "credit_of (reducePunish k p a) b = (if a = b then credit_of p b - unat k else credit_of p b)"
proof (cases "gget p a")
  case (Some c)
  have "unat (c - k) = unat c - unat k" if "k < c"
    using that by (simp add: unat_sub less_imp_le)
  with Some show ?thesis
    by (auto simp: reducePunish_def credit_of_def word_less_nat_alt)
qed (auto simp: reducePunish_def credit_of_def)

lemma credit_of_foldl_reducePunish:
  "distinct ks \<Longrightarrow>
    credit_of (foldl (reducePunish k) p ks) b =
      (if b \<in> set ks then credit_of p b - unat k else credit_of p b)"
  by (induction ks arbitrary: p) (auto simp: credit_of_reducePunish)

lemma credit_of_not_key: "b \<notin> set (gkeys p) \<Longrightarrow> credit_of p b = 0"
  by (simp add: gkeys_set credit_of_def)

text \<open>
  The whole step on the punish counts: one increment per occurrence among the missing signers up to
  the cap, ten off for the signer of the block, one off for everybody.
\<close>

lemma updateSnapshotForPunish_credit:
  assumes "ginv (Punished s)"
  shows "credit_of (Punished (updateSnapshotForPunish s missing n cb)) a =
    (if IsTrantor (config s) (Some n) \<and> \<not> IsTrantor (config s) (Some (n - 1)) then 0
     else (bump ^^ count_list missing a) (credit_of (Punished s) a) - (if a = cb then 10 else 0) - 1)"
proof -
  let ?p1 = "foldl punishMissing (Punished s) missing"
  let ?p2 = "reducePunish signRewardCredit ?p1 cb"
  have "ginv ?p1" by (rule foldl_invariant) (auto simp: assms punishMissing_ginv)
  then have d: "distinct (gkeys ?p2)" by (simp add: distinct_gkeys reducePunish_ginv)
  have "credit_of (foldl (reducePunish autoRewardCredit) ?p2 (gkeys ?p2)) a = credit_of ?p2 a - 1"
    using credit_of_not_key[of a ?p2]
    by (simp add: credit_of_foldl_reducePunish[OF d] autoRewardCredit_def)
  also have "credit_of ?p2 a
      = (bump ^^ count_list missing a) (credit_of (Punished s) a) - (if a = cb then 10 else 0)"
    by (auto simp: credit_of_reducePunish credit_of_foldl_punishMissing signRewardCredit_def)
  finally show ?thesis
    by (simp add: updateSnapshotForPunish_def Let_def)
qed

lemma bump_bound: "c \<le> 288100 \<Longrightarrow> bump c \<le> 288100"
  by (simp add: bump_def)

lemma funpow_bump_bound: "c \<le> 288100 \<Longrightarrow> (bump ^^ k) c \<le> 288100"
  by (induction k) (auto simp: bump_bound)

lemma updateSnapshotForPunish_ginv:
  assumes "ginv (Punished s)"
  shows "ginv (Punished (updateSnapshotForPunish s missing n cb))"
proof -
  let ?p1 = "foldl punishMissing (Punished s) missing"
  let ?p2 = "reducePunish signRewardCredit ?p1 cb"
  have "ginv ?p1" by (rule foldl_invariant) (auto simp: assms punishMissing_ginv)
  then have "ginv ?p2" by (rule reducePunish_ginv)
  then have "ginv (foldl (reducePunish autoRewardCredit) ?p2 (gkeys ?p2))"
    by (rule foldl_invariant) (rule reducePunish_ginv)
  then show ?thesis by (simp add: updateSnapshotForPunish_def Let_def)
qed

lemma updateSnapshotForPunish_frame [frame_simps]:
  "Votes (updateSnapshotForPunish s m n cb) = Votes s"
  "Voters (updateSnapshotForPunish s m n cb) = Voters s"
  "Tally (updateSnapshotForPunish s m n cb) = Tally s"
  "config (updateSnapshotForPunish s m n cb) = config s"
  "Candidates (updateSnapshotForPunish s m n cb) = Candidates s"
  by (simp_all add: updateSnapshotForPunish_def Let_def)

subsection \<open>Whose turn it is\<close>

definition inturn :: "snapshot \<Rightarrow> address \<Rightarrow> u64 \<Rightarrow> bool res" where
  "inturn s signer headerTime =
     (let signersCount = length (Signers s)
      in if signersCount > 0
         then bind_res (u64_div (headerTime - LoopStartTime s) (Period (config s)))
           (\<lambda>slot. bind_res (u64_mod slot (of_nat signersCount))
             (\<lambda>loopIndex. bind_res (go_nth (Signers s) (uint loopIndex))
               (\<lambda>x. Inr (x = signer))))
         else Inr False)"

text \<open>The slot of a time in the loop, as a number.\<close>

definition slot_of :: "snapshot \<Rightarrow> u64 \<Rightarrow> nat" where
  "slot_of s t = unat (t - LoopStartTime s) div unat (Period (config s))"

lemma inturn_eq:
  assumes "Period (config s) \<noteq> 0" "Signers s \<noteq> []" "length (Signers s) < 2 ^ 64"
  shows "inturn s a t = Inr (Signers s ! (slot_of s t mod length (Signers s)) = a)"
proof -
  let ?n = "length (Signers s)"
  have n: "unat (of_nat ?n :: u64) = ?n"
    by (rule unat_of_nat_u64[OF assms(3)])
  then have nz: "(of_nat ?n :: u64) \<noteq> 0" using assms(2) by (metis length_0_conv unat_0)
  let ?i = "(t - LoopStartTime s) div Period (config s) mod of_nat ?n"
  have i: "unat ?i = slot_of s t mod ?n"
    by (simp only: unat_mod unat_div n slot_of_def)
  have "go_nth (Signers s) (int (unat ?i)) = Inr (Signers s ! (slot_of s t mod ?n))"
    unfolding i using assms(2) by (intro go_nth_in_range) simp
  then show ?thesis
    using assms(1,2) nz by (simp add: inturn_def u64_div_def u64_mod_def)
qed

subsection \<open>Confirmations\<close>

definition addConfirmation ::
  "(u64, address list) gomap \<Rightarrow> confirmation \<Rightarrow> (u64, address list) gomap" where
  "addConfirmation m c =
     (let n = Uint64 (BlockNumber c);
          m1 = (if ghas m n then m else gput m n []);
          confirmers = (case gget m1 n of Some xs \<Rightarrow> xs | None \<Rightarrow> [])
      in if Signer c \<in> set confirmers then m1 else gput m1 n (confirmers @ [Signer c]))"

definition updateSnapshotByConfirmations :: "snapshot \<Rightarrow> confirmation list \<Rightarrow> snapshot" where
  "updateSnapshotByConfirmations s confirmations =
     s\<lparr>Confirmations := foldl addConfirmation (Confirmations s) confirmations\<rparr>"

definition confirmers_of :: "(u64, address list) gomap \<Rightarrow> u64 \<Rightarrow> address list" where
  "confirmers_of m n = (case gget m n of Some xs \<Rightarrow> xs | None \<Rightarrow> [])"

lemma confirmers_of_addConfirmation:
  "confirmers_of (addConfirmation m c) n =
    (if n = Uint64 (BlockNumber c) \<and> Signer c \<notin> set (confirmers_of m n)
     then confirmers_of m n @ [Signer c] else confirmers_of m n)"
  by (auto simp: addConfirmation_def confirmers_of_def Let_def split: option.splits)

lemma confirmers_of_foldl:
  "set (confirmers_of (foldl addConfirmation m cs) n) =
    set (confirmers_of m n) \<union> {Signer c |c. c \<in> set cs \<and> Uint64 (BlockNumber c) = n}"
  by (induction cs arbitrary: m) (auto simp: confirmers_of_addConfirmation split: if_splits)

lemma distinct_confirmers_of_foldl:
  "distinct (confirmers_of m n) \<Longrightarrow> distinct (confirmers_of (foldl addConfirmation m cs) n)"
  by (rule foldl_invariant[where I = "\<lambda>m. distinct (confirmers_of m n)"])
    (auto simp: confirmers_of_addConfirmation)

lemma updateSnapshotByConfirmations_frame [frame_simps]:
  "Votes (updateSnapshotByConfirmations s cs) = Votes s"
  "Voters (updateSnapshotByConfirmations s cs) = Voters s"
  "Tally (updateSnapshotByConfirmations s cs) = Tally s"
  "config (updateSnapshotByConfirmations s cs) = config s"
  by (simp_all add: updateSnapshotByConfirmations_def)

text \<open>
  The loop of \<open>getLastConfirmedBlockNumber\<close> counts down from \<open>s.Number\<close>; all of it is \<open>uint64\<close>
  arithmetic.
\<close>

definition isConfirmed :: "snapshot \<Rightarrow> (u64, address list) gomap \<Rightarrow> u64 \<Rightarrow> bool" where
  "isConfirmed s m i =
     (case gget m i of
        Some confirmers \<Rightarrow> int (length confirmers) > go_int (MaxSignerCount (config s) * 2 div 3)
      | None \<Rightarrow> False)"

function lastConfirmedLoop :: "(u64 \<Rightarrow> bool) \<Rightarrow> u64 \<Rightarrow> u64 \<Rightarrow> u64" where
  "lastConfirmedLoop P lim i =
     (if i > lim then (if P i then i else lastConfirmedLoop P lim (i - 1)) else i)"
  by pat_completeness auto

termination
  by (relation "measure (\<lambda>(P, lim, i). unat i)") (auto intro: u64_pred_less)

declare lastConfirmedLoop.simps [simp del]

definition getLastConfirmedBlockNumber :: "snapshot \<Rightarrow> confirmation list \<Rightarrow> int" where
  "getLastConfirmedBlockNumber s confirmations =
     (let cpyConfirmations = foldl addConfirmation (Confirmations s) confirmations;
          lim = Number s - MaxSignerCount (config s) * 2 div 3 + 1
      in sint (lastConfirmedLoop (isConfirmed s cpyConfirmations) lim (Number s)))"

lemma lastConfirmedLoop_spec:
  "let r = lastConfirmedLoop P lim i in
     r \<le> i \<and> (lim < r \<longrightarrow> P r) \<and> (lim \<le> i \<longrightarrow> lim \<le> r) \<and> (i \<le> lim \<longrightarrow> r = i) \<and>
     (\<forall>j. r < j \<and> j \<le> i \<longrightarrow> \<not> P j)"
proof (induction P lim i rule: lastConfirmedLoop.induct)
  case (1 P lim i)
  show ?case
  proof (cases "lim < i \<and> \<not> P i")
    case True
    then have "i \<noteq> 0" by auto
    have le: "j \<le> i - 1 \<longleftrightarrow> j < i" for j
      using unat_minus_one[OF \<open>i \<noteq> 0\<close>] unat_gt_0[of i] \<open>i \<noteq> 0\<close>
      by (auto simp: word_le_nat_alt word_less_nat_alt)
    have eq: "lastConfirmedLoop P lim i = lastConfirmedLoop P lim (i - 1)"
      using True by (simp add: lastConfirmedLoop.simps[of P lim i])
    have IH: "let r = lastConfirmedLoop P lim (i - 1) in
        r \<le> i - 1 \<and> (lim < r \<longrightarrow> P r) \<and> (lim \<le> i - 1 \<longrightarrow> lim \<le> r) \<and>
        (i - 1 \<le> lim \<longrightarrow> r = i - 1) \<and> (\<forall>j. r < j \<and> j \<le> i - 1 \<longrightarrow> \<not> P j)"
      using 1 True by simp
    then show ?thesis
      unfolding eq Let_def le using True by (auto simp: le order.strict_iff_order)
  next
    case False
    then show ?thesis
      by (auto simp: lastConfirmedLoop.simps[of P lim i] Let_def)
  qed
qed

subsection \<open>Missing signers\<close>

fun missingLoop :: "address \<Rightarrow> address \<Rightarrow> bool \<Rightarrow> address list \<Rightarrow> address list" where
  "missingLoop lastSigner currentSigner rec [] = []"
| "missingLoop lastSigner currentSigner rec (signer # q) =
     (if signer = lastSigner then missingLoop lastSigner currentSigner True q
      else if signer = currentSigner then []
      else if rec then signer # missingLoop lastSigner currentSigner rec q
      else missingLoop lastSigner currentSigner rec q)"

definition getSignerMissing :: "address \<Rightarrow> address \<Rightarrow> header_extra \<Rightarrow> bool \<Rightarrow> address list" where
  "getSignerMissing lastSigner currentSigner extra newLoop =
     (if newLoop then takeWhile (\<lambda>x. x \<noteq> lastSigner) (rev (SignerQueue extra))
      else missingLoop lastSigner currentSigner False (SignerQueue extra))"

fun missingLoopTrantor :: "address \<Rightarrow> address \<Rightarrow> bool \<Rightarrow> address list \<Rightarrow> address list" where
  "missingLoopTrantor lastSigner currentSigner rec [] = []"
| "missingLoopTrantor lastSigner currentSigner rec (signer # q) =
     (if \<not> rec \<and> signer = lastSigner then missingLoopTrantor lastSigner currentSigner True q
      else if rec \<and> signer = currentSigner then []
      else if rec then signer # missingLoopTrantor lastSigner currentSigner rec q
      else missingLoopTrantor lastSigner currentSigner rec q)"

text \<open>
  The rotation by the grandparent's queue: its first index \<open>i\<close> with the last signer is written into
  the doubled queue, which is then cut at \<open>i\<close>.
\<close>

definition rotateQueue :: "address \<Rightarrow> address list \<Rightarrow> address list \<Rightarrow> address list res" where
  "rotateQueue lastSigner gp q =
     (let i = length (takeWhile (\<lambda>v. v \<noteq> lastSigner) gp)
      in if i < length gp
         then (if i < length q then Inr (drop i (q[i := lastSigner])) else Inl PanicIndex)
         else Inr q)"

definition getSignerMissingTrantor ::
  "address \<Rightarrow> address \<Rightarrow> header_extra \<Rightarrow> header_extra option \<Rightarrow> address list res" where
  "getSignerMissingTrantor lastSigner currentSigner extra gpExtra =
     (let twice = SignerQueue extra @ SignerQueue extra in
      bind_res (case gpExtra of None \<Rightarrow> Inr twice | Some gp \<Rightarrow> rotateQueue lastSigner (SignerQueue gp) twice)
        (\<lambda>signerQueue. Inr (missingLoopTrantor lastSigner currentSigner False signerQueue)))"

lemma missingLoop_rec:
  "l \<notin> set ys \<Longrightarrow> c \<notin> set ys \<Longrightarrow> c \<noteq> l \<Longrightarrow> missingLoop l c True (ys @ c # zs) = ys"
  by (induction ys) auto

lemma missingLoop_skip:
  "l \<notin> set xs \<Longrightarrow> c \<notin> set xs \<Longrightarrow> missingLoop l c False (xs @ zs) = missingLoop l c False zs"
  by (induction xs) auto

lemma missingLoop_between:
  assumes "distinct (xs @ l # ys @ c # zs)"
  shows "missingLoop l c False (xs @ l # ys @ c # zs) = ys"
  using assms by (auto simp: missingLoop_skip missingLoop_rec)

lemma missingLoopTrantor_skip:
  "l \<notin> set xs \<Longrightarrow> missingLoopTrantor l c False (xs @ l # zs) = missingLoopTrantor l c True zs"
  by (induction xs) auto

lemma missingLoopTrantor_rec:
  "m < length zs \<Longrightarrow> zs ! m = c \<Longrightarrow> c \<notin> set (take m zs) \<Longrightarrow>
    missingLoopTrantor l c True zs = take m zs"
proof (induction zs arbitrary: m)
  case (Cons z zs)
  then show ?case by (cases m) auto
qed simp

text \<open>
  With a queue without repetitions, the missing signers are those strictly between the last signer
  and the current one, going round the queue.
\<close>

lemma nth_double_queue: "k < 2 * length q \<Longrightarrow> (q @ q) ! k = q ! (k mod length q)"
  by (cases "k < length q") (auto simp: nth_append mod_if)

lemma missingLoopTrantor_cyclic:
  assumes q: "distinct q" and i: "i < length q" and j: "j < length q"
  defines "n \<equiv> length q" and "m \<equiv> (j + length q - Suc i) mod length q"
  shows "missingLoopTrantor (q ! i) (q ! j) False (q @ q) =
    map (\<lambda>k. q ! ((Suc i + k) mod n)) [0..<m]"
proof -
  define zs where "zs = drop (Suc i) (q @ q)"
  have m: "m < n \<and> (Suc i + m) mod n = j"
  proof (cases "i < j")
    case True
    then have eq: "j + length q - Suc i = (j - Suc i) + length q" by simp
    have "m = (j - Suc i) mod length q" unfolding m_def eq by (rule mod_add_self2)
    also have "\<dots> = j - Suc i" using j by (intro mod_less) linarith
    finally show ?thesis using True j by (simp add: n_def)
  next
    case False
    have "m = j + length q - Suc i"
      unfolding m_def using False i by (intro mod_less) linarith
    moreover from this have "Suc i + m = j + length q" using i by linarith
    ultimately show ?thesis using False i j by (simp add: n_def)
  qed
  have at: "zs ! k = q ! ((Suc i + k) mod n)" if "k < n" for k
  proof -
    have "zs ! k = (q @ q) ! (Suc i + k)" unfolding zs_def by (rule nth_drop) (use i in simp)
    also have "\<dots> = q ! ((Suc i + k) mod n)"
      unfolding n_def by (rule nth_double_queue) (use i that in \<open>simp add: n_def\<close>)
    finally show ?thesis .
  qed
  have len: "m < length zs" using conjunct1[OF m] i by (simp add: n_def zs_def)
  have take: "take m zs = map (\<lambda>k. q ! ((Suc i + k) mod n)) [0..<m]"
    using m len by (intro nth_equalityI) (auto simp: at)
  have neq: "(Suc i + k) mod n \<noteq> j" if "k < m" for k
  proof
    assume "(Suc i + k) mod n = j"
    then have "(Suc i + m) mod n = (Suc i + k) mod n" using m by simp
    then have "n dvd (Suc i + m) - (Suc i + k)"
      using that by (subst (asm) mod_eq_dvd_iff_nat) auto
    then have "n dvd m - k" by simp
    then show False using that m by (auto dest!: dvd_imp_le)
  qed
  have "q ! j \<noteq> q ! ((Suc i + k) mod n)" if "k < m" for k
  proof -
    have "(Suc i + k) mod n < length q"
      unfolding n_def using i by (intro mod_less_divisor) linarith
    from nth_eq_iff_index_eq[OF q j this] show ?thesis
      using neq[OF that] by auto
  qed
  then have "q ! j \<notin> set (take m zs)"
    unfolding take by (simp add: image_iff)
  then have rec: "missingLoopTrantor (q ! i) (q ! j) True zs = take m zs"
    using at[of m] m by (intro missingLoopTrantor_rec[OF len]) simp_all
  have split: "q @ q = take i q @ q ! i # zs"
    using id_take_nth_drop[of i "q @ q"] i unfolding zs_def by (simp add: nth_append)
  have "q ! i \<notin> set (take i q)"
    using q i by (auto simp: in_set_conv_nth nth_eq_iff_index_eq)
  from missingLoopTrantor_skip[OF this, of "q ! j" zs] show ?thesis
    by (simp only: split [symmetric] rec take)
qed

lemma takeWhile_nth_distinct:
  "distinct q \<Longrightarrow> i < length q \<Longrightarrow> length (takeWhile (\<lambda>v. v \<noteq> q ! i) q) = i"
proof (induction q arbitrary: i)
  case (Cons x q)
  then show ?case by (cases i) (auto simp: nth_mem)
qed simp

lemma rotateQueue_same:
  assumes "distinct q" "i < length q"
  shows "rotateQueue (q ! i) q (q @ q) = Inr (drop i (q @ q))"
proof -
  have "(q @ q)[i := q ! i] = q @ q" using assms by (simp add: list_update_append)
  then show ?thesis
    unfolding rotateQueue_def takeWhile_nth_distinct[OF assms] using assms(2) by simp
qed

lemma missingLoopTrantor_drop:
  assumes "distinct q" "i < length q"
  shows "missingLoopTrantor (q ! i) c False (drop i (q @ q)) = missingLoopTrantor (q ! i) c False (q @ q)"
proof -
  have split: "q @ q = take i q @ q ! i # drop (Suc i) (q @ q)"
    using id_take_nth_drop[of i "q @ q"] assms(2) by (simp add: nth_append)
  have "q ! i \<notin> set (take i q)"
    using assms by (auto simp: in_set_conv_nth nth_eq_iff_index_eq)
  note skip = missingLoopTrantor_skip[OF this, of c "drop (Suc i) (q @ q)", folded split]
  have "drop i (q @ q) = q ! i # drop (Suc i) (q @ q)"
    using Cons_nth_drop_Suc[of i "q @ q"] assms(2) by (simp add: nth_append)
  with skip show ?thesis by simp
qed

subsection \<open>Properties\<close>

text \<open>
  C16.  Punishment: \<open>updateSnapshotForPunish\<close> adds 100 for every time a signer is listed as missing
  (up to the cap), takes 10 off for the signer of the block and 1 off for everybody, never below
  zero, and clears all counts at the Trantor fork; a count never exceeds 288100.
\<close>

theorem punish_spec:
  assumes "ginv (Punished s)"
  shows "credit_of (Punished (updateSnapshotForPunish s missing n cb)) a =
      (if IsTrantor (config s) (Some n) \<and> \<not> IsTrantor (config s) (Some (n - 1)) then 0
       else (bump ^^ count_list missing a) (credit_of (Punished s) a) - (if a = cb then 10 else 0) - 1)
    \<and> (credit_of (Punished s) a \<le> 288100 \<longrightarrow>
       credit_of (Punished (updateSnapshotForPunish s missing n cb)) a \<le> 288100)"
  unfolding updateSnapshotForPunish_credit[OF assms]
  using funpow_bump_bound[of "credit_of (Punished s) a" "count_list missing a"] by auto

theorem punish_spec_witness:
  "credit_of (Punished (updateSnapshotForPunish (sample_snapshot\<lparr>Punished := [(5, 50)]\<rparr>) [5, 6] 10 5)) 5 = 139"
  using punish_spec[of "sample_snapshot\<lparr>Punished := [(5, 50)]\<rparr>" "[5, 6]" 10 5 5]
  by (simp add: sample_defs IsTrantor_def isForked_def credit_of_def gget_def bump_def ginv_def)



text \<open>
  C14.  Every signer gets its slot: the signer at place \<open>k\<close> of the queue is in turn \<open>k\<close> periods after
  the loop has started, in every round of the loop.
\<close>

theorem inturn_live:
  assumes "Period (config s) \<noteq> 0" "length (Signers s) < 2 ^ 64" "k < length (Signers s)"
    and "int (k + r * length (Signers s)) * uint (Period (config s)) < 2 ^ 64"
  shows "inturn s (Signers s ! k)
    (LoopStartTime s + of_nat (k + r * length (Signers s)) * Period (config s)) = Inr True"
proof -
  let ?n = "length (Signers s)" and ?p = "unat (Period (config s))"
  let ?m = "k + r * ?n"
  have p: "0 < ?p" using assms(1) by (simp add: unat_gt_0)
  have "int (?m * ?p) < 2 ^ 64" using assms(4) by simp
  then have lt: "?m * ?p < 2 ^ 64" by (metis of_nat_less_iff of_nat_numeral of_nat_power)
  have "of_nat ?m * Period (config s) = of_nat (?m * ?p)" by simp
  then have "unat (of_nat ?m * Period (config s)) = ?m * ?p"
    by (simp only: unat_of_nat_u64[OF lt])
  then have "slot_of s (LoopStartTime s + of_nat ?m * Period (config s)) = ?m"
    using p by (simp add: slot_of_def del: of_nat_add of_nat_mult)
  then have "slot_of s (LoopStartTime s + of_nat ?m * Period (config s)) mod ?n = k"
    using assms(3) by simp
  moreover have "Signers s \<noteq> []" using assms(3) by auto
  ultimately show ?thesis using inturn_eq[OF assms(1) _ assms(2)] by simp
qed

theorem inturn_live_witness:
  "inturn (sample_snapshot\<lparr>Signers := [10, 11]\<rparr>) 11 (1000 + 3 * 3) = Inr True"
  using inturn_live[of "sample_snapshot\<lparr>Signers := [10, 11]\<rparr>" 1 1]
  by (simp add: sample_defs)

text \<open>
  C17.  The last confirmed block: it is not above the head; every later block up to the head lacks a
  quorum, and the block itself is confirmed by more than two thirds of the maximal signer count,
  counting different signers only, unless the scan has reached its lower end.
\<close>

theorem last_confirmed_spec:
  assumes "\<And>j. distinct (confirmers_of (Confirmations s) j)"
  shows "\<exists>r. getLastConfirmedBlockNumber s cs = sint r \<and> r \<le> Number s \<and>
    (Number s - MaxSignerCount (config s) * 2 div 3 + 1 < r \<longrightarrow>
       int (card (set (confirmers_of (Confirmations (updateSnapshotByConfirmations s cs)) r)))
         > go_int (MaxSignerCount (config s) * 2 div 3)) \<and>
    (\<forall>j. r < j \<and> j \<le> Number s \<longrightarrow>
       \<not> isConfirmed s (Confirmations (updateSnapshotByConfirmations s cs)) j)"
proof -
  let ?m = "foldl addConfirmation (Confirmations s) cs"
  let ?lim = "Number s - MaxSignerCount (config s) * 2 div 3 + 1"
  let ?r = "lastConfirmedLoop (isConfirmed s ?m) ?lim (Number s)"
  have m: "Confirmations (updateSnapshotByConfirmations s cs) = ?m"
    by (simp add: updateSnapshotByConfirmations_def)
  have quorum: "int (card (set (confirmers_of ?m j))) > go_int (MaxSignerCount (config s) * 2 div 3)"
    if "isConfirmed s ?m j" for j
    using that distinct_card[OF distinct_confirmers_of_foldl[OF assms, of cs j]]
    by (simp add: isConfirmed_def confirmers_of_def split: option.splits)
  have "getLastConfirmedBlockNumber s cs = sint ?r"
    by (simp add: getLastConfirmedBlockNumber_def Let_def)
  then show ?thesis
    unfolding m using lastConfirmedLoop_spec[of "isConfirmed s ?m" ?lim "Number s"] quorum
    unfolding Let_def by blast
qed

theorem last_confirmed_spec_witness:
  "\<exists>r. getLastConfirmedBlockNumber (sample_snapshot\<lparr>Number := 5\<rparr>) [\<lparr>Signer = 1, BlockNumber = 5\<rparr>] = sint r
     \<and> r \<le> (5 :: u64)"
proof -
  have "distinct (confirmers_of (Confirmations (sample_snapshot\<lparr>Number := 5\<rparr>)) j)" for j
    by (simp add: sample_defs confirmers_of_def)
  from last_confirmed_spec[OF this, of "[\<lparr>Signer = 1, BlockNumber = 5\<rparr>]"] show ?thesis
    by - (elim exE conjE, intro exI conjI, assumption, simp)
qed

text \<open>
  Early blocks: while the head is more than one block below two thirds of the maximal signer
  count, the lower end of the scan underflows \<open>uint64\<close>, the loop does not run, and the head itself
  is reported as confirmed, whatever confirmations there are.
\<close>

lemma last_confirmed_early:
  assumes "uint (Number s) + 1 < uint (MaxSignerCount (config s) * 2 div 3)"
  shows "getLastConfirmedBlockNumber s cs = sint (Number s)"
proof -
  let ?q = "MaxSignerCount (config s) * 2 div 3"
  have q: "uint (?q - 1) = uint ?q - 1"
    using order.strict_trans1[OF _ assms, of 1] unfolding uint_sub_if' by simp
  have "uint (Number s - (?q - 1)) = uint (Number s) - uint (?q - 1) + 2 ^ 64"
    using assms unfolding uint_sub_if' q by simp
  moreover have "Number s - (?q - 1) = Number s - ?q + 1" by simp
  ultimately have "uint (Number s - ?q + 1) = uint (Number s) + 1 - uint ?q + 2 ^ 64"
    unfolding q by simp
  then have "Number s \<le> Number s - ?q + 1"
    unfolding word_le_def using uint_bounded[of ?q] by simp
  then show ?thesis
    using lastConfirmedLoop_spec[of _ "Number s - ?q + 1" "Number s"]
    by (simp add: getLastConfirmedBlockNumber_def Let_def)
qed

lemma last_confirmed_early_witness:
  "getLastConfirmedBlockNumber
     (sample_snapshot\<lparr>Number := 3, config := sample_config\<lparr>MaxSignerCount := 21\<rparr>\<rparr>) [] = 3"
  using last_confirmed_early[of "sample_snapshot\<lparr>Number := 3, config := sample_config\<lparr>MaxSignerCount := 21\<rparr>\<rparr>" "[]"]
  by (simp add: sample_defs)



end
