(* ===== verification/Alien_Queue.thy ===== *)
theory Alien_Queue
  imports Alien_Types
begin

text \<open>
  The signer queue (\<open>consensus/alien/signer_queue.go\<close>): candidates are weighted by stake and
  credit, sorted, the best are given the hashes of recent blocks, and the queue is the selection
  sorted by these hashes.  Also \<open>removeExtraCandidate\<close> of \<open>snapshot.go\<close>, which uses the same sort.
\<close>

record tally_item =
  addr :: address
  stake :: int

record signer_item =
  saddr :: address
  shash :: hash

definition TallySlice_Less :: "tally_item \<Rightarrow> tally_item \<Rightarrow> bool" where
  "TallySlice_Less x y =
     (if stake x > stake y then True else if stake x < stake y then False else addr x > addr y)"

definition SignerSlice_Less :: "signer_item \<Rightarrow> signer_item \<Rightarrow> bool" where
  "SignerSlice_Less x y = (shash x > shash y)"

interpretation tally_order: sort_order TallySlice_Less
  by unfold_locales (auto simp: TallySlice_Less_def split: if_splits)

interpretation signer_order: sort_order SignerSlice_Less
  by unfold_locales (auto simp: SignerSlice_Less_def)

subsection \<open>Sorting by hash\<close>

text \<open>
  Two signers may be given the same hash, and \<open>sort.Sort\<close> leaves open how it orders them.  The sort
  of a \<open>SignerSlice\<close> is therefore a parameter \<open>srt\<close> of the operations, and what they rely on is its
  contract \<open>hash_sort\<close>; \<open>go_sort\<close> is one such sort.
\<close>

type_synonym signer_sorter = "signer_item list \<Rightarrow> signer_item list"

locale hash_sort =
  fixes srt :: signer_sorter
  assumes mset_srt: "mset (srt xs) = mset xs"
    and ordered_srt: "signer_order.ordered (srt xs)"
begin

lemma set_srt: "set (srt xs) = set xs"
  by (metis mset_srt set_mset_mset)

lemma length_srt: "length (srt xs) = length xs"
  by (metis mset_srt size_mset)

lemma distinct_map_srt: "distinct (map f (srt xs)) \<longleftrightarrow> distinct (map f xs)"
  by (metis mset_srt mset_map mset_eq_imp_distinct_iff)

end

interpretation go_hash_sort: hash_sort "go_sort SignerSlice_Less"
  by unfold_locales (simp, rule signer_order.ordered_go_sort)

subsection \<open>Operations\<close>

definition creditWeight :: "u64 \<Rightarrow> u64" where
  "creditWeight p =
     (if p > defaultFullCredit - minCalSignerQueueCredit then minCalSignerQueueCredit
      else defaultFullCredit - p)"

definition buildTallySlice :: "snapshot \<Rightarrow> tally_item list" where
  "buildTallySlice s =
     foldl (\<lambda>acc (address, st).
        if \<not> candidateNeedPD \<or> isCandidate s address
        then (case gget (Punished s) address of
                Some p \<Rightarrow> acc @ [\<lparr>addr = address, stake = st * sint (creditWeight p)\<rparr>]
              | None \<Rightarrow> acc @ [\<lparr>addr = address, stake = st * uint defaultFullCredit\<rparr>])
        else acc)
      [] (Tally s)"

fun assignHashes :: "snapshot \<Rightarrow> int \<Rightarrow> address list \<Rightarrow> signer_item list res" where
  "assignHashes s i [] = Inr []"
| "assignHashes s i (a # as) =
     bind_res (go_nth (HistoryHash s) (int (length (HistoryHash s)) - 1 - i))
       (\<lambda>h. bind_res (assignHashes s (i + 1) as)
         (\<lambda>rest. Inr (\<lparr>saddr = a, shash = h\<rparr> # rest)))"

text \<open>One level of the official queue: the candidates ranked \<open>lo\<close> to \<open>hi\<close>, by hash, the best \<open>k\<close>.\<close>

definition pickLevel ::
  "signer_sorter \<Rightarrow> snapshot \<Rightarrow> tally_item list \<Rightarrow> int \<Rightarrow> int \<Rightarrow> int \<Rightarrow> signer_item list res" where
  "pickLevel srt s tallySlice lo hi k =
     bind_res (go_slice tallySlice lo hi)
       (\<lambda>level. bind_res (assignHashes s 0 (map addr level))
         (\<lambda>items. go_slice (srt items) 0 k))"

definition selectSigners :: "signer_sorter \<Rightarrow> snapshot \<Rightarrow> tally_item list \<Rightarrow> signer_item list res" where
  "selectSigners srt s tallySlice =
     (let len = int (length tallySlice);
          queueLength = (if go_int (MaxSignerCount (config s)) > len then len
                         else go_int (MaxSignerCount (config s)))
      in if queueLength = defaultOfficialMaxSignerCount \<and> len > defaultOfficialThirdLevelCount
         then
           bind_res (go_slice tallySlice 0 defaultOfficialFirstLevelCount)
             (\<lambda>first. bind_res (assignHashes s 0 (map addr first))
           (\<lambda>l1. bind_res (pickLevel srt s tallySlice
                    defaultOfficialFirstLevelCount defaultOfficialSecondLevelCount 6)
           (\<lambda>l2. bind_res (pickLevel srt s tallySlice
                    defaultOfficialSecondLevelCount defaultOfficialThirdLevelCount 4)
           (\<lambda>l3.
             let maxValidCount = (if defaultOfficialMaxValidCount > len then len
                                  else defaultOfficialMaxValidCount)
             in bind_res (pickLevel srt s tallySlice defaultOfficialThirdLevelCount maxValidCount 1)
           (\<lambda>l4. Inr (l1 @ l2 @ l3 @ l4))))))
         else
           bind_res (go_slice tallySlice 0 queueLength)
             (\<lambda>top. assignHashes s 0 (map addr top)))"

definition createSignerQueue :: "signer_sorter \<Rightarrow> snapshot \<Rightarrow> address list res" where
  "createSignerQueue srt s =
     bind_res (u64_mod (Number s + 1) (MaxSignerCount (config s)))
       (\<lambda>r. if r \<noteq> 0 then Inl errCreateSignerQueueNotAllowed
        else bind_res (go_nth (HistoryHash s) (int (length (HistoryHash s)) - 1))
       (\<lambda>lastHash. if Hash s \<noteq> lastHash then Inl errCreateSignerQueueNotAllowed
        else bind_res (u64_mod (Number s + 1) (MaxSignerCount (config s) * LCRS s))
       (\<lambda>r. bind_res
          (if r = 0 then selectSigners srt s (go_sort TallySlice_Less (buildTallySlice s))
           else assignHashes s 0 (Signers s))
       (\<lambda>signerSlice.
          let sorted = srt signerSlice
          in if sorted = [] then Inl errSignerQueueEmpty
             else Inr (map (\<lambda>i. saddr (sorted ! (i mod length sorted)))
                        [0..<nat (go_int (MaxSignerCount (config s)))])))))"

definition verifySignerQueue :: "signer_sorter \<Rightarrow> snapshot \<Rightarrow> address list \<Rightarrow> unit res" where
  "verifySignerQueue srt s signerQueue =
     (if int (length signerQueue) > go_int (MaxSignerCount (config s)) then Inl errInvalidSignerQueue
      else bind_res (createSignerQueue srt s)
        (\<lambda>sq. if length sq = 0 \<or> length sq \<noteq> length signerQueue then Inl errInvalidSignerQueue
         else foldM (\<lambda>_ i. if signerQueue ! i \<noteq> sq ! i then Inl errInvalidSignerQueue else Inr ())
           () [0..<length signerQueue]))"

definition dropCandidate :: "snapshot \<Rightarrow> tally_item \<Rightarrow> snapshot" where
  "dropCandidate s item =
     s\<lparr>SCCoinbase := (if ghas (SCCoinbase s) (addr item) then gdel (SCCoinbase s) (addr item)
                      else SCCoinbase s),
       Candidates := gdel (Candidates s) (addr item)\<rparr>"

definition removeExtraCandidate :: "snapshot \<Rightarrow> snapshot" where
  "removeExtraCandidate s =
     (let tallySlice = go_sort TallySlice_Less (buildTallySlice s)
      in if length tallySlice > candidateMaxLen
         then foldl dropCandidate s (drop candidateMaxLen tallySlice) else s)"

subsection \<open>Weights\<close>

definition weight_of :: "snapshot \<Rightarrow> address \<Rightarrow> int" where
  "weight_of s a =
     (case gget (Punished s) a of
        Some p \<Rightarrow> uint (creditWeight p) | None \<Rightarrow> 28800)"

text \<open>A punished signer keeps between 10000 and 28800 parts of its weight.\<close>

lemma creditWeight_bounds: "10000 \<le> uint (creditWeight p) \<and> uint (creditWeight p) \<le> 28800"
proof (cases "p > 18800")
  case True
  then show ?thesis by (simp add: creditWeight_def credit_defs)
next
  case False
  then have "p \<le> 18800" by simp
  then have "uint p \<le> 18800" by (simp add: word_le_def)
  moreover have "uint (28800 - p) = 28800 - uint p"
    using calculation by (subst uint_sub_if') (simp add: word_le_def)
  ultimately show ?thesis using False by (simp add: creditWeight_def credit_defs)
qed

lemma weight_of_bounds: "10000 \<le> weight_of s a" "weight_of s a \<le> 28800"
  using creditWeight_bounds by (simp_all add: weight_of_def split: option.split)

lemma sint_creditWeight: "sint (creditWeight p) = uint (creditWeight p)"
  using creditWeight_bounds[of p] by (intro sint_eq_uint_small) simp

lemma buildTallySlice_eq:
  "buildTallySlice s =
    map (\<lambda>(a, st). \<lparr>addr = a, stake = st * weight_of s a\<rparr>)
      (filter (\<lambda>(a, st). \<not> candidateNeedPD \<or> isCandidate s a) (Tally s))"
proof -
  let ?P = "\<lambda>(a, st). \<not> candidateNeedPD \<or> isCandidate s a"
  let ?f = "\<lambda>(a, st). \<lparr>addr = a, stake = st * weight_of s a\<rparr>"
  have "buildTallySlice s = foldl (\<lambda>acc e. if ?P e then acc @ [?f e] else acc) [] (Tally s)"
    unfolding buildTallySlice_def
    by (rule arg_cong[where f = "\<lambda>g. foldl g [] (Tally s)"])
      (auto simp: fun_eq_iff weight_of_def sint_creditWeight defaultFullCredit_def split: option.split)
  then show ?thesis by (simp add: foldl_append_if)
qed

lemma distinct_buildTallySlice: "ginv (Tally s) \<Longrightarrow> distinct (map addr (buildTallySlice s))"
  by (simp add: buildTallySlice_eq comp_def case_prod_unfold ginv_def distinct_map_filter)

lemma buildTallySlice_addr: "set (map addr (buildTallySlice s)) \<subseteq> set (gkeys (Tally s))"
  by (auto simp: buildTallySlice_eq gkeys_def intro: rev_image_eqI)

text \<open>Candidates with distinct addresses are always ordered, so the sorted slice is determined.\<close>

lemma TallySlice_total: "addr x \<noteq> addr y \<Longrightarrow> TallySlice_Less x y \<or> TallySlice_Less y x"
  by (auto simp: TallySlice_Less_def)

lemma distinct_items_total:
  assumes "distinct (map addr xs)" "x \<in> set xs" "y \<in> set xs" "x \<noteq> y"
  shows "TallySlice_Less x y \<or> TallySlice_Less y x"
  using assms by (intro TallySlice_total) (auto simp: distinct_map inj_on_def)

lemma go_sort_buildTallySlice_permute:
  assumes "ginv (Tally s)" "mset (Tally s') = mset (Tally s)"
    "Punished s' = Punished s" "Candidates s' = Candidates s"
  shows "go_sort TallySlice_Less (buildTallySlice s') = go_sort TallySlice_Less (buildTallySlice s)"
proof -
  have eq: "weight_of s' = weight_of s" "isCandidate s' = isCandidate s"
    using assms(3,4) by (simp_all add: fun_eq_iff weight_of_def isCandidate_def)
  have "mset (buildTallySlice s') = mset (buildTallySlice s)"
    using assms(2) by (simp add: buildTallySlice_eq eq mset_map mset_filter)
  then show ?thesis
    using distinct_items_total[OF distinct_buildTallySlice[OF assms(1)]]
    by (intro tally_order.go_sort_permute[symmetric]) simp_all
qed

subsection \<open>Selection\<close>

lemma assignHashes_addr: "assignHashes s i as = Inr items \<Longrightarrow> map saddr items = as"
  by (induction s i as arbitrary: items rule: assignHashes.induct) (auto simp: res_simps)

lemma assignHashes_total:
  assumes "0 \<le> i" "i + int (length as) \<le> int (length (HistoryHash s))"
  shows "\<exists>items. assignHashes s i as = Inr items"
  using assms
proof (induction s i as rule: assignHashes.induct)
  case (2 s i a as)
  have "go_nth (HistoryHash s) (int (length (HistoryHash s)) - 1 - i) =
      Inr (HistoryHash s ! nat (int (length (HistoryHash s)) - 1 - i))"
    using 2 by (simp add: go_nth_def)
  with 2 show ?case by auto
qed simp

lemma assignHashes_cong:
  assumes "HistoryHash s' = HistoryHash s"
  shows "assignHashes s' = assignHashes s"
proof (intro ext)
  fix i as
  show "assignHashes s' i as = assignHashes s i as"
    by (induction as arbitrary: i) (simp_all add: assms)
qed

lemma pickLevel_cong: "HistoryHash s' = HistoryHash s \<Longrightarrow> pickLevel srt s' = pickLevel srt s"
  unfolding fun_eq_iff pickLevel_def by (simp add: assignHashes_cong[of s' s])

lemma selectSigners_cong:
  assumes "HistoryHash s' = HistoryHash s" "config s' = config s"
  shows "selectSigners srt s' ts = selectSigners srt s ts"
  unfolding selectSigners_def pickLevel_cong[OF assms(1)] assignHashes_cong[OF assms(1)] assms(2)
  by (rule refl)

lemma pickLevel_spec:
  assumes "pickLevel srt s ts lo hi k = Inr items" "hash_sort srt"
  shows "int (length items) = k"
    and "saddr ` set items \<subseteq> addr ` set (take (nat (hi - lo)) (drop (nat lo) ts))"
    and "distinct (map addr ts) \<Longrightarrow> distinct (map saddr items)"
proof -
  obtain level its where level: "go_slice ts lo hi = Inr level"
    and its: "assignHashes s 0 (map addr level) = Inr its"
    and items: "go_slice (srt its) 0 k = Inr items"
    using assms(1) by (auto simp: pickLevel_def res_simps)
  have lv: "level = take (nat (hi - lo)) (drop (nat lo) ts)"
    using level by (auto simp: go_slice_def split: if_splits)
  have it: "items = take (nat k) (srt its)"
    using items by (auto simp: go_slice_def split: if_splits)
  have a: "map saddr its = map addr level" by (rule assignHashes_addr[OF its])
  then have "saddr ` set its = addr ` set level" by (metis set_map)
  moreover have "set items \<subseteq> set its"
    unfolding it using hash_sort.set_srt[OF assms(2)] by (metis set_take_subset)
  ultimately show "saddr ` set items \<subseteq> addr ` set (take (nat (hi - lo)) (drop (nat lo) ts))"
    unfolding lv by (metis image_mono)
  show "int (length items) = k" using length_go_slice[OF items] by simp
  assume "distinct (map addr ts)"
  then have "distinct (map addr level)"
    unfolding lv by (simp add: take_map[symmetric] drop_map[symmetric])
  then have "distinct (map saddr its)" by (simp add: a)
  then have "distinct (map saddr (srt its))"
    by (simp add: hash_sort.distinct_map_srt[OF assms(2)])
  then show "distinct (map saddr items)"
    unfolding it by (simp add: take_map[symmetric])
qed

text \<open>
  The plain selection: the addresses of the best weighted candidates, in order; a candidate that is
  left out never outranks one that is taken.
\<close>

definition plain_selection :: "snapshot \<Rightarrow> bool" where
  "plain_selection s \<longleftrightarrow>
     \<not> (go_int (MaxSignerCount (config s)) = 21 \<and> length (buildTallySlice s) > 30)"

definition official_selection :: "snapshot \<Rightarrow> bool" where
  "official_selection s \<longleftrightarrow>
     go_int (MaxSignerCount (config s)) = 21 \<and> length (buildTallySlice s) > 30"

lemma selectSigners_plain:
  assumes "plain_selection s" "0 \<le> go_int (MaxSignerCount (config s))"
    and "ts = go_sort TallySlice_Less (buildTallySlice s)"
    and "selectSigners srt s ts = Inr items"
  shows "map saddr items = map addr (take (nat (go_int (MaxSignerCount (config s)))) ts)"
proof -
  let ?M = "go_int (MaxSignerCount (config s))"
  let ?k = "if ?M > int (length ts) then int (length ts) else ?M"
  have "\<not> (?k = defaultOfficialMaxSignerCount \<and> int (length ts) > defaultOfficialThirdLevelCount)"
    using assms(1,3) by (auto simp: plain_selection_def queue_defs)
  then obtain top where "go_slice ts 0 ?k = Inr top" "assignHashes s 0 (map addr top) = Inr items"
    using assms(4) by (auto simp: selectSigners_def Let_def res_simps split: if_splits)
  moreover from this have "top = take (nat ?M) ts"
    by (auto simp: go_slice_def split: if_splits)
  ultimately show ?thesis using assignHashes_addr by simp
qed

lemma take_drop_levels:
  assumes "30 < length ts"
  shows "take 10 ts @ take 10 (drop 10 ts) @ take 10 (drop 20 ts) @ drop 30 ts = ts"
proof -
  have "take 10 (drop 20 ts) @ drop 30 ts = drop 20 ts"
    using append_take_drop_id[of 10 "drop 20 ts"] by simp
  moreover have "take 10 (drop 10 ts) @ drop 20 ts = drop 10 ts"
    using append_take_drop_id[of 10 "drop 10 ts"] by simp
  ultimately show ?thesis by simp
qed

text \<open>
  The official selection takes the ten best, six of the next ten, four of the next ten and one of
  the rest: twenty-one different signers.
\<close>

lemma selectSigners_levels:
  assumes "official_selection s" "ts = go_sort TallySlice_Less (buildTallySlice s)"
    and "selectSigners srt s ts = Inr items"
  obtains l1 l2 l3 l4 where "items = l1 @ l2 @ l3 @ l4"
    and "assignHashes s 0 (map addr (take 10 ts)) = Inr l1"
    and "pickLevel srt s ts 10 20 6 = Inr l2" "pickLevel srt s ts 20 30 4 = Inr l3"
    and "pickLevel srt s ts 30 (min 50 (int (length ts))) 1 = Inr l4"
proof -
  have len: "30 < length ts" using assms(1,2) by (simp add: official_selection_def)
  then have c: "\<not> go_int (MaxSignerCount (config s)) > int (length ts)"
    using assms(1) by (simp add: official_selection_def)
  have m: "(if 50 > int (length ts) then int (length ts) else 50) = min 50 (int (length ts))"
    by simp
  obtain first l1 l2 l3 l4 where "go_slice ts 0 10 = Inr first"
    "assignHashes s 0 (map addr first) = Inr l1" "pickLevel srt s ts 10 20 6 = Inr l2"
    "pickLevel srt s ts 20 30 4 = Inr l3" "pickLevel srt s ts 30 (min 50 (int (length ts))) 1 = Inr l4"
    "items = l1 @ l2 @ l3 @ l4"
    using assms(3)[unfolded selectSigners_def Let_def queue_defs m] assms(1) len c
    by (auto simp: official_selection_def res_simps)
  moreover from this have "first = take 10 ts" by (auto simp: go_slice_def split: if_splits)
  ultimately show thesis using that by blast
qed

lemma selectSigners_official:
  assumes "official_selection s" "ts = go_sort TallySlice_Less (buildTallySlice s)"
    and "selectSigners srt s ts = Inr items"
  obtains l1 l2 l3 l4 where "items = l1 @ l2 @ l3 @ l4"
    and "map saddr l1 = map addr (take 10 ts)"
    and "pickLevel srt s ts 10 20 6 = Inr l2" "pickLevel srt s ts 20 30 4 = Inr l3"
    and "pickLevel srt s ts 30 (min 50 (int (length ts))) 1 = Inr l4"
  by (rule selectSigners_levels[OF assms]) (rule that[OF _ assignHashes_addr])

lemma length_selectSigners_official:
  assumes "official_selection s" "ts = go_sort TallySlice_Less (buildTallySlice s)"
    and "selectSigners srt s ts = Inr items" "hash_sort srt"
  shows "length items = 21"
proof -
  have len: "30 < length ts" using assms(1,2) by (simp add: official_selection_def)
  obtain l1 l2 l3 l4 where l: "items = l1 @ l2 @ l3 @ l4" "map saddr l1 = map addr (take 10 ts)"
    "pickLevel srt s ts 10 20 6 = Inr l2" "pickLevel srt s ts 20 30 4 = Inr l3"
    "pickLevel srt s ts 30 (min 50 (int (length ts))) 1 = Inr l4"
    by (rule selectSigners_official[OF assms(1-3)])
  have "length l1 = 10" using arg_cong[OF l(2), of length] len by simp
  then show ?thesis using l(1) pickLevel_spec(1)[OF l(3) assms(4)] pickLevel_spec(1)[OF l(4) assms(4)]
      pickLevel_spec(1)[OF l(5) assms(4)] by simp
qed

lemma disjoint_chain:
  assumes "A1 \<inter> (A2 \<union> (A3 \<union> A4)) = {}" "A2 \<inter> (A3 \<union> A4) = {}" "A3 \<inter> A4 = {}"
    and "B1 = A1" "B2 \<subseteq> A2" "B3 \<subseteq> A3" "B4 \<subseteq> A4"
  shows "B1 \<inter> (B2 \<union> (B3 \<union> B4)) = {}" "B2 \<inter> (B3 \<union> B4) = {}" "B3 \<inter> B4 = {}"
  using assms by blast+

lemma distinct_selectSigners_official:
  assumes "official_selection s" "ts = go_sort TallySlice_Less (buildTallySlice s)"
    and "selectSigners srt s ts = Inr items" "ginv (Tally s)" "hash_sort srt"
  shows "distinct (map saddr items)"
proof -
  have len: "30 < length ts" using assms(1,2) by (simp add: official_selection_def)
  have "distinct (map addr (buildTallySlice s))" by (rule distinct_buildTallySlice[OF assms(4)])
  then have d: "distinct (map addr ts)" by (simp add: assms(2) distinct_map)
  obtain l1 l2 l3 l4 where l: "items = l1 @ l2 @ l3 @ l4" "map saddr l1 = map addr (take 10 ts)"
    "pickLevel srt s ts 10 20 6 = Inr l2" "pickLevel srt s ts 20 30 4 = Inr l3"
    "pickLevel srt s ts 30 (min 50 (int (length ts))) 1 = Inr l4"
    by (rule selectSigners_official[OF assms(1-3)])
  define A1 A2 A3 A4 where A: "A1 = addr ` set (take 10 ts)" "A2 = addr ` set (take 10 (drop 10 ts))"
    "A3 = addr ` set (take 10 (drop 20 ts))" "A4 = addr ` set (drop 30 ts)"
  have s1: "saddr ` set l1 = A1"
    using arg_cong[OF l(2), of set] by (simp add: A)
  have s2: "saddr ` set l2 \<subseteq> A2" and s3: "saddr ` set l3 \<subseteq> A3"
    using pickLevel_spec(2)[OF l(3) assms(5)] pickLevel_spec(2)[OF l(4) assms(5)] by (simp_all add: A)
  have s4: "saddr ` set l4 \<subseteq> A4"
    by (rule order_trans[OF pickLevel_spec(2)[OF l(5) assms(5)]]) (auto simp: A dest: in_set_takeD)
  have dd: "distinct (map addr (take 10 ts) @ map addr (take 10 (drop 10 ts)) @
      map addr (take 10 (drop 20 ts)) @ map addr (drop 30 ts))"
    using d take_drop_levels[OF len] by (metis map_append)
  have D: "A1 \<inter> (A2 \<union> (A3 \<union> A4)) = {}" "A2 \<inter> (A3 \<union> A4) = {}" "A3 \<inter> A4 = {}"
    using dd unfolding distinct_append set_append set_map A by iprover+
  have d1: "distinct (map saddr l1)" using l(2) dd by simp
  have dl: "distinct (map saddr l2)" "distinct (map saddr l3)" "distinct (map saddr l4)"
    using pickLevel_spec(3)[OF l(3) assms(5)] pickLevel_spec(3)[OF l(4) assms(5)] pickLevel_spec(3)[OF l(5) assms(5)] d by simp_all
  from disjoint_chain[OF D s1 s2 s3 s4] show ?thesis
    unfolding l(1) map_append distinct_append set_append set_map using d1 dl by iprover
qed

subsection \<open>The queue\<close>

lemma map_mod_set:
  assumes "xs \<noteq> []"
  shows "set (map (\<lambda>i. xs ! (i mod length xs)) [0..<n]) \<subseteq> set xs"
  using assms by (auto intro!: nth_mem)

lemma createSignerQueueE:
  assumes "createSignerQueue srt s = Inr q" "hash_sort srt"
  obtains items where
    "(if (Number s + 1) mod (MaxSignerCount (config s) * LCRS s) = 0
      then selectSigners srt s (go_sort TallySlice_Less (buildTallySlice s))
      else assignHashes s 0 (Signers s)) = Inr items"
    and "items \<noteq> []"
    and "q = map (\<lambda>i. saddr (srt items ! (i mod length items)))
      [0..<nat (go_int (MaxSignerCount (config s)))]"
    and "(Number s + 1) mod MaxSignerCount (config s) = 0"
proof -
  have ne: "srt xs = [] \<longleftrightarrow> xs = []" "length (srt xs) = length xs" for xs
    using hash_sort.length_srt[OF assms(2), of xs] by auto
  show thesis
    using assms(1) that unfolding createSignerQueue_def
    by (auto simp: res_simps Let_def ne split: if_splits)
qed

lemma length_createSignerQueue:
  "createSignerQueue srt s = Inr q \<Longrightarrow> hash_sort srt \<Longrightarrow> length q = nat (go_int (MaxSignerCount (config s)))"
  by (erule (1) createSignerQueueE) simp

lemma set_createSignerQueue_items:
  assumes "items \<noteq> []" "hash_sort srt"
  shows "set (map (\<lambda>i. saddr (srt items ! (i mod length items))) [0..<n])
    \<subseteq> saddr ` set items"
  using assms(1) hash_sort.set_srt[OF assms(2), of items] hash_sort.length_srt[OF assms(2), of items]
  by (auto intro!: imageI)

text \<open>Verification accepts exactly the queue that creation gives.\<close>

lemma verifySignerQueue_iff:
  assumes "hash_sort srt"
  shows "verifySignerQueue srt s q = Inr () \<longleftrightarrow> createSignerQueue srt s = Inr q \<and> q \<noteq> []"
proof -
  have loop: "foldM (\<lambda>_ i. if q ! i \<noteq> sq ! i then Inl errInvalidSignerQueue else Inr ()) ()
      [0..<length q] = Inr () \<longleftrightarrow> (\<forall>i < length q. q ! i = sq ! i)" for sq
    by (subst foldM_unit_ok) auto
  have same: "(length sq = length q \<and> (\<forall>i < length q. q ! i = sq ! i)) \<longleftrightarrow> sq = q" for sq
    by (auto simp: list_eq_iff_nth_eq)
  have "verifySignerQueue srt s q = Inr () \<longleftrightarrow>
      int (length q) \<le> go_int (MaxSignerCount (config s)) \<and>
      (\<exists>sq. createSignerQueue srt s = Inr sq \<and> sq \<noteq> [] \<and> length sq = length q \<and>
        (\<forall>i < length q. q ! i = sq ! i))"
    unfolding verifySignerQueue_def by (auto simp: res_simps loop)
  also have "\<dots> \<longleftrightarrow> int (length q) \<le> go_int (MaxSignerCount (config s)) \<and>
      createSignerQueue srt s = Inr q \<and> q \<noteq> []"
    unfolding same by iprover
  also have "\<dots> \<longleftrightarrow> createSignerQueue srt s = Inr q \<and> q \<noteq> []"
    using length_createSignerQueue[OF _ assms, of s q] length_greater_0_conv[of q] by linarith
  finally show ?thesis .
qed

text \<open>Every node computes the same queue, whatever order its map of tallies has.\<close>

lemma createSignerQueue_permute:
  assumes "ginv (Tally s)" "mset t = mset (Tally s)"
  shows "createSignerQueue srt (s\<lparr>Tally := t\<rparr>) = createSignerQueue srt s"
proof -
  have "go_sort TallySlice_Less (buildTallySlice (s\<lparr>Tally := t\<rparr>)) =
      go_sort TallySlice_Less (buildTallySlice s)"
    using assms by (intro go_sort_buildTallySlice_permute) simp_all
  then show ?thesis
    unfolding createSignerQueue_def
    by (simp add: selectSigners_cong[of "s\<lparr>Tally := t\<rparr>" s] assignHashes_cong[of "s\<lparr>Tally := t\<rparr>" s]
        cong: if_cong)
qed

subsection \<open>Surplus candidates\<close>

lemma dropCandidate_sel [simp]:
  "Candidates (dropCandidate s it) = filter (\<lambda>e. fst e \<noteq> addr it) (Candidates s)"
  "Votes (dropCandidate s it) = Votes s" "Voters (dropCandidate s it) = Voters s"
  "Tally (dropCandidate s it) = Tally s" "config (dropCandidate s it) = config s"
  "Punished (dropCandidate s it) = Punished s"
  using gdel_filter[of "\<lambda>_. True" "Candidates s" "addr it"] by (simp_all add: dropCandidate_def)

lemma foldl_dropCandidate:
  "Candidates (foldl dropCandidate s its) = filter (\<lambda>e. fst e \<notin> addr ` set its) (Candidates s)"
  by (induction its arbitrary: s) (auto intro!: filter_cong)

lemma foldl_dropCandidate_frame:
  "Votes (foldl dropCandidate s its) = Votes s" "Voters (foldl dropCandidate s its) = Voters s"
  "Tally (foldl dropCandidate s its) = Tally s" "config (foldl dropCandidate s its) = config s"
  "Punished (foldl dropCandidate s its) = Punished s"
  by (induction its arbitrary: s) simp_all

lemma removeExtraCandidate_frame [frame_simps]:
  "Votes (removeExtraCandidate s) = Votes s" "Voters (removeExtraCandidate s) = Voters s"
  "Tally (removeExtraCandidate s) = Tally s" "config (removeExtraCandidate s) = config s"
  "Punished (removeExtraCandidate s) = Punished s"
  by (simp_all add: removeExtraCandidate_def Let_def foldl_dropCandidate_frame)

subsection \<open>Equal hashes\<close>

lemma assignHashes_nth:
  assumes "assignHashes s i as = Inr items" "k < length as"
  shows "shash (items ! k) = HistoryHash s ! nat (int (length (HistoryHash s)) - 1 - (i + int k))"
  using assms
proof (induction s i as arbitrary: items k rule: assignHashes.induct)
  case (2 s i a as)
  from 2(2) obtain h rest where h: "go_nth (HistoryHash s) (int (length (HistoryHash s)) - 1 - i) = Inr h"
    and rest: "assignHashes s (i + 1) as = Inr rest" and items: "items = \<lparr>saddr = a, shash = h\<rparr> # rest"
    by (auto simp: res_simps)
  show ?case
  proof (cases k)
    case 0
    then show ?thesis using h by (simp add: items res_simps)
  next
    case (Suc j)
    then show ?thesis using 2(1)[OF h rest, of j] 2(3) by (simp add: items algebra_simps)
  qed
qed simp

lemma assignHashes_length: "assignHashes s i as = Inr items \<Longrightarrow> length items = length as"
  by (drule assignHashes_addr) (metis length_map)

text \<open>
  In the official selection a signer of the second level always shares its hash with one of the
  first, because every level counts its hashes from the newest block.
\<close>

lemma official_tie:
  assumes "official_selection s" "ts = go_sort TallySlice_Less (buildTallySlice s)"
    and "selectSigners srt s ts = Inr items" "ginv (Tally s)" "hash_sort srt"
  shows "\<exists>x y. x \<in> set items \<and> y \<in> set items \<and> saddr x \<noteq> saddr y \<and> shash x = shash y"
proof -
  have len: "30 < length ts" using assms(1,2) by (simp add: official_selection_def)
  obtain l1 l2 l3 l4 where l: "items = l1 @ l2 @ l3 @ l4" "assignHashes s 0 (map addr (take 10 ts)) = Inr l1"
    "pickLevel srt s ts 10 20 6 = Inr l2" "pickLevel srt s ts 20 30 4 = Inr l3"
    "pickLevel srt s ts 30 (min 50 (int (length ts))) 1 = Inr l4"
    by (rule selectSigners_levels[OF assms(1-3)])
  have l1len: "length (map addr (take 10 ts)) = 10" using len by simp
  define level where "level = take 10 (drop 10 ts)"
  obtain its where its: "assignHashes s 0 (map addr level) = Inr its"
    and l2': "l2 = take 6 (srt its)" "6 \<le> length (srt its)"
    using l(3) len by (auto simp: level_def pickLevel_def res_simps go_slice_def split: if_splits)
  have lv: "length level = 10" using len by (simp add: level_def)
  have "l2 \<noteq> []" using l2' by auto
  then obtain x where x: "x \<in> set l2" by (cases l2) auto
  then have "x \<in> set its" using l2'(1) hash_sort.set_srt[OF assms(5)] by (auto dest: in_set_takeD)
  then obtain k where k: "k < length its" "x = its ! k" by (auto simp: in_set_conv_nth)
  have kl: "k < 10" using k(1) assignHashes_length[OF its] lv by simp
  have hx: "shash x = shash (l1 ! k)"
    using assignHashes_nth[OF its, of k] assignHashes_nth[OF l(2), of k] kl lv l1len k(2) by simp
  have mem: "l1 ! k \<in> set l1" using kl assignHashes_length[OF l(2)] l1len by simp
  have "distinct (map saddr (l1 @ l2))"
    using distinct_selectSigners_official[OF assms] by (auto simp: l(1))
  then have "saddr x \<noteq> saddr (l1 ! k)" using x mem by (force simp: disjoint_iff)
  then show ?thesis using hx x mem by (intro exI[of _ x] exI[of _ "l1 ! k"]) (simp add: l(1))
qed

subsection \<open>Enough hashes\<close>

lemma pickLevel_total:
  assumes "hash_sort srt" "0 \<le> lo" "lo \<le> hi" "hi \<le> int (length ts)" "0 \<le> k" "k \<le> hi - lo"
    and "hi - lo \<le> int (length (HistoryHash s))"
  shows "\<exists>items. pickLevel srt s ts lo hi k = Inr items"
proof -
  let ?level = "take (nat (hi - lo)) (drop (nat lo) ts)"
  have slice: "go_slice ts lo hi = Inr ?level" using assms(2-4) by (simp add: go_slice_def)
  have len: "length ?level = nat (hi - lo)" using assms(2-4) by simp
  from assms(7) len assms(3) obtain its where its: "assignHashes s 0 (map addr ?level) = Inr its"
    using assignHashes_total[of 0 "map addr ?level" s] by auto
  have "int (length (srt its)) = hi - lo"
    using hash_sort.length_srt[OF assms(1)] assignHashes_length[OF its] len assms(3) by simp
  then have "go_slice (srt its) 0 k = Inr (take (nat k) (srt its))"
    using assms(5,6) by (simp add: go_slice_def)
  then show ?thesis by (simp add: pickLevel_def slice its)
qed

lemma selectSigners_official_total:
  assumes "official_selection s" "hash_sort srt" "20 \<le> length (HistoryHash s)"
    and "ts = go_sort TallySlice_Less (buildTallySlice s)"
  shows "\<exists>items. selectSigners srt s ts = Inr items"
proof -
  have len: "30 < length ts" using assms(1,4) by (simp add: official_selection_def)
  then have c: "\<not> go_int (MaxSignerCount (config s)) > int (length ts)"
    using assms(1) by (simp add: official_selection_def)
  have m: "(if 50 > int (length ts) then int (length ts) else 50) = min 50 (int (length ts))"
    by simp
  obtain l1 where l1: "assignHashes s 0 (map addr (take 10 ts)) = Inr l1"
    using assignHashes_total[of 0 "map addr (take 10 ts)" s] assms(3) len by auto
  have s1: "go_slice ts 0 10 = Inr (take 10 ts)" using len by (simp add: go_slice_def)
  obtain l2 where l2: "pickLevel srt s ts 10 20 6 = Inr l2"
    using pickLevel_total[OF assms(2), of 10 20 ts 6 s] assms(3) len by auto
  obtain l3 where l3: "pickLevel srt s ts 20 30 4 = Inr l3"
    using pickLevel_total[OF assms(2), of 20 30 ts 4 s] assms(3) len by auto
  have "min 50 (int (length ts)) - 30 \<le> int (length (HistoryHash s))"
    using assms(3) by linarith
  then obtain l4 where l4: "pickLevel srt s ts 30 (min 50 (int (length ts))) 1 = Inr l4"
    using pickLevel_total[OF assms(2), of 30 "min 50 (int (length ts))" ts 1 s] assms(3) len by auto
  show ?thesis
    using assms(1) len c l1 l2 l3 l4 s1
    unfolding selectSigners_def Let_def queue_defs m by (simp add: official_selection_def)
qed

lemma pickLevel_addr:
  assumes "pickLevel srt s ts lo hi k = Inr items" "hash_sort srt"
  shows "saddr ` set items \<subseteq> addr ` set ts"
  using pickLevel_spec(2)[OF assms] set_take_subset[of "nat (hi - lo)" "drop (nat lo) ts"]
    set_drop_subset[of "nat lo" ts] by (meson image_mono subset_trans)

lemma selectSigners_addr:
  assumes "0 \<le> go_int (MaxSignerCount (config s))"
    and "ts = go_sort TallySlice_Less (buildTallySlice s)"
    and "selectSigners srt s ts = Inr items" "hash_sort srt"
  shows "saddr ` set items \<subseteq> addr ` set ts"
proof (cases "official_selection s")
  case True
  obtain l1 l2 l3 l4 where l: "items = l1 @ l2 @ l3 @ l4" "map saddr l1 = map addr (take 10 ts)"
    "pickLevel srt s ts 10 20 6 = Inr l2" "pickLevel srt s ts 20 30 4 = Inr l3"
    "pickLevel srt s ts 30 (min 50 (int (length ts))) 1 = Inr l4"
    by (rule selectSigners_official[OF True assms(2,3)])
  have "saddr ` set l1 \<subseteq> addr ` set ts" using l(2) by (metis image_mono set_map set_take_subset)
  then show ?thesis
    using pickLevel_addr[OF l(3) assms(4)] pickLevel_addr[OF l(4) assms(4)]
      pickLevel_addr[OF l(5) assms(4)] by (simp add: l(1) image_Un)
next
  case False
  then have "plain_selection s" by (simp add: official_selection_def plain_selection_def)
  from selectSigners_plain[OF this assms(1-3)] have "saddr ` set items \<subseteq> set (map addr ts)"
    by (metis list.set_map set_take_subset take_map)
  then show ?thesis by simp
qed

text \<open>A snapshot with 31 candidates under the official configuration.\<close>

definition sample_official :: snapshot where
  "sample_official = sample_snapshot\<lparr>config := sample_config\<lparr>MaxSignerCount := 21\<rparr>,
     Tally := map (\<lambda>i. (of_nat i, 1)) [0..<31], HistoryHash := replicate 21 0\<rparr>"

definition sample_elect :: snapshot where
  "sample_elect = sample_snapshot\<lparr>config := sample_config\<lparr>MaxSignerCount := 1\<rparr>, HistoryHash := [5, 8],
     Tally := [(10, 50), (11, 60)]\<rparr>"

lemma sample_official_ok:
  "official_selection sample_official" "ginv (Tally sample_official)"
  "20 \<le> length (HistoryHash sample_official)"
proof -
  have "inj_on (of_nat :: nat \<Rightarrow> address) {0..<31}"
    by (rule inj_onI) (simp add: word_of_nat_eq_iff take_bit_nat_eq_self)
  then show "ginv (Tally sample_official)"
    by (simp add: sample_official_def ginv_def comp_def distinct_map)
qed (simp_all add: sample_official_def sample_defs official_selection_def buildTallySlice_eq
      candidateNeedPD_def comp_def case_prod_beta go_int_def)

subsection \<open>Properties\<close>

text \<open>
  C11.  Producer and verifier agree: \<open>verifySignerQueue\<close> accepts exactly the queue that
  \<open>createSignerQueue\<close> computes, and no empty one.
\<close>

theorem queue_verified_iff_created:
  assumes "hash_sort srt"
  shows "verifySignerQueue srt s q = Inr () \<longleftrightarrow> createSignerQueue srt s = Inr q \<and> q \<noteq> []"
  by (rule verifySignerQueue_iff[OF assms])

theorem queue_verified_iff_created_witness:
  "verifySignerQueue (go_sort SignerSlice_Less) sample_snapshot [] = Inr () \<longleftrightarrow>
    createSignerQueue (go_sort SignerSlice_Less) sample_snapshot = Inr [] \<and> ([] :: address list) \<noteq> []"
  by (rule queue_verified_iff_created[OF go_hash_sort.hash_sort_axioms])

text \<open>
  The queue has \<open>MaxSignerCount\<close> places, filled from the signers of the last loop, or, in an
  election, from the addresses that have a tally.
\<close>

lemma queue_members:
  assumes "hash_sort srt" "createSignerQueue srt s = Inr q"
    and "0 \<le> go_int (MaxSignerCount (config s))"
  shows "length q = nat (go_int (MaxSignerCount (config s))) \<and>
    set q \<subseteq> (if (Number s + 1) mod (MaxSignerCount (config s) * LCRS s) = 0
             then set (gkeys (Tally s)) else set (Signers s))"
proof -
  let ?ts = "go_sort TallySlice_Less (buildTallySlice s)"
  from createSignerQueueE[OF assms(2,1)] obtain items where
    items: "(if (Number s + 1) mod (MaxSignerCount (config s) * LCRS s) = 0
      then selectSigners srt s ?ts else assignHashes s 0 (Signers s)) = Inr items" "items \<noteq> []"
    and q: "q = map (\<lambda>i. saddr (srt items ! (i mod length items))) [0..<nat (go_int (MaxSignerCount (config s)))]"
    by blast
  have "set q \<subseteq> saddr ` set items"
    unfolding q by (rule set_createSignerQueue_items[OF items(2) assms(1)])
  moreover have "saddr ` set items \<subseteq> (if (Number s + 1) mod (MaxSignerCount (config s) * LCRS s) = 0
             then set (gkeys (Tally s)) else set (Signers s))"
  proof (cases "(Number s + 1) mod (MaxSignerCount (config s) * LCRS s) = 0")
    case True
    have "set (map saddr items) \<subseteq> set (map addr ?ts)"
      using selectSigners_addr[OF assms(3) refl items(1)[unfolded if_P[OF True]] assms(1)] by simp
    also have "\<dots> \<subseteq> set (gkeys (Tally s))" using buildTallySlice_addr[of s] by auto
    finally show ?thesis using True by simp
  next
    case False
    with items(1) have "map saddr items = Signers s" by (intro assignHashes_addr) simp
    then have "saddr ` set items = set (Signers s)" by (metis set_map)
    with False show ?thesis by simp
  qed
  ultimately show ?thesis using length_createSignerQueue[OF assms(2,1)] by auto
qed

lemma queue_members_witness:
  "\<exists>q. createSignerQueue (go_sort SignerSlice_Less)
      (sample_snapshot\<lparr>Number := 2, HistoryHash := [5, 8, 0], Tally := [(10, 50), (11, 60)]\<rparr>) = Inr q
    \<and> length q = 3 \<and> set q \<subseteq> {10, 11}"
proof -
  let ?s = "sample_snapshot\<lparr>Number := 2, HistoryHash := [5, 8, 0], Tally := [(10, 50), (11, 60)]\<rparr>"
  have "createSignerQueue (go_sort SignerSlice_Less) ?s = Inr [10, 11, 10]" by code_simp
  moreover from queue_members[OF go_hash_sort.hash_sort_axioms this]
  have "set [10, 11, 10] \<subseteq> {10, 11 :: address}" by (simp add: sample_defs gkeys_def go_int_def)
  ultimately show ?thesis by auto
qed

text \<open>
  Determinism: the queue does not depend on the order in which Go iterates over the map
  \<open>Tally\<close>.
\<close>

lemma queue_order_independent:
  assumes "ginv (Tally s)" "mset t = mset (Tally s)"
  shows "createSignerQueue srt (s\<lparr>Tally := t\<rparr>) = createSignerQueue srt s"
  by (rule createSignerQueue_permute[OF assms])

lemma queue_order_independent_witness:
  "createSignerQueue (go_sort SignerSlice_Less) (sample_snapshot\<lparr>Tally := [(11, 60), (10, 50)]\<rparr>) =
   createSignerQueue (go_sort SignerSlice_Less) (sample_snapshot\<lparr>Tally := [(10, 50), (11, 60)]\<rparr>)"
  using queue_order_independent[of "sample_snapshot\<lparr>Tally := [(10, 50), (11, 60)]\<rparr>" "[(11, 60), (10, 50)]"]
  by (simp add: sample_defs ginv_def)

text \<open>
  The plain election takes the heaviest candidates: \<open>min MaxSignerCount (number of candidates)\<close>
  of them are selected, and none that is left out has a greater stake times credit than a selected
  one.
\<close>

lemma plain_election_heaviest:
  assumes "plain_selection s" "0 \<le> go_int (MaxSignerCount (config s))"
    and "selectSigners srt s (go_sort TallySlice_Less (buildTallySlice s)) = Inr items"
  shows "length items = min (nat (go_int (MaxSignerCount (config s)))) (length (buildTallySlice s)) \<and>
    (\<forall>x \<in> set (buildTallySlice s). \<forall>y \<in> set (buildTallySlice s).
      addr x \<in> saddr ` set items \<longrightarrow> addr y \<notin> saddr ` set items \<longrightarrow> ginv (Tally s) \<longrightarrow> stake y \<le> stake x)"
proof -
  let ?ts = "go_sort TallySlice_Less (buildTallySlice s)"
  let ?n = "nat (go_int (MaxSignerCount (config s)))"
  note items = selectSigners_plain[OF assms(1,2) refl assms(3)]
  have len: "length items = min ?n (length (buildTallySlice s))"
    using arg_cong[OF items, of length] by (simp add: min.commute)
  have "stake y \<le> stake x"
    if x: "x \<in> set ?ts" "addr x \<in> set (map saddr items)" and y: "y \<in> set ?ts" "addr y \<notin> set (map saddr items)"
      and inv: "ginv (Tally s)" for x y
  proof -
    have inj: "inj_on addr (set ?ts)"
      using distinct_buildTallySlice[OF inv] by (simp add: distinct_map)
    have "set (take ?n ?ts) \<subseteq> set ?ts" by (rule set_take_subset)
    then have xt: "x \<in> set (take ?n ?ts)"
      using x inj unfolding items by (auto simp: inj_on_def)
    have "y \<notin> set (take ?n ?ts)" using y unfolding items by auto
    then have "y \<in> set (drop ?n ?ts)" using y(1) by (metis Un_iff append_take_drop_id set_append)
    from tally_order.ordered_takeD[OF tally_order.ordered_go_sort xt this] show ?thesis
      by (auto simp: TallySlice_Less_def split: if_splits)
  qed
  with len show ?thesis by auto
qed

lemma plain_election_heaviest_witness:
  "\<exists>items. selectSigners (go_sort SignerSlice_Less) sample_elect
      (go_sort TallySlice_Less (buildTallySlice sample_elect)) = Inr items
    \<and> length items = 1 \<and> buildTallySlice sample_elect \<noteq> []"
proof -
  have e: "selectSigners (go_sort SignerSlice_Less) sample_elect
      (go_sort TallySlice_Less (buildTallySlice sample_elect)) = Inr [\<lparr>saddr = 11, shash = 8\<rparr>]"
    by code_simp
  have l: "length (buildTallySlice sample_elect) = 2" by code_simp
  have "plain_selection sample_elect" "0 \<le> go_int (MaxSignerCount (config sample_elect))"
    by (simp_all add: plain_selection_def sample_elect_def sample_defs go_int_def)
  from plain_election_heaviest[OF this e] e l show ?thesis by auto
qed



text \<open>
  Ties: the official election always contains two different signers with the same block hash,
  so \<open>SignerSlice.Less\<close> orders neither before the other and the queue depends on the unstable
  \<open>sort.Sort\<close>.
\<close>

lemma official_election_ties:
  assumes "official_selection s" "hash_sort srt" "20 \<le> length (HistoryHash s)" "ginv (Tally s)"
  shows "\<exists>items x y. selectSigners srt s (go_sort TallySlice_Less (buildTallySlice s)) = Inr items
    \<and> x \<in> set items \<and> y \<in> set items \<and> saddr x \<noteq> saddr y
    \<and> \<not> SignerSlice_Less x y \<and> \<not> SignerSlice_Less y x"
proof -
  obtain items where it: "selectSigners srt s (go_sort TallySlice_Less (buildTallySlice s)) = Inr items"
    using selectSigners_official_total[OF assms(1-3) refl] by blast
  from official_tie[OF assms(1) refl it assms(4,2)] it show ?thesis
    by (auto simp: SignerSlice_Less_def) (metis order.irrefl)
qed

lemma official_election_ties_witness:
  "\<exists>items x y. selectSigners (go_sort SignerSlice_Less) sample_official
      (go_sort TallySlice_Less (buildTallySlice sample_official)) = Inr items
    \<and> x \<in> set items \<and> y \<in> set items \<and> saddr x \<noteq> saddr y"
  using official_election_ties[OF sample_official_ok(1) go_hash_sort.hash_sort_axioms sample_official_ok(3,2)]
  by blast

end
