(* ===== verification/Alien_Proposal.thy ===== *)
theory Alien_Proposal
  imports Alien_Types
begin

text \<open>
  Proposals and declares (\<open>consensus/alien/snapshot.go\<close>): \<open>updateSnapshotByProposals\<close>,
  \<open>updateSnapshotByDeclares\<close>, \<open>calculateProposalResult\<close> and \<open>calculateProposalRefund\<close>.

  \<open>updateSnapshotByProposals\<close> stores the address of its loop variable.  The module has no \<open>go\<close>
  directive in \<open>go.mod\<close>, so the variable is one per loop and every proposal of a block is stored
  under a pointer to the same object; \<open>PropHeap\<close> is the store these pointers index.
\<close>

subsection \<open>Operations\<close>

text \<open>The write \<open>*ptr = p\<close>; the first write of a loop makes the cell.\<close>

definition writeCell :: "proposal list \<Rightarrow> nat \<Rightarrow> proposal \<Rightarrow> proposal list" where
  "writeCell h ptr p = (if ptr < length h then h[ptr := p] else h @ [p])"

definition storeProposal :: "nat \<Rightarrow> int \<Rightarrow> snapshot \<Rightarrow> proposal \<Rightarrow> snapshot" where
  "storeProposal ptr headerNumber s p =
     s\<lparr>PropHeap := writeCell (PropHeap s) ptr (p\<lparr>ReceivedNumber := headerNumber\<rparr>),
       Proposals := gput (Proposals s) (Prop_Hash p) ptr\<rparr>"

definition updateSnapshotByProposals :: "snapshot \<Rightarrow> proposal list \<Rightarrow> int \<Rightarrow> snapshot" where
  "updateSnapshotByProposals s proposals headerNumber =
     foldl (storeProposal (length (PropHeap s)) headerNumber) s proposals"

definition deref :: "snapshot \<Rightarrow> nat \<Rightarrow> proposal option" where
  "deref s ptr = (if ptr < length (PropHeap s) then Some (PropHeap s ! ptr) else None)"

definition proposal_at :: "snapshot \<Rightarrow> hash \<Rightarrow> proposal option" where
  "proposal_at s h = Option.bind (gget (Proposals s) h) (deref s)"

definition declareTooLate :: "snapshot \<Rightarrow> int \<Rightarrow> proposal \<Rightarrow> bool" where
  "declareTooLate s headerNumber p =
     (Uint64 (ReceivedNumber p) + ValidationLoopCnt p * MaxSignerCount (config s) < Uint64 headerNumber)"

definition updateDeclare :: "int \<Rightarrow> snapshot \<Rightarrow> declare_t \<Rightarrow> snapshot res" where
  "updateDeclare headerNumber s d =
     (case gget (Proposals s) (ProposalHash d) of
        None \<Rightarrow> Inr s
      | Some ptr \<Rightarrow>
          (case deref s ptr of
             None \<Rightarrow> Inl PanicNil
           | Some p \<Rightarrow>
               if declareTooLate s headerNumber p \<or> \<not> isCandidate s (Declarer d) then Inr s
               else if Declarer d \<in> Declarer ` set (Declares p) then Inr s
               else Inr (s\<lparr>PropHeap := (PropHeap s)[ptr := p\<lparr>Declares := Declares p @ [d]\<rparr>]\<rparr>)))"

definition updateSnapshotByDeclares :: "snapshot \<Rightarrow> declare_t list \<Rightarrow> int \<Rightarrow> snapshot res" where
  "updateSnapshotByDeclares s declares headerNumber = foldM (updateDeclare headerNumber) s declares"

definition proposalDue :: "snapshot \<Rightarrow> int \<Rightarrow> proposal \<Rightarrow> bool" where
  "proposalDue s headerNumber p =
     (Uint64 (ReceivedNumber p) + ValidationLoopCnt p * MaxSignerCount (config s) + 1
      = Uint64 headerNumber)"

definition addRefund ::
  "(u64, (address, int) gomap) gomap \<Rightarrow> u64 \<Rightarrow> address \<Rightarrow> int \<Rightarrow> (u64, (address, int) gomap) gomap" where
  "addRefund r n a x =
     (let m = (case gget r n of None \<Rightarrow> [] | Some m \<Rightarrow> m)
      in gput r n (gput m a (case gget m a of None \<Rightarrow> x | Some y \<Rightarrow> y + x)))"

text \<open>\<open>judegmentStake\<close> and \<open>yesDeclareStake\<close>.\<close>

definition judegmentStake :: "snapshot \<Rightarrow> int" where
  "judegmentStake s = foldl (\<lambda>acc (_, tally). acc + tally) 0 (Tally s) * 2 div 3"

definition yesDeclareStake :: "snapshot \<Rightarrow> proposal \<Rightarrow> int" where
  "yesDeclareStake s p =
     foldl (\<lambda>acc d. if Decision d
        then (case gget (Tally s) (Declarer d) of Some t \<Rightarrow> acc + t | None \<Rightarrow> acc) else acc)
       0 (Declares p)"

definition ttc :: "u64 \<Rightarrow> int" where
  "ttc x = uint x * 10 ^ 18"

definition acceptProposal :: "int \<Rightarrow> snapshot \<Rightarrow> proposal \<Rightarrow> snapshot res" where
  "acceptProposal headerNumber s p =
     (if ProposalType p = proposalTypeCandidateAdd then
        Inr (if candidateNeedPD
             then s\<lparr>Candidates := gput (Candidates s) (TargetAddress p) candidateStateNormal\<rparr> else s)
      else if ProposalType p = proposalTypeCandidateRemove then
        Inr (if ghas (Candidates s) (TargetAddress p) \<and> candidateNeedPD
             then s\<lparr>Candidates := gdel (Candidates s) (TargetAddress p)\<rparr> else s)
      else if ProposalType p = proposalTypeMinerRewardDistributionModify then
        Inr (s\<lparr>MinerReward := MinerRewardPerThousand p\<rparr>)
      else if ProposalType p = proposalTypeSideChainAdd then
        Inr (s\<lparr>SCRecordMap := gput (SCRecordMap s) (SCHash p)
          (case gget (SCRecordMap s) (SCHash p) of
             None \<Rightarrow> \<lparr>Record = [], LastConfirmedNumber = 0, MaxHeaderNumber = 0,
                      CountPerPeriod = SCBlockCountPerPeriod p,
                      RewardPerPeriod = SCBlockRewardPerPeriod p, RentReward = []\<rparr>
           | Some r \<Rightarrow> r\<lparr>CountPerPeriod := SCBlockCountPerPeriod p,
                        RewardPerPeriod := SCBlockRewardPerPeriod p\<rparr>)\<rparr>)
      else if ProposalType p = proposalTypeSideChainRemove then
        Inr (if ghas (SCRecordMap s) (SCHash p)
             then s\<lparr>SCRecordMap := gdel (SCRecordMap s) (SCHash p)\<rparr> else s)
      else if ProposalType p = proposalTypeMinVoterBalanceModify then
        Inr (s\<lparr>MinVB := Some (ttc (Prop_MinVoterBalance p))\<rparr>)
      else if ProposalType p = proposalTypeProposalDepositModify then Inr s
      else if ProposalType p = proposalTypeRentSideChain then
        (case gget (SCRecordMap s) (SCHash p) of
           None \<Rightarrow>
             Inr (s\<lparr>ProposalRefund :=
               addRefund (ProposalRefund s) (Uint64 headerNumber) (Proposer p) (ttc (SCRentFee p))\<rparr>)
         | Some r \<Rightarrow>
             if SCRentLength p = 0 then Inl PanicDivide
             else
               (let rentPerPeriod = ttc (SCRentFee p) div uint (SCRentLength p);
                    maxRewardNumber = headerNumber + uint (SCRentLength p);
                    notice = (case gget (SCNoticeMap s) (SCHash p) of
                                None \<Rightarrow> \<lparr>CurrentCharging = [], ConfirmReceived = []\<rparr> | Some nt \<Rightarrow> nt);
                    charge = \<lparr>Target = TargetAddress p, Volume = SCRentFee p * SCRentRate p,
                              GC_Hash = Prop_Hash p\<rparr>
                in Inr (s\<lparr>SCRecordMap := gput (SCRecordMap s) (SCHash p)
                            (r\<lparr>RentReward := gput (RentReward r) (Prop_Hash p)
                               \<lparr>RentPerPeriod = rentPerPeriod, MaxRewardNumber = maxRewardNumber\<rparr>\<rparr>),
                          SCNoticeMap := gput (SCNoticeMap s) (SCHash p)
                            (notice\<lparr>CurrentCharging := gput (CurrentCharging notice) (Prop_Hash p) charge\<rparr>)\<rparr>)))
      else Inr s)"

definition rejectProposal :: "int \<Rightarrow> snapshot \<Rightarrow> proposal \<Rightarrow> snapshot" where
  "rejectProposal headerNumber s p =
     (if ProposalType p = proposalTypeRentSideChain
      then s\<lparr>ProposalRefund :=
        addRefund (ProposalRefund s) (Uint64 headerNumber) (Proposer p) (ttc (SCRentFee p))\<rparr>
      else s)"

definition settleProposal :: "int \<Rightarrow> snapshot \<Rightarrow> hash \<times> nat \<Rightarrow> snapshot res" where
  "settleProposal headerNumber s e =
     (case deref s (snd e) of
        None \<Rightarrow> Inl PanicNil
      | Some p \<Rightarrow>
          if proposalDue s headerNumber p then
            (let s1 = s\<lparr>ProposalRefund :=
                   addRefund (ProposalRefund s) (Uint64 headerNumber) (Proposer p) (CurrentDeposit p)\<rparr>
             in bind_res
               (if yesDeclareStake s1 p > judegmentStake s1 then acceptProposal headerNumber s1 p
                else Inr (rejectProposal headerNumber s1 p))
               (\<lambda>s2. Inr (s2\<lparr>Proposals := gdel (Proposals s2) (fst e)\<rparr>)))
          else Inr s)"

definition clearRefund :: "snapshot \<Rightarrow> int \<Rightarrow> snapshot" where
  "clearRefund s headerNumber =
     (let expired = Uint64 headerNumber - proposalRefundExpiredLoopCount * MaxSignerCount (config s)
      in if ghas (ProposalRefund s) expired
         then s\<lparr>ProposalRefund := gdel (ProposalRefund s) expired\<rparr> else s)"

definition calculateProposalResult :: "snapshot \<Rightarrow> int \<Rightarrow> snapshot res" where
  "calculateProposalResult s headerNumber =
     foldM (settleProposal headerNumber) (clearRefund s headerNumber) (Proposals s)"

definition calculateProposalRefund :: "snapshot \<Rightarrow> (address, int) gomap" where
  "calculateProposalRefund s =
     (case gget (ProposalRefund s)
             (Number s - proposalRefundDelayLoopCount * MaxSignerCount (config s)) of
        Some refund \<Rightarrow> refund | None \<Rightarrow> [])"

subsection \<open>What the steps leave alone\<close>

lemma updateSnapshotByProposals_same_votes:
  "same_votes s (updateSnapshotByProposals s ps n)"
  unfolding updateSnapshotByProposals_def
  by (rule same_votes_foldl) (simp add: storeProposal_def same_votes_def)

lemma updateSnapshotByDeclares_same_votes:
  "updateSnapshotByDeclares s ds n = Inr s' \<Longrightarrow> same_votes s s'"
  unfolding updateSnapshotByDeclares_def
  by (erule same_votes_foldM)
    (auto simp: updateDeclare_def same_votes_def split: option.splits if_splits)

lemma acceptProposal_same_votes: "acceptProposal n s p = Inr s' \<Longrightarrow> same_votes s s'"
  by (auto simp: acceptProposal_def same_votes_def Let_def split: option.splits if_splits)

lemma rejectProposal_same_votes: "same_votes s (rejectProposal n s p)"
  by (simp add: rejectProposal_def same_votes_def)

lemma settleProposal_cases:
  assumes "settleProposal n s e = Inr s'"
  obtains p where "deref s (snd e) = Some p" "\<not> proposalDue s n p" "s' = s"
  | p s2 where "deref s (snd e) = Some p" "proposalDue s n p"
      "acceptProposal n (s\<lparr>ProposalRefund :=
         addRefund (ProposalRefund s) (Uint64 n) (Proposer p) (CurrentDeposit p)\<rparr>) p = Inr s2"
      "s' = s2\<lparr>Proposals := gdel (Proposals s2) (fst e)\<rparr>"
  | p s2 where "deref s (snd e) = Some p" "proposalDue s n p"
      "s2 = rejectProposal n (s\<lparr>ProposalRefund :=
         addRefund (ProposalRefund s) (Uint64 n) (Proposer p) (CurrentDeposit p)\<rparr>) p"
      "s' = s2\<lparr>Proposals := gdel (Proposals s2) (fst e)\<rparr>"
proof (cases "deref s (snd e)")
  case None
  with assms show ?thesis by (simp add: settleProposal_def)
next
  case (Some p)
  note eq = assms[unfolded settleProposal_def Some Let_def option.case]
  show ?thesis
  proof (cases "proposalDue s n p")
    case False
    with eq have "s' = s" by simp
    then show ?thesis by (rule that(1)[OF Some False])
  next
    case True
    note eq' = eq[unfolded if_P[OF True]]
    show ?thesis
      using that(2)[OF Some True] that(3)[OF Some True] eq'
      by (simp only: bind_res_eq_Inr sum.inject split: if_splits) blast+
  qed
qed

lemma settleProposal_same_votes:
  assumes "settleProposal n s e = Inr s'"
  shows "same_votes s s'"
  using assms
proof (cases rule: settleProposal_cases)
  case (2 p s2)
  then show ?thesis using acceptProposal_same_votes[OF 2(3)] by simp
next
  case (3 p s2)
  then show ?thesis
    using rejectProposal_same_votes[of "s\<lparr>ProposalRefund :=
      addRefund (ProposalRefund s) (Uint64 n) (Proposer p) (CurrentDeposit p)\<rparr>" n p] by simp
qed simp

lemma calculateProposalResult_same_votes:
  assumes "calculateProposalResult s n = Inr s'"
  shows "same_votes s s'"
proof -
  have "same_votes s (clearRefund s n)"
    by (simp add: clearRefund_def Let_def)
  then show ?thesis
    using same_votes_foldM[OF assms[unfolded calculateProposalResult_def]] settleProposal_same_votes
      same_votes_trans by blast
qed

subsection \<open>Storing proposals\<close>

definition heap_ok :: "snapshot \<Rightarrow> bool" where
  "heap_ok s \<longleftrightarrow> ginv (Proposals s) \<and> (\<forall>e\<in>set (Proposals s). snd e < length (PropHeap s))"

lemma heap_ok_deref: "heap_ok s \<Longrightarrow> e \<in> set (Proposals s) \<Longrightarrow> deref s (snd e) = Some (PropHeap s ! snd e)"
  by (auto simp: heap_ok_def deref_def)

lemma heap_okI:
  "ginv (Proposals s) \<Longrightarrow> (\<And>h ptr. gget (Proposals s) h = Some ptr \<Longrightarrow> ptr < length (PropHeap s)) \<Longrightarrow> heap_ok s"
  by (auto simp: heap_ok_def gget_ginv_iff)

lemma heap_okD: "heap_ok s \<Longrightarrow> gget (Proposals s) h = Some ptr \<Longrightarrow> ptr < length (PropHeap s)"
  using gget_mem by (fastforce simp: heap_ok_def)

lemma writeCell_writeCell [simp]:
  "ptr \<le> length h \<Longrightarrow> writeCell (writeCell h ptr p) ptr q = writeCell h ptr q"
  by (auto simp: writeCell_def)

lemma length_writeCell [simp]:
  "ptr \<le> length h \<Longrightarrow> length (writeCell h ptr p) = max (length h) (Suc ptr)"
  by (auto simp: writeCell_def)

lemma storeProposal_upd:
  "storeProposal ptr n (s\<lparr>PropHeap := h, Proposals := m\<rparr>) p =
    s\<lparr>PropHeap := writeCell h ptr (p\<lparr>ReceivedNumber := n\<rparr>), Proposals := gput m (Prop_Hash p) ptr\<rparr>"
  by (simp add: storeProposal_def)

lemma storeProposals_eq:
  assumes "ptr \<le> length (PropHeap s)" "ps \<noteq> []"
  shows "foldl (storeProposal ptr n) s ps =
    s\<lparr>PropHeap := writeCell (PropHeap s) ptr ((last ps)\<lparr>ReceivedNumber := n\<rparr>),
      Proposals := foldl (\<lambda>m p. gput m (Prop_Hash p) ptr) (Proposals s) ps\<rparr>"
  using assms(2)
proof (induction ps rule: rev_induct)
  case (snoc p ps)
  show ?case
  proof (cases "ps = []")
    case True
    then show ?thesis by (simp only: append_Nil foldl.simps last.simps simp_thms if_True storeProposal_def)
  next
    case False
    note IH = snoc.IH[OF False]
    show ?thesis
      unfolding foldl_append foldl_Cons foldl_Nil IH storeProposal_upd last_snoc
        writeCell_writeCell[OF assms(1)] ..
  qed
qed simp

lemma gget_foldl_put:
  "gget (foldl (\<lambda>m p. gput m (k p) ptr) m ps) h = (if h \<in> k ` set ps then Some ptr else gget m h)"
  by (induction ps arbitrary: m) auto

lemma ginv_foldl_put: "ginv m \<Longrightarrow> ginv (foldl (\<lambda>m p. gput m (k p) (v p)) m ps)"
  by (induction ps arbitrary: m) auto

lemma updateSnapshotByProposals_heap_ok:
  assumes "heap_ok s"
  shows "heap_ok (updateSnapshotByProposals s ps n)"
proof (cases "ps = []")
  case True
  then show ?thesis using assms by (simp add: updateSnapshotByProposals_def)
next
  case False
  show ?thesis
    unfolding updateSnapshotByProposals_def storeProposals_eq[OF order_refl False]
    using assms by (intro heap_okI)
      (auto simp: gget_foldl_put heap_ok_def intro: ginv_foldl_put
        dest: heap_okD[OF assms] split: if_splits)
qed

text \<open>
  What a block's proposals look like afterwards: every hash of the block shows the block's last
  proposal.
\<close>

lemma proposal_at_updateSnapshotByProposals:
  assumes "heap_ok s"
  shows "proposal_at (updateSnapshotByProposals s ps n) h =
    (if h \<in> Prop_Hash ` set ps then Some ((last ps)\<lparr>ReceivedNumber := n\<rparr>) else proposal_at s h)"
proof (cases "ps = []")
  case True
  then show ?thesis by (simp add: updateSnapshotByProposals_def)
next
  case False
  show ?thesis
    unfolding updateSnapshotByProposals_def storeProposals_eq[OF order_refl False]
    by (cases "gget (Proposals s) h")
      (auto simp: proposal_at_def gget_foldl_put deref_def writeCell_def nth_append
        dest: heap_okD[OF assms])
qed

subsection \<open>Declares\<close>

definition declared_once :: "snapshot \<Rightarrow> bool" where
  "declared_once s \<longleftrightarrow> (\<forall>p\<in>set (PropHeap s). distinct (map Declarer (Declares p)))"

lemma updateDeclare_cases:
  assumes "updateDeclare n s d = Inr s'"
  obtains "s' = s"
  | ptr p where "gget (Proposals s) (ProposalHash d) = Some ptr" "deref s ptr = Some p"
      "\<not> declareTooLate s n p" "isCandidate s (Declarer d)"
      "Declarer d \<notin> Declarer ` set (Declares p)"
      "s' = s\<lparr>PropHeap := (PropHeap s)[ptr := p\<lparr>Declares := Declares p @ [d]\<rparr>]\<rparr>"
proof (cases "gget (Proposals s) (ProposalHash d)")
  case None
  with assms that(1) show ?thesis by (simp add: updateDeclare_def)
next
  case (Some ptr)
  note eq = assms[unfolded updateDeclare_def Some option.case]
  show ?thesis
  proof (cases "deref s ptr")
    case None
    with eq show ?thesis by simp
  next
    case (Some p)
    note eq' = eq[unfolded Some option.case]
    let ?A = "declareTooLate s n p \<or> \<not> isCandidate s (Declarer d)"
    let ?B = "Declarer d \<in> Declarer ` set (Declares p)"
    show ?thesis
    proof (cases "?A \<or> ?B")
      case True
      then have "s = s'"
        using eq' by (cases ?A) (simp_all only: if_True if_False simp_thms sum.inject)
      then show ?thesis using that(1) by blast
    next
      case False
      then have AB: "\<not> ?A" "\<not> ?B" by blast+
      note eq'' = eq'[unfolded if_not_P[OF AB(1)] if_not_P[OF AB(2)] sum.inject, symmetric]
      show ?thesis
        using that(2)[OF \<open>gget (Proposals s) (ProposalHash d) = Some ptr\<close> Some _ _ AB(2) eq''] AB(1)
        by blast
    qed
  qed
qed

lemma updateDeclare_heap_ok: "updateDeclare n s d = Inr s' \<Longrightarrow> heap_ok s \<Longrightarrow> heap_ok s'"
  by (erule updateDeclare_cases) (auto simp: heap_ok_def)

lemma updateDeclare_once:
  assumes "updateDeclare n s d = Inr s'" "declared_once s"
  shows "declared_once s'"
  using assms(1)
proof (cases rule: updateDeclare_cases)
  case (2 ptr p)
  have "p \<in> set (PropHeap s)"
    using 2(2) by (auto simp: deref_def split: if_splits)
  then show ?thesis
    using 2 assms(2) by (auto simp: declared_once_def dest!: subsetD[OF set_update_subset_insert])
qed (use assms in simp)

lemma updateDeclare_total:
  assumes "heap_ok s"
  shows "\<exists>s'. updateDeclare n s d = Inr s'"
  using heap_okD[OF assms] by (auto simp: updateDeclare_def deref_def split: option.splits)

lemma updateSnapshotByDeclares_total:
  assumes "heap_ok s" "declared_once s"
  shows "\<exists>s'. updateSnapshotByDeclares s ds n = Inr s' \<and> heap_ok s' \<and> declared_once s'"
  unfolding updateSnapshotByDeclares_def
  by (rule foldM_total[where I = "\<lambda>s. heap_ok s \<and> declared_once s", simplified conj_assoc])
    (use assms updateDeclare_total updateDeclare_heap_ok updateDeclare_once in \<open>blast+\<close>)

subsection \<open>The two-thirds rule\<close>

definition total_stake :: "snapshot \<Rightarrow> int" where
  "total_stake s = gsum (\<lambda>_ x. x) (Tally s)"

definition yes_declarers :: "proposal \<Rightarrow> address set" where
  "yes_declarers p = Declarer ` {d \<in> set (Declares p). Decision d}"

lemma foldl_tally: "foldl (\<lambda>acc (_, tally). acc + tally) a m = a + gsum (\<lambda>_ x. x) m"
  by (induction m arbitrary: a) auto

lemma judegmentStake_eq: "judegmentStake s = 2 * total_stake s div 3"
  by (simp add: judegmentStake_def total_stake_def foldl_tally mult.commute)

lemma yesDeclareStake_list:
  "yesDeclareStake s p =
    (\<Sum>d\<leftarrow>Declares p. if Decision d then gat (\<lambda>_ x. x) (Tally s) (Declarer d) else 0)"
proof -
  have "foldl (\<lambda>acc d. if Decision d
          then (case gget (Tally s) (Declarer d) of Some t \<Rightarrow> acc + t | None \<Rightarrow> acc) else acc) a ds
      = a + (\<Sum>d\<leftarrow>ds. if Decision d then gat (\<lambda>_ x. x) (Tally s) (Declarer d) else 0)"
    for a and ds :: "declare_t list"
    by (induction ds arbitrary: a) (auto simp: gat_def split: option.split)
  then show ?thesis by (simp add: yesDeclareStake_def)
qed

lemma yesDeclareStake_eq:
  assumes "distinct (map Declarer (Declares p))"
  shows "yesDeclareStake s p = (\<Sum>a\<in>yes_declarers p. gat (\<lambda>_ x. x) (Tally s) a)"
proof -
  have "yesDeclareStake s p =
      (\<Sum>d\<in>set (Declares p). if Decision d then gat (\<lambda>_ x. x) (Tally s) (Declarer d) else 0)"
    unfolding yesDeclareStake_list using assms
    by (intro sum_list_distinct_conv_sum_set) (simp add: distinct_map)
  also have "\<dots> = (\<Sum>d\<in>{d \<in> set (Declares p). Decision d}. gat (\<lambda>_ x. x) (Tally s) (Declarer d))"
    by (simp add: sum.If_cases Int_def)
  also have "\<dots> = (\<Sum>a\<in>yes_declarers p. gat (\<lambda>_ x. x) (Tally s) a)"
    unfolding yes_declarers_def using assms
    by (subst sum.reindex) (auto simp: distinct_map inj_on_def)
  finally show ?thesis .
qed

lemma two_thirds: "(y :: int) > 2 * t div 3 \<longleftrightarrow> 3 * y > 2 * t"
  by presburger

subsection \<open>Settling proposals\<close>

definition refund_of :: "snapshot \<Rightarrow> u64 \<Rightarrow> address \<Rightarrow> int" where
  "refund_of s n a = (case gget (ProposalRefund s) n of None \<Rightarrow> 0 | Some m \<Rightarrow> gat (\<lambda>_ x. x) m a)"

definition rent_of :: "proposal \<Rightarrow> int" where
  "rent_of p = (if ProposalType p = proposalTypeRentSideChain then ttc (SCRentFee p) else 0)"

lemma rent_of_nonneg: "0 \<le> rent_of p"
  by (simp add: rent_of_def ttc_def)

lemma refund_of_add:
  "ProposalRefund t = addRefund (ProposalRefund s) n a x \<Longrightarrow>
    refund_of t n' a' = refund_of s n' a' + (if n' = n \<and> a' = a then x else 0)"
  by (auto simp: refund_of_def addRefund_def Let_def gat_def split: option.splits)

lemma refund_of_same: "ProposalRefund t = ProposalRefund s \<Longrightarrow> refund_of t = refund_of s"
  by (simp add: refund_of_def fun_eq_iff)

text \<open>The fields \<open>calculateProposalResult\<close> only reads.\<close>

definition settle_frame :: "snapshot \<Rightarrow> snapshot \<Rightarrow> bool" where
  "settle_frame s t \<longleftrightarrow> PropHeap t = PropHeap s \<and> config t = config s \<and> Tally t = Tally s"

lemma settle_frame_deref:
  "settle_frame s t \<Longrightarrow> deref t = deref s"
  "settle_frame s t \<Longrightarrow> proposalDue t = proposalDue s"
  by (simp_all add: settle_frame_def deref_def proposalDue_def fun_eq_iff)

lemma acceptProposal_effect:
  assumes "acceptProposal n s p = Inr t"
  shows "settle_frame s t \<and> Proposals t = Proposals s \<and>
    (ProposalRefund t = ProposalRefund s \<or>
     ProposalRefund t = addRefund (ProposalRefund s) (Uint64 n) (Proposer p) (rent_of p))"
  using assms
  by (auto simp: acceptProposal_def settle_frame_def rent_of_def Let_def split: option.splits if_splits)

lemma rejectProposal_effect:
  "settle_frame s (rejectProposal n s p)" "Proposals (rejectProposal n s p) = Proposals s"
  "ProposalRefund (rejectProposal n s p) = ProposalRefund s \<or>
   ProposalRefund (rejectProposal n s p) = addRefund (ProposalRefund s) (Uint64 n) (Proposer p) (rent_of p)"
  by (auto simp: rejectProposal_def settle_frame_def rent_of_def)

definition is_due :: "snapshot \<Rightarrow> int \<Rightarrow> nat \<Rightarrow> bool" where
  "is_due s n ptr = (case deref s ptr of None \<Rightarrow> False | Some p \<Rightarrow> proposalDue s n p)"

definition due_sum :: "(proposal \<Rightarrow> int) \<Rightarrow> snapshot \<Rightarrow> int \<Rightarrow> address \<Rightarrow> (hash \<times> nat) list \<Rightarrow> int" where
  "due_sum f s n a es =
     (\<Sum>e\<leftarrow>es. case deref s (snd e) of None \<Rightarrow> 0
        | Some p \<Rightarrow> if proposalDue s n p \<and> Proposer p = a then f p else 0)"

text \<open>A proposal that is not due is left; a due one gets its deposit back and perhaps its rent.\<close>

lemma settleProposal_outcome:
  assumes "settleProposal n s e = Inr t"
  obtains "t = s" "\<not> is_due s n (snd e)"
  | p r where "deref s (snd e) = Some p" "proposalDue s n p" "settle_frame s t"
      "Proposals t = gdel (Proposals s) (fst e)"
      "r = addRefund (ProposalRefund s) (Uint64 n) (Proposer p) (CurrentDeposit p)"
      "ProposalRefund t = r \<or> ProposalRefund t = addRefund r (Uint64 n) (Proposer p) (rent_of p)"
  using assms
proof (cases rule: settleProposal_cases)
  case (1 p)
  then show ?thesis using that(1) by (simp add: is_due_def)
next
  case (2 p s2)
  show ?thesis
    by (rule that(2)[OF 2(1,2) _ _ refl]) (use acceptProposal_effect[OF 2(3)] 2(4) in \<open>auto simp: settle_frame_def\<close>)
next
  case (3 p s2)
  note eff = rejectProposal_effect[where s = "s\<lparr>ProposalRefund :=
    addRefund (ProposalRefund s) (Uint64 n) (Proposer p) (CurrentDeposit p)\<rparr>" and n = n and p = p,
    folded 3(3)]
  show ?thesis
    by (rule that(2)[OF 3(1,2) _ _ refl]) (use eff 3(4) in \<open>auto simp: settle_frame_def\<close>)
qed

lemma settleProposal_frame: "settleProposal n s e = Inr t \<Longrightarrow> settle_frame s t"
  by (erule settleProposal_outcome) (simp_all add: settle_frame_def)

lemma settleProposal_Proposals:
  "settleProposal n s e = Inr t \<Longrightarrow>
    Proposals t = (if is_due s n (snd e) then gdel (Proposals s) (fst e) else Proposals s)"
  by (erule settleProposal_outcome) (simp_all add: is_due_def)

lemma settleProposal_refund:
  assumes "settleProposal n s e = Inr t"
  shows "\<exists>x. 0 \<le> x \<and> x \<le> due_sum rent_of s n a [e] \<and> refund_of t m a =
    refund_of s m a + (if m = Uint64 n then due_sum CurrentDeposit s n a [e] + x else 0)"
  using assms
proof (cases rule: settleProposal_outcome)
  case 1
  then show ?thesis by (intro exI[of _ 0]) (auto simp: due_sum_def is_due_def split: option.splits)
next
  case (2 p r)
  let ?s1 = "s\<lparr>ProposalRefund := r\<rparr>"
  have s1: "refund_of ?s1 m a = refund_of s m a + (if m = Uint64 n \<and> a = Proposer p then CurrentDeposit p else 0)"
    by (rule refund_of_add) (simp add: 2(5))
  have "\<exists>x \<in> {0, rent_of p}. refund_of t m a = refund_of ?s1 m a + (if m = Uint64 n \<and> a = Proposer p then x else 0)"
    using 2(6) refund_of_same[of t ?s1] refund_of_add[of t ?s1] by auto
  then obtain x where "x = 0 \<or> x = rent_of p"
    "refund_of t m a = refund_of ?s1 m a + (if m = Uint64 n \<and> a = Proposer p then x else 0)" by blast
  then show ?thesis
    using s1 2(1,2) rent_of_nonneg[of p]
    by (intro exI[of _ "if a = Proposer p then x else 0"]) (auto simp: due_sum_def)
qed

lemma due_sum_Nil [simp]: "due_sum f s n a [] = 0"
  by (simp add: due_sum_def)

lemma due_sum_Cons: "due_sum f s n a (e # es) = due_sum f s n a [e] + due_sum f s n a es"
  by (simp add: due_sum_def)

lemma settle_frame_due:
  "settle_frame s t \<Longrightarrow> is_due t = is_due s" "settle_frame s t \<Longrightarrow> due_sum f t = due_sum f s"
  by (simp_all add: fun_eq_iff is_due_def due_sum_def settle_frame_deref cong: option.case_cong)

lemma settle_frame_refl [simp]: "settle_frame s s"
  by (simp add: settle_frame_def)

lemma settle_frame_trans: "settle_frame s t \<Longrightarrow> settle_frame t u \<Longrightarrow> settle_frame s u"
  by (simp add: settle_frame_def)

lemma foldM_settle_frame: "foldM (settleProposal n) s es = Inr t \<Longrightarrow> settle_frame s t"
  by (rule foldM_invariant[where I = "settle_frame s"])
    (auto intro: settle_frame_trans settleProposal_frame)

lemma foldM_settle_Proposals:
  assumes "foldM (settleProposal n) s es = Inr t"
  shows "Proposals t = foldl gdel (Proposals s) (map fst (filter (\<lambda>e. is_due s n (snd e)) es))"
  using assms
proof (induction es arbitrary: s)
  case (Cons e es)
  then obtain u where u: "settleProposal n s e = Inr u" "foldM (settleProposal n) u es = Inr t"
    by (auto simp: res_simps)
  show ?case
    using Cons.IH[OF u(2)] settleProposal_Proposals[OF u(1)]
    by (simp add: settle_frame_due(1)[OF settleProposal_frame[OF u(1)]])
qed simp

lemma foldM_settle_refund:
  assumes "foldM (settleProposal n) s es = Inr t"
  shows "\<exists>x. 0 \<le> x \<and> x \<le> due_sum rent_of s n a es \<and> refund_of t m a =
    refund_of s m a + (if m = Uint64 n then due_sum CurrentDeposit s n a es + x else 0)"
  using assms
proof (induction es arbitrary: s)
  case Nil
  then show ?case by (intro exI[of _ 0]) simp
next
  case (Cons e es)
  then obtain u where u: "settleProposal n s e = Inr u" "foldM (settleProposal n) u es = Inr t"
    by (auto simp: res_simps)
  obtain x where x: "0 \<le> x" "x \<le> due_sum rent_of s n a [e]"
    "refund_of u m a = refund_of s m a + (if m = Uint64 n then due_sum CurrentDeposit s n a [e] + x else 0)"
    using settleProposal_refund[OF u(1)] by blast
  obtain y where y: "0 \<le> y" "y \<le> due_sum rent_of s n a es"
    "refund_of t m a = refund_of u m a + (if m = Uint64 n then due_sum CurrentDeposit s n a es + y else 0)"
    using Cons.IH[OF u(2)] settle_frame_due(2)[OF settleProposal_frame[OF u(1)]] by metis
  show ?case
    using x y by (intro exI[of _ "x + y"]) (simp add: due_sum_Cons[of _ _ _ _ e es])
qed

lemma refund_of_clearRefund:
  "refund_of (clearRefund s n) m a =
    (if m = Uint64 n - proposalRefundExpiredLoopCount * MaxSignerCount (config s) then 0
     else refund_of s m a)"
  by (auto simp: clearRefund_def refund_of_def Let_def split: option.split)

lemma clearRefund_frame [simp]:
  "settle_frame s (clearRefund s n)" "Proposals (clearRefund s n) = Proposals s"
  by (simp_all add: clearRefund_def settle_frame_def Let_def)

text \<open>Exactly the due proposals leave the pool, and the others stay as they are.\<close>

lemma calculateProposalResult_Proposals:
  assumes "calculateProposalResult s n = Inr t" "heap_ok s"
  shows "Proposals t = filter (\<lambda>e. \<not> is_due s n (snd e)) (Proposals s) \<and> PropHeap t = PropHeap s"
proof -
  let ?due = "filter (\<lambda>e. is_due s n (snd e)) (Proposals s)"
  have inv: "ginv (Proposals s)" using assms(2) by (simp add: heap_ok_def)
  have key: "fst e \<in> fst ` set ?due \<longleftrightarrow> is_due s n (snd e)" if "e \<in> set (Proposals s)" for e
    using that inv by (force simp: ginv_def distinct_map inj_on_def)
  have "Proposals t = filter (\<lambda>e. fst e \<notin> set (map fst ?due)) (Proposals s)"
    using foldM_settle_Proposals[OF assms(1)[unfolded calculateProposalResult_def]]
    by (simp add: settle_frame_due(1)[OF clearRefund_frame(1)] foldl_gdel_filter)
  also have "\<dots> = filter (\<lambda>e. \<not> is_due s n (snd e)) (Proposals s)"
    using key by (intro filter_cong) auto
  finally show ?thesis
    using settle_frame_trans[OF clearRefund_frame(1) foldM_settle_frame[OF assms(1)[unfolded calculateProposalResult_def]]]
    by (simp add: settle_frame_def)
qed

lemma calculateProposalResult_heap_ok:
  assumes "calculateProposalResult s n = Inr t" "heap_ok s"
  shows "heap_ok t"
  using calculateProposalResult_Proposals[OF assms] assms(2) by (auto simp: heap_ok_def ginv_filter)

lemma calculateProposalResult_once:
  assumes "calculateProposalResult s n = Inr t" "heap_ok s" "declared_once s"
  shows "declared_once t"
  using calculateProposalResult_Proposals[OF assms(1,2)] assms(3) by (simp add: declared_once_def)

lemma calculateProposalResult_refund:
  assumes "calculateProposalResult s n = Inr t"
  shows "\<exists>x. 0 \<le> x \<and> x \<le> due_sum rent_of s n a (Proposals s) \<and>
    refund_of t (Uint64 n) a = refund_of (clearRefund s n) (Uint64 n) a
      + due_sum CurrentDeposit s n a (Proposals s) + x"
  using foldM_settle_refund[OF assms[unfolded calculateProposalResult_def], of a "Uint64 n"]
  by (simp add: settle_frame_due(2)[OF clearRefund_frame(1)] add.assoc)

lemma calculateProposalResult_refund_others:
  assumes "calculateProposalResult s n = Inr t" "m \<noteq> Uint64 n"
  shows "refund_of t m a = refund_of (clearRefund s n) m a"
  using foldM_settle_refund[OF assms(1)[unfolded calculateProposalResult_def], of a m] assms(2) by auto

subsection \<open>Settling does not fail\<close>

definition rents_ok :: "snapshot \<Rightarrow> bool" where
  "rents_ok s \<longleftrightarrow> (\<forall>p\<in>set (PropHeap s). ProposalType p = proposalTypeRentSideChain \<longrightarrow> SCRentLength p \<noteq> 0)"

lemma acceptProposal_total:
  assumes "ProposalType p = proposalTypeRentSideChain \<longrightarrow> SCRentLength p \<noteq> 0"
  shows "\<exists>t. acceptProposal n s p = Inr t"
  using assms by (auto simp: acceptProposal_def Let_def split: option.split)

lemma settleProposal_total:
  assumes "snd e < length (PropHeap s)" "rents_ok s"
  shows "\<exists>t. settleProposal n s e = Inr t"
proof -
  define p where "p = PropHeap s ! snd e"
  have p: "deref s (snd e) = Some p" "ProposalType p = proposalTypeRentSideChain \<longrightarrow> SCRentLength p \<noteq> 0"
    using assms by (auto simp: deref_def rents_ok_def p_def)
  obtain u where "acceptProposal n (s\<lparr>ProposalRefund :=
      addRefund (ProposalRefund s) (Uint64 n) (Proposer p) (CurrentDeposit p)\<rparr>) p = Inr u"
    using acceptProposal_total[OF p(2)] by blast
  then show ?thesis by (simp add: settleProposal_def p(1) Let_def)
qed

lemma calculateProposalResult_total:
  assumes "heap_ok s" "rents_ok s"
  shows "\<exists>t. calculateProposalResult s n = Inr t"
proof -
  have "\<exists>t. foldM (settleProposal n) (clearRefund s n) (Proposals s) = Inr t \<and> PropHeap t = PropHeap s"
  proof (rule foldM_total[where I = "\<lambda>t :: snapshot. PropHeap t = PropHeap s"])
    fix u :: snapshot and e assume "e \<in> set (Proposals s)" "PropHeap u = PropHeap s"
    then have "\<exists>t. settleProposal n u e = Inr t"
      using assms by (intro settleProposal_total) (auto simp: heap_ok_def rents_ok_def)
    then show "\<exists>t. settleProposal n u e = Inr t \<and> PropHeap t = PropHeap s"
      using settleProposal_frame \<open>PropHeap u = PropHeap s\<close> by (metis settle_frame_def)
  qed (use clearRefund_frame(1)[of s n] in \<open>simp add: settle_frame_def\<close>)
  then show ?thesis by (auto simp: calculateProposalResult_def)
qed

subsection \<open>Properties\<close>

text \<open>A snapshot with one due proposal, declared for by the only candidate.\<close>

definition sample_vote_on_proposal :: snapshot where
  "sample_vote_on_proposal = sample_snapshot\<lparr>Tally := [(9, 30)], Proposals := [(1, 0)],
     PropHeap := [sample_proposal\<lparr>Declares := [\<lparr>ProposalHash = 1, Declarer = 9, Decision = True\<rparr>]\<rparr>]\<rparr>"

lemma sample_vote_on_proposal_ok:
  "heap_ok sample_vote_on_proposal" "declared_once sample_vote_on_proposal" "rents_ok sample_vote_on_proposal"
  by (simp_all add: sample_vote_on_proposal_def sample_defs heap_ok_def declared_once_def rents_ok_def ginv_def
      sample_proposal_def proposal_type_defs)



text \<open>
  C19.  Settling: on a well-formed heap whose rent proposals have a positive length,
  \<open>calculateProposalResult\<close> does not panic; exactly the due proposals are removed; and the refund
  booked for an address under this block is what was there, plus the deposits of its due proposals,
  plus at most their rents.
\<close>

theorem proposals_settled:
  assumes "heap_ok s" "rents_ok s"
  shows "\<exists>t x. calculateProposalResult s n = Inr t
    \<and> Proposals t = filter (\<lambda>e. \<not> is_due s n (snd e)) (Proposals s)
    \<and> 0 \<le> x \<and> x \<le> due_sum rent_of s n a (Proposals s)
    \<and> refund_of t (Uint64 n) a = refund_of (clearRefund s n) (Uint64 n) a
        + due_sum CurrentDeposit s n a (Proposals s) + x"
  using calculateProposalResult_total[OF assms] calculateProposalResult_Proposals[OF _ assms(1)]
    calculateProposalResult_refund by metis

theorem proposals_settled_witness:
  "\<exists>t. calculateProposalResult sample_vote_on_proposal 13 = Inr t \<and> Proposals t = []
    \<and> refund_of t 13 7 = 100"
  using proposals_settled[OF sample_vote_on_proposal_ok(1,3), of 13 7]
  by (auto simp: sample_vote_on_proposal_def sample_defs is_due_def deref_def proposalDue_def due_sum_def
      sample_proposal_def rent_of_def proposal_type_defs refund_of_def clearRefund_def Uint64_def)

text \<open>
  C20.  Proposals of one block share one cell: \<open>updateSnapshotByProposals\<close> stores the address of the
  loop variable, so afterwards every proposal hash of the block refers to the last proposal of the
  block; older proposals are untouched.
\<close>

theorem proposals_share_cell:
  assumes "heap_ok s"
  shows "proposal_at (updateSnapshotByProposals s ps n) h =
    (if h \<in> Prop_Hash ` set ps then Some ((last ps)\<lparr>ReceivedNumber := n\<rparr>) else proposal_at s h)"
  by (rule proposal_at_updateSnapshotByProposals[OF assms])

theorem proposals_share_cell_witness:
  "proposal_at (updateSnapshotByProposals sample_snapshot
      [sample_proposal, sample_proposal\<lparr>Prop_Hash := 2, ProposalType := 4\<rparr>] 5) 1 =
    Some (sample_proposal\<lparr>Prop_Hash := 2, ProposalType := 4, ReceivedNumber := 5\<rparr>)"
proof -
  have "heap_ok sample_snapshot" by (simp add: heap_ok_def sample_defs)
  from proposals_share_cell[OF this, of "[sample_proposal, sample_proposal\<lparr>Prop_Hash := 2, ProposalType := 4\<rparr>]" 5 1]
  show ?thesis by (simp add: sample_proposal_def)
qed

end
