(* ===== verification/Go_Text.thy ===== *)
theory Go_Text
  imports Prelude
begin

text \<open>
  Text handling of the standard library the sources call: \<open>strings.Join\<close>, \<open>strings.Split\<close>,
  \<open>hex.EncodeToString\<close>, \<open>hex.DecodeString\<close> and \<open>(*big.Int).UnmarshalText\<close>.  A Go string is a
  sequence of bytes, here a \<open>string\<close>.
\<close>

subsection \<open>strings\<close>

fun join :: "string \<Rightarrow> string list \<Rightarrow> string" where
  "join sep [] = []"
| "join sep [x] = x"
| "join sep (x # y # ys) = x @ sep @ join sep (y # ys)"

text \<open>\<open>Split\<close> for a separator of one byte.\<close>

fun split_on :: "char \<Rightarrow> string \<Rightarrow> string list" where
  "split_on c [] = [[]]"
| "split_on c (x # xs) =
     (if x = c then [] # split_on c xs
      else (case split_on c xs of [] \<Rightarrow> [[x]] | y # ys \<Rightarrow> (x # y) # ys))"

lemma split_on_nonempty [simp]: "split_on c xs \<noteq> []"
  by (induction xs) (auto split: list.splits)

lemma split_on_no_sep: "c \<notin> set x \<Longrightarrow> split_on c x = [x]"
  by (induction x) auto

lemma split_on_append_sep: "c \<notin> set x \<Longrightarrow> split_on c (x @ c # ys) = x # split_on c ys"
  by (induction x) auto

lemma split_join:
  "xs \<noteq> [] \<Longrightarrow> (\<And>x. x \<in> set xs \<Longrightarrow> c \<notin> set x) \<Longrightarrow> split_on c (join [c] xs) = xs"
  by (induction "[c]" xs rule: join.induct) (auto simp: split_on_no_sep split_on_append_sep)

subsection \<open>encoding/hex\<close>

definition hex_digit :: "nat \<Rightarrow> char" where
  "hex_digit n = ''0123456789abcdef'' ! n"

definition fromHexChar :: "char \<Rightarrow> nat option" where
  "fromHexChar c =
     (let n = of_char c :: nat in
      if 48 \<le> n \<and> n \<le> 57 then Some (n - 48)
      else if 97 \<le> n \<and> n \<le> 102 then Some (n - 87)
      else if 65 \<le> n \<and> n \<le> 70 then Some (n - 55) else None)"

fun EncodeToString :: "byte list \<Rightarrow> string" where
  "EncodeToString [] = []"
| "EncodeToString (b # bs) =
     hex_digit (unat b div 16) # hex_digit (unat b mod 16) # EncodeToString bs"

text \<open>The bytes decoded before the first invalid digit; \<open>common.Hex2Bytes\<close> drops the error.\<close>

fun DecodeString :: "string \<Rightarrow> byte list" where
  "DecodeString (a # b # cs) =
     (case (fromHexChar a, fromHexChar b) of
        (Some x, Some y) \<Rightarrow> of_nat (16 * x + y) # DecodeString cs
      | _ \<Rightarrow> [])"
| "DecodeString _ = []"

lemma fromHexChar_hex_digit: "n < 16 \<Longrightarrow> fromHexChar (hex_digit n) = Some n"
proof -
  have "\<forall>n<16. fromHexChar (hex_digit n) = Some n"
    by (simp add: All_less_Suc numeral_eq_Suc fromHexChar_def hex_digit_def Let_def)
  then show "n < 16 \<Longrightarrow> ?thesis" by blast
qed

lemma unat_byte_less: "unat (b :: byte) < 256"
  by (rule order.strict_trans2[OF unsigned_less]) simp

lemma DecodeString_EncodeToString [simp]: "DecodeString (EncodeToString bs) = bs"
proof (induction bs)
  case (Cons b bs)
  have "unat b div 16 < 16" "unat b mod 16 < 16" using unat_byte_less[of b] by auto
  then show ?case using Cons by (simp add: fromHexChar_hex_digit)
qed simp

lemma length_EncodeToString [simp]: "length (EncodeToString bs) = 2 * length bs"
  by (induction bs) auto

subsection \<open>Reading a big integer\<close>

text \<open>
  \<open>UnmarshalText\<close> reads an optional sign, then digits with the base the prefix gives
  (\<open>0b\<close>, \<open>0o\<close>, \<open>0x\<close>, \<open>0\<close>) and with single underscores between digits; the whole text must be
  used up.  \<open>scan_digits\<close> is the digit loop: it carries the value, the count of digits, whether
  the last byte was a digit (or the prefix), and whether an underscore was misplaced.
\<close>

definition digit_value :: "char \<Rightarrow> nat" where
  "digit_value c =
     (let n = of_char c :: nat in
      if 48 \<le> n \<and> n \<le> 57 then n - 48
      else if 97 \<le> n \<and> n \<le> 122 then n - 87
      else if 65 \<le> n \<and> n \<le> 90 then n - 55 else 63)"

fun scan_digits :: "nat \<Rightarrow> nat \<Rightarrow> nat \<Rightarrow> char \<Rightarrow> bool \<Rightarrow> string \<Rightarrow> (nat \<times> nat \<times> char \<times> bool) option" where
  "scan_digits b v cnt prev inval [] = Some (v, cnt, prev, inval)"
| "scan_digits b v cnt prev inval (c # cs) =
     (if c = CHR ''_'' then scan_digits b v cnt CHR ''_'' (inval \<or> prev \<noteq> CHR ''0'') cs
      else if digit_value c \<ge> b then None
      else scan_digits b (v * b + digit_value c) (Suc cnt) CHR ''0'' inval cs)"

definition scan_nat_from :: "nat \<Rightarrow> char \<Rightarrow> bool \<Rightarrow> string \<Rightarrow> nat option" where
  "scan_nat_from b prev octal cs =
     (case scan_digits b 0 0 prev False cs of
        None \<Rightarrow> None
      | Some (v, cnt, prev', inval) \<Rightarrow>
          if inval \<or> prev' = CHR ''_'' then None
          else if cnt = 0 then (if octal then Some 0 else None)
          else Some v)"

definition scan_nat :: "string \<Rightarrow> nat option" where
  "scan_nat cs =
     (case cs of
        [] \<Rightarrow> None
      | [c] \<Rightarrow> scan_nat_from 10 CHR ''.'' False cs
      | c # d # ds \<Rightarrow>
          if c \<noteq> CHR ''0'' then scan_nat_from 10 CHR ''.'' False cs
          else if d \<in> {CHR ''b'', CHR ''B''} then scan_nat_from 2 CHR ''0'' False ds
          else if d \<in> {CHR ''o'', CHR ''O''} then scan_nat_from 8 CHR ''0'' False ds
          else if d \<in> {CHR ''x'', CHR ''X''} then scan_nat_from 16 CHR ''0'' False ds
          else scan_nat_from 8 CHR ''0'' True (d # ds))"

definition big_UnmarshalText :: "string \<Rightarrow> int option" where
  "big_UnmarshalText cs =
     (case cs of
        [] \<Rightarrow> None
      | c # ds \<Rightarrow>
          if c = CHR ''-'' then map_option (\<lambda>n. - int n) (scan_nat ds)
          else if c = CHR ''+'' then map_option int (scan_nat ds)
          else map_option int (scan_nat cs))"

end
