(* ===== verification/Common_Types.thy ===== *)
theory Common_Types
  imports Go_Text
begin

text \<open>
  Hashes and addresses as bytes and as text: \<open>common/bytes.go\<close>, \<open>common/types.go\<close> and
  \<open>common/hexutil/custom_hex_prefix.go\<close>.  A \<open>Hash\<close> or \<open>Address\<close> is the word its big-endian
  bytes spell.  Keccak-256, which the checksummed form of an address uses, is the parameter
  \<open>keccak\<close>.
\<close>

subsection \<open>Big-endian bytes\<close>

definition be_nat :: "byte list \<Rightarrow> nat" where
  "be_nat bs = foldl (\<lambda>acc b. acc * 256 + unat b) 0 bs"

primrec be_bytes :: "nat \<Rightarrow> nat \<Rightarrow> byte list" where
  "be_bytes 0 x = []"
| "be_bytes (Suc n) x = be_bytes n (x div 256) @ [of_nat (x mod 256)]"

subsection \<open>common/bytes.go\<close>

definition Hex2Bytes :: "string \<Rightarrow> byte list" where
  "Hex2Bytes str = DecodeString str"

definition Bytes2Hex :: "byte list \<Rightarrow> string" where
  "Bytes2Hex d = EncodeToString d"

definition ToHex :: "byte list \<Rightarrow> string" where
  "ToHex b = (let hex = Bytes2Hex b in ''0x'' @ (if hex = [] then ''0'' else hex))"

definition FromHex :: "string \<Rightarrow> byte list" where
  "FromHex s =
     (let s1 = (if length s > 1 \<and> (take 2 s = ''0x'' \<or> take 2 s = ''0X'') then drop 2 s else s);
          s2 = (if length s1 mod 2 = 1 then CHR ''0'' # s1 else s1)
      in Hex2Bytes s2)"

definition hasHexPrefix :: "string \<Rightarrow> bool" where
  "hasHexPrefix str \<longleftrightarrow>
     length str \<ge> 2 \<and> str ! 0 = CHR ''0'' \<and> (str ! 1 = CHR ''x'' \<or> str ! 1 = CHR ''X'')"

definition isHexCharacter :: "char \<Rightarrow> bool" where
  "isHexCharacter c \<longleftrightarrow> (let n = of_char c :: nat in
     (48 \<le> n \<and> n \<le> 57) \<or> (97 \<le> n \<and> n \<le> 102) \<or> (65 \<le> n \<and> n \<le> 70))"

definition isHex :: "string \<Rightarrow> bool" where
  "isHex str \<longleftrightarrow> length str mod 2 = 0 \<and> list_all isHexCharacter str"

definition Hex2BytesFixed :: "string \<Rightarrow> nat \<Rightarrow> byte list" where
  "Hex2BytesFixed str flen =
     (let h = DecodeString str in
      if length h = flen then h
      else if length h > flen then drop (length h - flen) h
      else replicate (flen - length h) 0 @ h)"

definition RightPadBytes :: "byte list \<Rightarrow> nat \<Rightarrow> byte list" where
  "RightPadBytes sl l = (if l \<le> length sl then sl else sl @ replicate (l - length sl) 0)"

definition LeftPadBytes :: "byte list \<Rightarrow> nat \<Rightarrow> byte list" where
  "LeftPadBytes sl l = (if l \<le> length sl then sl else replicate (l - length sl) 0 @ sl)"

subsection \<open>common/hexutil/custom\_hex\_prefix.go\<close>

definition CustomHexPrefix :: string where
  "CustomHexPrefix = ''0x''"

definition PossibleCustomHexPrefixMap :: "string list" where
  "PossibleCustomHexPrefixMap =
     [''0x'', ''0X'', ''t0'', ''t1'', ''t2'', ''t3'', ''t4'', ''t5'', ''t6'', ''t7'', ''t8'', ''t9'',
      ''T0'', ''T1'', ''T2'', ''T3'', ''T4'', ''T5'', ''T6'', ''T7'', ''T8'', ''T9'']"

definition CPToHex :: "string \<Rightarrow> string" where
  "CPToHex s =
     (if length s > length CustomHexPrefix \<and> take 2 s \<in> set PossibleCustomHexPrefixMap
      then ''0x'' @ drop 2 s else s)"

definition HexToCP :: "string \<Rightarrow> string" where
  "HexToCP s =
     (if length s > 2 \<and> (take 2 s = ''0x'' \<or> take 2 s = ''0X'') then CustomHexPrefix @ drop 2 s else s)"

subsection \<open>common/types.go\<close>

definition HashLength :: nat where "HashLength = 32"
definition AddressLength :: nat where "AddressLength = 20"

text \<open>\<open>SetBytes\<close> crops from the left and aligns to the right.\<close>

definition cropLeft :: "nat \<Rightarrow> byte list \<Rightarrow> byte list" where
  "cropLeft n b = (if length b > n then drop (length b - n) b else b)"

definition BytesToHash :: "byte list \<Rightarrow> hash" where
  "BytesToHash b = of_nat (be_nat (cropLeft HashLength b))"

definition BytesToAddress :: "byte list \<Rightarrow> address" where
  "BytesToAddress b = of_nat (be_nat (cropLeft AddressLength b))"

definition Hash_Bytes :: "hash \<Rightarrow> byte list" where
  "Hash_Bytes h = be_bytes HashLength (unat h)"

definition Address_Bytes :: "address \<Rightarrow> byte list" where
  "Address_Bytes a = be_bytes AddressLength (unat a)"

definition HexToHash :: "string \<Rightarrow> hash" where
  "HexToHash s = BytesToHash (FromHex (CPToHex s))"

definition HexToAddress :: "string \<Rightarrow> address" where
  "HexToAddress s = BytesToAddress (FromHex (CPToHex s))"

definition IsHexAddress :: "string \<Rightarrow> bool" where
  "IsHexAddress s =
     (let s1 = CPToHex s; s2 = (if hasHexPrefix s1 then drop 2 s1 else s1)
      in length s2 = 2 * AddressLength \<and> isHex s2)"

definition Hash_Hex :: "hash \<Rightarrow> string" where
  "Hash_Hex h = HexToCP (''0x'' @ EncodeToString (Hash_Bytes h))"

text \<open>One digit of the checksummed form: upper case when the nibble of the digest exceeds 7.\<close>

definition checksumDigit :: "byte list \<Rightarrow> nat \<Rightarrow> char \<Rightarrow> char" where
  "checksumDigit digest i c =
     (let b = unat (digest ! (i div 2)); nib = (if i mod 2 = 0 then b div 16 else b mod 16) in
      if of_char c > (57 :: nat) \<and> nib > 7 then char_of (of_char c - (32 :: nat)) else c)"

definition Address_Hex :: "(string \<Rightarrow> byte list) \<Rightarrow> address \<Rightarrow> string" where
  "Address_Hex keccak a =
     (let unchecksummed = EncodeToString (Address_Bytes a); digest = keccak unchecksummed in
      HexToCP (''0x'' @ map (\<lambda>(i, c). checksumDigit digest i c)
        (zip [0..<length unchecksummed] unchecksummed)))"

subsection \<open>Bytes and words\<close>

lemma be_nat_append [simp]: "be_nat (bs @ [b]) = be_nat bs * 256 + unat b"
  by (simp add: be_nat_def)

lemma length_be_bytes [simp]: "length (be_bytes n x) = n"
  by (induction n arbitrary: x) auto

lemma unat_of_nat_byte: "x < 256 \<Longrightarrow> unat (of_nat x :: byte) = x"
  by (simp add: unat_of_nat)

lemma be_nat_be_bytes: "x < 256 ^ n \<Longrightarrow> be_nat (be_bytes n x) = x"
proof (induction n arbitrary: x)
  case 0
  then show ?case by (simp add: be_nat_def)
next
  case (Suc n)
  have "x div 256 < 256 ^ n" using Suc.prems by (simp add: less_mult_imp_div_less)
  then show ?case using Suc.IH by (simp add: unat_of_nat_byte)
qed

lemma be_bytes_be_nat: "length bs = n \<Longrightarrow> be_bytes n (be_nat bs) = bs"
proof (induction n arbitrary: bs)
  case (Suc n)
  then obtain cs b where "bs = cs @ [b]" "length cs = n"
    by (metis length_Suc_conv_rev)
  moreover have "(be_nat cs * 256 + unat b) div 256 = be_nat cs"
    "(be_nat cs * 256 + unat b) mod 256 = unat b"
    using unat_byte_less[of b] by simp_all
  ultimately show ?case using Suc.IH[of cs] by (simp only: be_bytes.simps be_nat_append) simp
qed simp

lemma be_nat_less: "be_nat bs < 256 ^ length bs"
proof (induction bs rule: rev_induct)
  case (snoc b bs)
  have "be_nat bs * 256 + unat b < (be_nat bs + 1) * 256" using unat_byte_less[of b] by simp
  also have "\<dots> \<le> 256 ^ length bs * 256" using snoc by (intro mult_right_mono) auto
  finally show ?case by (simp add: mult.commute)
qed (simp add: be_nat_def)

lemma BytesToHash_Bytes: "BytesToHash (Hash_Bytes h) = h"
proof -
  have "unat h < 256 ^ 32" by (rule order.strict_trans2[OF unsigned_less]) simp
  then show ?thesis by (simp add: BytesToHash_def Hash_Bytes_def cropLeft_def HashLength_def be_nat_be_bytes)
qed

lemma BytesToAddress_Bytes: "BytesToAddress (Address_Bytes a) = a"
proof -
  have "unat a < 256 ^ 20" by (rule order.strict_trans2[OF unsigned_less]) simp
  then show ?thesis
    by (simp add: BytesToAddress_def Address_Bytes_def cropLeft_def AddressLength_def be_nat_be_bytes)
qed

subsection \<open>Text\<close>

lemma FromHex_prefixed:
  "even (length s) \<Longrightarrow> FromHex (''0x'' @ s) = DecodeString s"
  by (simp add: FromHex_def Hex2Bytes_def Let_def even_iff_mod_2_eq_zero)

lemma CPToHex_prefixed: "s \<noteq> [] \<Longrightarrow> CPToHex (''0x'' @ s) = ''0x'' @ s"
  by (simp add: CPToHex_def CustomHexPrefix_def PossibleCustomHexPrefixMap_def)

lemma HexToCP_prefixed: "s \<noteq> [] \<Longrightarrow> HexToCP (''0x'' @ s) = ''0x'' @ s"
  by (simp add: HexToCP_def CustomHexPrefix_def)

lemma HexToHash_Hex: "HexToHash (Hash_Hex h) = h"
proof -
  let ?s = "EncodeToString (Hash_Bytes h)"
  have len: "length ?s = 64" by (simp add: Hash_Bytes_def HashLength_def)
  have s: "?s \<noteq> []" "even (length ?s)" unfolding length_0_conv[symmetric] len by simp_all
  show ?thesis
    unfolding HexToHash_def Hash_Hex_def HexToCP_prefixed[OF s(1)] CPToHex_prefixed[OF s(1)]
      FromHex_prefixed[OF s(2)] DecodeString_EncodeToString BytesToHash_Bytes ..
qed

text \<open>Decoding does not see the case of a digit, so the checksum does not change the address.\<close>

lemma DecodeString_cong:
  "map fromHexChar s = map fromHexChar t \<Longrightarrow> DecodeString s = DecodeString t"
proof (induction s arbitrary: t rule: DecodeString.induct)
  case (1 a b cs)
  then obtain a' b' cs' where "t = a' # b' # cs'" "fromHexChar a = fromHexChar a'"
    "fromHexChar b = fromHexChar b'" "map fromHexChar cs = map fromHexChar cs'"
    by (auto simp: map_eq_Cons_conv Cons_eq_map_conv)
  then show ?case using 1(1)[of _ _ _ _ cs'] by (auto split: option.splits)
qed auto

lemma set_EncodeToString: "c \<in> set (EncodeToString bs) \<Longrightarrow> \<exists>n<16. c = hex_digit n"
proof (induction bs)
  case (Cons b bs)
  have "unat b div 16 < 16" "unat b mod 16 < 16" using unat_byte_less[of b] by auto
  moreover have "c = hex_digit (unat b div 16) \<or> c = hex_digit (unat b mod 16) \<or> c \<in> set (EncodeToString bs)"
    using Cons.prems by simp
  ultimately show ?case using Cons.IH by blast
qed simp

lemma checksumDigit_hex_digit:
  assumes "n < 16"
  shows "fromHexChar (checksumDigit d i (hex_digit n)) = Some n"
proof -
  have "n < 10 \<or> n = 10 \<or> n = 11 \<or> n = 12 \<or> n = 13 \<or> n = 14 \<or> n = 15"
    using assms by linarith
  moreover have "\<not> of_char (hex_digit n) > (57 :: nat)" if "n < 10"
  proof -
    have "\<forall>n<10. \<not> of_char (hex_digit n) > (57 :: nat)"
      by (simp add: All_less_Suc numeral_eq_Suc hex_digit_def)
    then show ?thesis using that by blast
  qed
  ultimately have "of_char (hex_digit n) > (57 :: nat) \<longrightarrow>
      fromHexChar (char_of (of_char (hex_digit n) - (32 :: nat))) = Some n"
    by (elim disjE) (simp_all add: hex_digit_def fromHexChar_def)
  then show ?thesis
    using fromHexChar_hex_digit[OF assms] unfolding checksumDigit_def Let_def by presburger
qed

definition checksum :: "byte list \<Rightarrow> string \<Rightarrow> string" where
  "checksum d s = map (\<lambda>(i, c). checksumDigit d i c) (zip [0..<length s] s)"

lemma length_checksum [simp]: "length (checksum d s) = length s"
  by (simp add: checksum_def)

lemma fromHexChar_checksum:
  "map fromHexChar (checksum d (EncodeToString bs)) = map fromHexChar (EncodeToString bs)"
proof (rule nth_equalityI)
  fix i assume i: "i < length (map fromHexChar (checksum d (EncodeToString bs)))"
  then obtain n where "n < 16" "EncodeToString bs ! i = hex_digit n"
    using set_EncodeToString[OF nth_mem] by auto
  then show "map fromHexChar (checksum d (EncodeToString bs)) ! i = map fromHexChar (EncodeToString bs) ! i"
    using i by (simp add: checksum_def checksumDigit_hex_digit fromHexChar_hex_digit)
qed simp

lemma Address_Hex_eq:
  "Address_Hex keccak a = ''0x'' @ checksum (keccak (EncodeToString (Address_Bytes a))) (EncodeToString (Address_Bytes a))"
proof -
  let ?s = "checksum (keccak (EncodeToString (Address_Bytes a))) (EncodeToString (Address_Bytes a))"
  have "length ?s = 40" by (simp add: Address_Bytes_def AddressLength_def)
  then have "?s \<noteq> []" by (metis length_0_conv zero_neq_numeral)
  then show ?thesis
    unfolding Address_Hex_def Let_def checksum_def[symmetric] by (rule HexToCP_prefixed)
qed

lemma HexToAddress_Hex: "HexToAddress (Address_Hex keccak a) = a"
proof -
  let ?e = "EncodeToString (Address_Bytes a)"
  let ?s = "checksum (keccak ?e) ?e"
  have len: "length ?s = 40" by (simp add: Address_Bytes_def AddressLength_def)
  have s: "?s \<noteq> []" "even (length ?s)" unfolding length_0_conv[symmetric] len by simp_all
  have "DecodeString ?s = Address_Bytes a"
    using DecodeString_cong[OF fromHexChar_checksum] by simp
  then show ?thesis
    unfolding HexToAddress_def Address_Hex_eq CPToHex_prefixed[OF s(1)] FromHex_prefixed[OF s(2)]
    by (simp add: BytesToAddress_Bytes)
qed

lemma isHexCharacter_iff: "isHexCharacter c \<longleftrightarrow> fromHexChar c \<noteq> None"
  by (auto simp: isHexCharacter_def fromHexChar_def Let_def)

lemma IsHexAddress_Hex: "IsHexAddress (Address_Hex keccak a)"
proof -
  let ?e = "EncodeToString (Address_Bytes a)"
  let ?s = "checksum (keccak ?e) ?e"
  have len: "length ?s = 40" by (simp add: Address_Bytes_def AddressLength_def)
  have s: "?s \<noteq> []" unfolding length_0_conv[symmetric] len by simp
  have "\<forall>x \<in> set (map fromHexChar ?s). x \<noteq> None"
    unfolding fromHexChar_checksum using set_EncodeToString fromHexChar_hex_digit by fastforce
  then have "list_all isHexCharacter ?s" by (auto simp: list_all_iff isHexCharacter_iff)
  then show ?thesis
    unfolding IsHexAddress_def Address_Hex_eq CPToHex_prefixed[OF s]
    using len by (simp add: hasHexPrefix_def isHex_def AddressLength_def Let_def)
qed

subsection \<open>Properties\<close>

text \<open>
  Addresses and hashes survive their text form: parsing what \<open>Hex\<close> prints gives the value back,
  the checksummed form of an address is accepted by \<open>IsHexAddress\<close>, and this whatever the hash
  function that picks the letter case.
\<close>

lemma hex_roundtrip:
  "HexToAddress (Address_Hex keccak a) = a \<and> IsHexAddress (Address_Hex keccak a) \<and> HexToHash (Hash_Hex h) = h"
  by (simp add: HexToAddress_Hex IsHexAddress_Hex HexToHash_Hex)

end
