(* ===== verification/Alien_SideChain.thy ===== *)
theory Alien_SideChain
  imports Alien_Types Common_Types
begin

text \<open>
  Side chains as the main chain sees them (\<open>consensus/alien/snapshot.go\<close>): the coinbases signers
  register for a side chain, the confirmations of side chain blocks and the reward scores they
  give, the notices of gas charging, and the charging notices a side chain keeps itself.

  A \<open>range\<close> loop over a map the function has just built meets its entries in insertion order
  here.  Every map of a snapshot is iterated in the order of its list, whatever that is.
\<close>

subsection \<open>Coinbases of side chains\<close>

definition setSCCoinbase :: "snapshot \<Rightarrow> sc_set_coinbase \<Rightarrow> snapshot" where
  "setSCCoinbase s scc =
     (let m = (case gget (SCCoinbase s) (SSC_Signer scc) of None \<Rightarrow> [] | Some m \<Rightarrow> m)
      in s\<lparr>SCCoinbase := gput (SCCoinbase s) (SSC_Signer scc) (gput m (SSC_Hash scc) (SSC_Coinbase scc))\<rparr>)"

definition updateSnapshotBySetSCCoinbase :: "snapshot \<Rightarrow> sc_set_coinbase list \<Rightarrow> snapshot" where
  "updateSnapshotBySetSCCoinbase s scCoinbases = foldl setSCCoinbase s scCoinbases"

definition isSideChainCoinbase :: "snapshot \<Rightarrow> hash \<Rightarrow> address \<Rightarrow> bool \<Rightarrow> bool" where
  "isSideChainCoinbase s sc a realtime =
     (if realtime then
        list_ex (\<lambda>signer. case gget (SCCoinbase s) signer of
                            None \<Rightarrow> False | Some m \<Rightarrow> gget m sc = Some a) (Signers s)
      else list_ex (\<lambda>(_, m). gget m sc = Some a) (SCCoinbase s))"

subsection \<open>Counting loops on uint64\<close>

text \<open>
  \<open>for i := lo; i <= hi; i++\<close>.  When \<open>hi\<close> is the largest \<open>uint64\<close> the test never fails: after
  the first pass the counter wraps and the loop goes on for ever.
\<close>

definition forUpto :: "u64 \<Rightarrow> u64 \<Rightarrow> ('s \<Rightarrow> u64 \<Rightarrow> 's res) \<Rightarrow> 's \<Rightarrow> 's res" where
  "forUpto lo hi body st =
     bind_res (foldM body st (map of_nat [unat lo..<Suc (unat hi)]))
       (\<lambda>st'. if hi = - 1 then Inl NotTerminating else Inr st')"

definition getOr :: "'v \<Rightarrow> ('k, 'v) gomap \<Rightarrow> 'k \<Rightarrow> 'v" where
  "getOr d m k = (case gget m k of None \<Rightarrow> d | Some v \<Rightarrow> v)"

subsection \<open>Confirmations of side chain blocks\<close>

definition noteConfirm ::
  "int \<Rightarrow> u64 \<times> (string, (address, bool) gomap) gomap \<Rightarrow> sc_confirmation \<Rightarrow>
   (u64 \<times> (string, (address, bool) gomap) gomap) res" where
  "noteConfirm minConfirmed st scConfirm =
     (case st of (confirmedNumber, confirmedRecordMap) \<Rightarrow>
      if int (length (LoopInfo scConfirm)) \<ge> wrap_int (minConfirmed * 2) then
        (let key = join '':'' (LoopInfo scConfirm);
             who = getOr [] confirmedRecordMap key;
             confirmedRecordMap1 = gput confirmedRecordMap key who
         in if \<not> ghas who (SCC_Coinbase scConfirm) then
              (let who' = gput who (SCC_Coinbase scConfirm) True;
                   confirmedRecordMap2 = gput confirmedRecordMap key who'
               in if int (length who') \<ge> minConfirmed then
                    bind_res (go_nth (LoopInfo scConfirm) (int (length (LoopInfo scConfirm)) - 2))
                      (\<lambda>txt. Inr
                        (case big_UnmarshalText txt of
                           Some h \<Rightarrow> (if Uint64 h > confirmedNumber then Uint64 h else confirmedNumber)
                         | None \<Rightarrow> confirmedNumber, confirmedRecordMap2))
                  else Inr (confirmedNumber, confirmedRecordMap2))
            else Inr (confirmedNumber, confirmedRecordMap1))
      else Inr st)"

fun coinbasePairs :: "string list \<Rightarrow> (u64, address) gomap \<Rightarrow> (u64, address) gomap" where
  "coinbasePairs (n # c # rest) m =
     coinbasePairs rest
       (case big_UnmarshalText n of Some h \<Rightarrow> gput m (Uint64 h) (HexToAddress c) | None \<Rightarrow> m)"
| "coinbasePairs _ m = m"

definition confirmedCoinbases ::
  "int \<Rightarrow> (string, (address, bool) gomap) gomap \<Rightarrow> (u64, address) gomap" where
  "confirmedCoinbases minConfirmed confirmedRecordMap =
     foldl (\<lambda>m (info, confirm). if int (length confirm) \<ge> minConfirmed
              then coinbasePairs (split_on CHR '':'' info) m else m) [] confirmedRecordMap"

text \<open>The search back to the block before the run of the last coinbase.\<close>

function alignLoop :: "address \<Rightarrow> (u64, address) gomap \<Rightarrow> u64 \<Rightarrow> u64 \<Rightarrow> u64 \<Rightarrow> u64" where
  "alignLoop lastCoinbase m lim i confirmedNumber =
     (if i > lim then
        (if lastCoinbase \<noteq> getOr 0 m i then i
         else alignLoop lastCoinbase m lim (i - 1) confirmedNumber)
      else confirmedNumber)"
  by pat_completeness auto

termination alignLoop
  by (relation "measure (\<lambda>(_, _, _, i, _). unat i)") (auto simp: u64_pred_less)

declare alignLoop.simps [simp del]

definition alignConfirmed :: "sc_record \<Rightarrow> u64 \<Rightarrow> (u64, address) gomap \<Rightarrow> u64 \<times> (u64, address) gomap" where
  "alignConfirmed r confirmedNumber confirmedCoinbase =
     (if CountPerPeriod r > 1 \<and> confirmedNumber > LastConfirmedNumber r then
        (case gget confirmedCoinbase confirmedNumber of
           None \<Rightarrow> (confirmedNumber, confirmedCoinbase)
         | Some lastConfirmedCoinbase \<Rightarrow>
             let c = alignLoop lastConfirmedCoinbase confirmedCoinbase
                       (confirmedNumber - CountPerPeriod r) (confirmedNumber - 1) confirmedNumber
             in (c, foldl gdel confirmedCoinbase
                      (map of_nat [unat (c + 1)..<unat (c + CountPerPeriod r)])))
      else (confirmedNumber, confirmedCoinbase))"

definition calculateSCConfirmedNumber :: "sc_record \<Rightarrow> int \<Rightarrow> (u64 \<times> (u64, address) gomap) res" where
  "calculateSCConfirmedNumber r minConfirmed =
     bind_res
       (forUpto (LastConfirmedNumber r + 1) (MaxHeaderNumber r)
          (\<lambda>st i. case gget (Record r) i of
                    Some confs \<Rightarrow> foldM (noteConfirm minConfirmed) st confs | None \<Rightarrow> Inr st)
          (LastConfirmedNumber r, []))
       (\<lambda>st. Inr (alignConfirmed r (fst st) (confirmedCoinbases minConfirmed (snd st))))"

definition SCCurrentBlockReward :: "(u64, (u64, u64) gomap) gomap" where
  "SCCurrentBlockReward =
     [(1, [(1, 100)]),
      (2, [(1, 30), (2, 70)]),
      (3, [(1, 15), (2, 30), (3, 55)]),
      (4, [(1, 5), (2, 15), (3, 30), (4, 50)]),
      (5, [(1, 5), (2, 10), (3, 15), (4, 25), (5, 45)]),
      (6, [(1, 1), (2, 4), (3, 10), (4, 15), (5, 25), (6, 45)])]"

definition calculateCurrentBlockReward :: "u64 \<Rightarrow> u64 \<Rightarrow> u64" where
  "calculateCurrentBlockReward currentCount periodCount =
     (let p = (if periodCount > scMaxCountPerPeriod then scMaxCountPerPeriod else periodCount)
      in getOr 0 (getOr [] SCCurrentBlockReward p) currentCount)"

definition scoreStep ::
  "u64 \<Rightarrow> (u64, address) gomap \<Rightarrow> (address, u64) gomap \<times> address \<times> u64 \<Rightarrow> u64 \<Rightarrow>
   (address, u64) gomap \<times> address \<times> u64" where
  "scoreStep countPerPeriod confirmedCoinbase st n =
     (case st of (score, lastSCCoinbase, cnt) \<Rightarrow>
      (case gget confirmedCoinbase n of
         None \<Rightarrow> st
       | Some scCoinbase \<Rightarrow>
           let cnt' = (if lastSCCoinbase \<noteq> scCoinbase then 1 else cnt + 1);
               r = calculateCurrentBlockReward cnt' countPerPeriod
           in (gput score scCoinbase
                 (case gget score scCoinbase of None \<Rightarrow> r | Some x \<Rightarrow> x + r), scCoinbase, cnt')))"

definition ensureSCReward :: "snapshot \<Rightarrow> hash \<Rightarrow> snapshot" where
  "ensureSCReward s scHash =
     (if ghas (SCRewardMap s) scHash then s
      else s\<lparr>SCRewardMap := gput (SCRewardMap s) scHash \<lparr>SCBlockRewardMap = []\<rparr>\<rparr>)"

definition installSCConfirm ::
  "snapshot \<Rightarrow> hash \<Rightarrow> sc_record \<Rightarrow> int \<Rightarrow> (address, u64) gomap \<Rightarrow> snapshot" where
  "installSCConfirm s scHash record' headerNumber score =
     (let s2 = s\<lparr>SCRecordMap := gput (SCRecordMap s) scHash record'\<rparr>;
          rw = getOr \<lparr>SCBlockRewardMap = []\<rparr> (SCRewardMap s2) scHash
      in if score \<noteq> [] then
           s2\<lparr>SCRewardMap := gput (SCRewardMap s2) scHash
             (rw\<lparr>SCBlockRewardMap := gput (SCBlockRewardMap rw) (Uint64 headerNumber)
                \<lparr>RewardScoreMap = score\<rparr>\<rparr>)\<rparr>
         else s2)"

definition confirmSideChain :: "int \<Rightarrow> int \<Rightarrow> snapshot \<Rightarrow> hash \<times> sc_record \<Rightarrow> snapshot res" where
  "confirmSideChain minConfirmed headerNumber s e =
     (case e of (scHash, record) \<Rightarrow>
      let s1 = ensureSCReward s scHash
      in bind_res (calculateSCConfirmedNumber record minConfirmed)
        (\<lambda>(confirmedNumber, confirmedCoinbase).
          if confirmedNumber > LastConfirmedNumber record then
            bind_res (forUpto (LastConfirmedNumber record + 1) confirmedNumber
                (\<lambda>st n. Inr (scoreStep (CountPerPeriod record) confirmedCoinbase st n)) ([], 0, 0))
              (\<lambda>(score, _, _).
            bind_res (forUpto (LastConfirmedNumber record + 1) confirmedNumber
                (\<lambda>m i. Inr (if ghas m i then gdel m i else m)) (Record record))
              (\<lambda>pending. Inr (installSCConfirm s1 scHash
                 (record\<lparr>Record := pending, LastConfirmedNumber := confirmedNumber\<rparr>) headerNumber score)))
          else Inr s1))"

text \<open>Expired rewards go, and with the last of them the side chain's entry.\<close>

definition clearSCReward :: "snapshot \<Rightarrow> int \<Rightarrow> snapshot" where
  "clearSCReward s headerNumber =
     (let limit = Uint64 headerNumber - scRewardExpiredLoopCount * MaxSignerCount (config s) in
      s\<lparr>SCRewardMap := filter (\<lambda>(_, rw). SCBlockRewardMap rw \<noteq> [])
          (map (\<lambda>(h, rw). (h, rw\<lparr>SCBlockRewardMap :=
              filter (\<lambda>(number, _). \<not> number < limit) (SCBlockRewardMap rw)\<rparr>)) (SCRewardMap s))\<rparr>)"

definition updateSCConfirmation :: "snapshot \<Rightarrow> int \<Rightarrow> snapshot res" where
  "updateSCConfirmation s headerNumber =
     bind_res (foldM (confirmSideChain (go_int (2 * MaxSignerCount (config s) div 3)) headerNumber) s (SCRecordMap s))
       (\<lambda>s'. Inr (clearSCReward s' headerNumber))"

definition checkSCRecord :: "snapshot \<Rightarrow> int \<Rightarrow> sc_record \<Rightarrow> sc_record" where
  "checkSCRecord s headerNumber r =
     (let limit = Uint64 headerNumber - scRewardExpiredLoopCount * MaxSignerCount (config s);
          r1 = r\<lparr>RentReward := filter (\<lambda>(_, info). \<not> Uint64 (MaxRewardNumber info) < limit) (RentReward r)\<rparr>
      in if length (Record r) > scMaxConfirmedRecordLength
         then r1\<lparr>Record := [], LastConfirmedNumber := 0, MaxHeaderNumber := 0\<rparr> else r1)"

definition checkSCConfirmation :: "snapshot \<Rightarrow> int \<Rightarrow> snapshot" where
  "checkSCConfirmation s headerNumber =
     s\<lparr>SCRecordMap := map (\<lambda>(h, r). (h, checkSCRecord s headerNumber r)) (SCRecordMap s)\<rparr>"

definition recordSCConfirm :: "snapshot \<Rightarrow> sc_confirmation \<Rightarrow> snapshot" where
  "recordSCConfirm s scc =
     (if isSideChainCoinbase s (SCC_Hash scc) (SCC_Coinbase scc) False then
        (case gget (SCRecordMap s) (SCC_Hash scc) of
           None \<Rightarrow> s
         | Some r \<Rightarrow>
             if SCC_Number scc > LastConfirmedNumber r then
               s\<lparr>SCRecordMap := gput (SCRecordMap s) (SCC_Hash scc)
                 (r\<lparr>Record := gput (Record r) (SCC_Number scc) (getOr [] (Record r) (SCC_Number scc) @ [scc]),
                    MaxHeaderNumber := (if SCC_Number scc > MaxHeaderNumber r
                                        then SCC_Number scc else MaxHeaderNumber r)\<rparr>)\<rparr>
             else s)
      else s)"

definition loopEnd :: "snapshot \<Rightarrow> int \<Rightarrow> bool res" where
  "loopEnd s headerNumber =
     bind_res (u64_mod (Uint64 headerNumber + 1) (MaxSignerCount (config s))) (\<lambda>r. Inr (r = 0))"

definition updateSnapshotBySCConfirm :: "snapshot \<Rightarrow> sc_confirmation list \<Rightarrow> int \<Rightarrow> snapshot res" where
  "updateSnapshotBySCConfirm s scConfirmations headerNumber =
     (let s1 = foldl recordSCConfirm s scConfirmations in
      bind_res (loopEnd s1 headerNumber)
        (\<lambda>atEnd. if atEnd then updateSCConfirmation (checkSCConfirmation s1 headerNumber) headerNumber
                 else Inr s1))"

subsection \<open>Notices of gas charging\<close>

definition noticeHashConfirm :: "address \<Rightarrow> cc_notice \<Rightarrow> string \<Rightarrow> cc_notice" where
  "noticeHashConfirm coinbase nt strHash =
     (let noticeHash = HexToHash strHash in
      if ghas (CurrentCharging nt) noticeHash then
        (let cr = getOr \<lparr>NRecord = [], NCR_Number = 0, NCR_Type = noticeTypeGasCharging, Success = False\<rparr>
                    (ConfirmReceived nt) noticeHash
         in nt\<lparr>ConfirmReceived := gput (ConfirmReceived nt) noticeHash
                 (cr\<lparr>NRecord := gput (NRecord cr) coinbase True\<rparr>)\<rparr>)
      else nt)"

definition noticeConfirm :: "snapshot \<Rightarrow> sc_confirmation \<Rightarrow> snapshot" where
  "noticeConfirm s nc =
     (if \<not> isSideChainCoinbase s (SCC_Hash nc) (SCC_Coinbase nc) True then s
      else (case gget (SCNoticeMap s) (SCC_Hash nc) of
              None \<Rightarrow> s
            | Some nt \<Rightarrow> s\<lparr>SCNoticeMap := gput (SCNoticeMap s) (SCC_Hash nc)
                (foldl (noticeHashConfirm (SCC_Coinbase nc)) nt (LoopInfo nc))\<rparr>))"

text \<open>
  One entry of \<open>ConfirmReceived\<close> at the end of a loop: enough confirmations mark it successful
  with the block number; a record that was successful before and is old enough is removed.
\<close>

definition settleNotice :: "int \<Rightarrow> u64 \<Rightarrow> u64 \<Rightarrow> u64 \<Rightarrow> cc_notice \<Rightarrow> hash \<times> notice_cr \<Rightarrow> cc_notice" where
  "settleNotice needed now limit newType nt e =
     (case e of (noticeHash, cr) \<Rightarrow>
      let nt1 = (if int (length (NRecord cr)) \<ge> needed \<and> \<not> Success cr
                 then nt\<lparr>ConfirmReceived := gput (ConfirmReceived nt) noticeHash
                   \<lparr>NRecord = NRecord cr, NCR_Number = now, NCR_Type = newType, Success = True\<rparr>\<rparr>
                 else nt)
      in if Success cr \<and> NCR_Number cr < limit
         then nt1\<lparr>CurrentCharging := gdel (CurrentCharging nt1) noticeHash,
                  ConfirmReceived := gdel (ConfirmReceived nt1) noticeHash\<rparr>
         else nt1)"

definition neededNotices :: "snapshot \<Rightarrow> int" where
  "neededNotices s = go_int (2 * MaxSignerCount (config s) div 3 + 1)"

definition settleSCNotice :: "snapshot \<Rightarrow> int \<Rightarrow> cc_notice \<Rightarrow> cc_notice" where
  "settleSCNotice s headerNumber nt =
     foldl (\<lambda>n e. settleNotice (neededNotices s) (Uint64 headerNumber)
              (Uint64 headerNumber - MaxSignerCount (config s) * mcNoticeClearDelayLoopCount)
              (NCR_Type (snd e)) n e) nt (ConfirmReceived nt)"

definition updateSnapshotByNoticeConfirm :: "snapshot \<Rightarrow> sc_confirmation list \<Rightarrow> int \<Rightarrow> snapshot res" where
  "updateSnapshotByNoticeConfirm s scNoticeConfirmed headerNumber =
     (let s1 = foldl noticeConfirm s scNoticeConfirmed in
      bind_res (loopEnd s1 headerNumber)
        (\<lambda>atEnd. Inr (if atEnd
           then s1\<lparr>SCNoticeMap := map (\<lambda>(h, nt). (h, settleSCNotice s1 headerNumber nt)) (SCNoticeMap s1)\<rparr>
           else s1)))"

definition chargeStep :: "address \<Rightarrow> cc_notice \<Rightarrow> gas_charging \<Rightarrow> cc_notice res" where
  "chargeStep coinbase ln charge =
     (let h = GC_Hash charge;
          ln1 = (if ghas (CurrentCharging ln) h then ln
                 else ln\<lparr>CurrentCharging := gput (CurrentCharging ln) h charge,
                         ConfirmReceived := gput (ConfirmReceived ln) h
                           \<lparr>NRecord = [], NCR_Number = 0, NCR_Type = noticeTypeGasCharging, Success = False\<rparr>\<rparr>)
      in case gget (ConfirmReceived ln1) h of
           None \<Rightarrow> Inl PanicNil
         | Some cr \<Rightarrow> Inr (ln1\<lparr>ConfirmReceived := gput (ConfirmReceived ln1) h
                          (cr\<lparr>NRecord := gput (NRecord cr) coinbase True\<rparr>)\<rparr>))"

definition updateSnapshotBySCCharging :: "snapshot \<Rightarrow> gas_charging list \<Rightarrow> int \<Rightarrow> address \<Rightarrow> snapshot res" where
  "updateSnapshotBySCCharging s scCharging headerNumber coinbase =
     bind_res (foldM (chargeStep coinbase) (LocalNotice s) scCharging)
       (\<lambda>ln. bind_res (loopEnd s headerNumber)
         (\<lambda>atEnd. Inr (s\<lparr>LocalNotice :=
            (if atEnd then
               foldl (settleNotice (neededNotices s) (Uint64 headerNumber)
                  (Uint64 headerNumber - MaxSignerCount (config s) * scNoticeClearDelayLoopCount)
                  noticeTypeGasCharging) ln (ConfirmReceived ln)
             else ln)\<rparr>)))"

subsection \<open>Counting loops\<close>

lemma forUpto_eq_Inr [res_simps]:
  "forUpto lo hi body st = Inr st' \<longleftrightarrow>
    hi \<noteq> - 1 \<and> foldM body st (map of_nat [unat lo..<Suc (unat hi)]) = Inr st'"
  by (auto simp: forUpto_def res_simps split: if_splits)

lemma forUpto_max: "\<exists>e. forUpto lo (- 1) body st = Inl e"
  by (cases "foldM body st (map of_nat [unat lo..<Suc (unat (- 1 :: u64))])") (simp_all add: forUpto_def)

lemma forUpto_del:
  fixes m m' :: "(u64, 'v) gomap"
  assumes "forUpto (l + 1) c (\<lambda>m i. Inr (if ghas m i then gdel m i else m)) m = Inr m'" "l < c"
  shows "m' = filter (\<lambda>e. \<not> (l < fst e \<and> fst e \<le> c)) m"
proof -
  let ?ks = "map of_nat [unat (l + 1)..<Suc (unat c)] :: u64 list"
  have "(if ghas m i then gdel m i else m) = gdel m i" for m :: "(u64, 'v) gomap" and i
    using gdel_notin[of i m] gget_eq_None[of m i] by (cases "gget m i") auto
  moreover have "l \<noteq> - 1" using assms(2) by auto
  ultimately have "m' = filter (\<lambda>e. fst e \<notin> set ?ks) m"
    using assms(1) by (simp only: forUpto_eq_Inr foldM_Inr sum.inject foldl_gdel_filter)
  also have "\<dots> = filter (\<lambda>e. \<not> (l < fst e \<and> fst e \<le> c)) m"
    using \<open>l \<noteq> - 1\<close> by (simp only: u64_of_nat_range_Suc inc_less_eq_iff simp_thms)
  finally show ?thesis .
qed

subsection \<open>Maps with changed values\<close>

lemma gget_map_values: "gget (map (\<lambda>(k, v). (k, f v)) m) k = map_option f (gget m k)"
  by (induction m) (auto simp: gget_def)

lemma ginv_map_values [simp]: "ginv (map (\<lambda>(k, v). (k, f v)) m) \<longleftrightarrow> ginv m"
  by (simp add: ginv_def comp_def case_prod_unfold)

subsection \<open>The records of side chains\<close>

text \<open>
  A pending confirmation is for a block above the last confirmed one and at most
  \<open>MaxHeaderNumber\<close>, which is what the loop of \<open>calculateSCConfirmedNumber\<close> runs over.
\<close>

definition rec_ok :: "sc_record \<Rightarrow> bool" where
  "rec_ok r \<longleftrightarrow> ginv (Record r) \<and>
     (\<forall>e\<in>set (Record r). LastConfirmedNumber r < fst e \<and> fst e \<le> MaxHeaderNumber r)"

definition sc_ok :: "snapshot \<Rightarrow> bool" where
  "sc_ok s \<longleftrightarrow> ginv (SCRecordMap s) \<and> (\<forall>h r. gget (SCRecordMap s) h = Some r \<longrightarrow> rec_ok r)"

lemma rec_ok_alt:
  "rec_ok r \<longleftrightarrow> ginv (Record r) \<and>
     (\<forall>k v. gget (Record r) k = Some v \<longrightarrow> LastConfirmedNumber r < k \<and> k \<le> MaxHeaderNumber r)"
  by (cases "ginv (Record r)") (simp_all add: rec_ok_def gget_ginv_iff split_paired_Ball_Sigma Ball_def)

lemma rec_ok_add:
  assumes "rec_ok r" "LastConfirmedNumber r < n"
  shows "rec_ok (r\<lparr>Record := gput (Record r) n v, MaxHeaderNumber := (if n > MaxHeaderNumber r then n else MaxHeaderNumber r)\<rparr>)"
  using assms by (auto simp: rec_ok_alt)

lemma sc_ok_put: "sc_ok s \<Longrightarrow> rec_ok r \<Longrightarrow> sc_ok (s\<lparr>SCRecordMap := gput (SCRecordMap s) h r\<rparr>)"
  by (auto simp: sc_ok_def)

lemma sc_ok_put_eq:
  "SCRecordMap t = gput (SCRecordMap s) h r \<Longrightarrow> sc_ok s \<Longrightarrow> rec_ok r \<Longrightarrow> sc_ok t"
  by (auto simp: sc_ok_def)

lemma recordSCConfirm_ok:
  assumes "sc_ok s"
  shows "sc_ok (recordSCConfirm s scc)"
proof (cases "gget (SCRecordMap s) (SCC_Hash scc)")
  case None
  then show ?thesis using assms by (simp add: recordSCConfirm_def)
next
  case (Some r)
  then have "rec_ok r" using assms by (simp add: sc_ok_def)
  note ok = sc_ok_put[OF assms rec_ok_add[OF this]]
  show ?thesis
  proof (cases "isSideChainCoinbase s (SCC_Hash scc) (SCC_Coinbase scc) False \<and> LastConfirmedNumber r < SCC_Number scc")
    case True
    then show ?thesis
      unfolding recordSCConfirm_def Some option.case if_P[OF conjunct1[OF True]] if_P[OF conjunct2[OF True]]
      by (intro ok) simp
  next
    case False
    then have "recordSCConfirm s scc = s"
      unfolding recordSCConfirm_def Some option.case by meson
    then show ?thesis using assms by simp
  qed
qed

lemma checkSCRecord_ok: "rec_ok r \<Longrightarrow> rec_ok (checkSCRecord s n r)"
  by (simp add: checkSCRecord_def rec_ok_def Let_def)

lemma checkSCConfirmation_ok: "sc_ok s \<Longrightarrow> sc_ok (checkSCConfirmation s n)"
  by (auto simp: sc_ok_def checkSCConfirmation_def gget_map_values checkSCRecord_ok)

text \<open>What one side chain's step does to the records.\<close>

lemma ensureSCReward_frame [simp]:
  "SCRecordMap (ensureSCReward s h) = SCRecordMap s" "same_votes s (ensureSCReward s h)"
  by (simp_all add: ensureSCReward_def same_votes_def)

lemma installSCConfirm_frame [simp]:
  "SCRecordMap (installSCConfirm s h r n score) = gput (SCRecordMap s) h r"
  "same_votes t (installSCConfirm s h r n score) = same_votes t s"
  by (simp_all add: installSCConfirm_def same_votes_def Let_def)

lemma confirmSideChain_effect:
  assumes "confirmSideChain mc n s (h, r) = Inr s'"
  shows "same_votes s s' \<and> (SCRecordMap s' = SCRecordMap s \<or>
    (\<exists>c. LastConfirmedNumber r < c \<and> SCRecordMap s' = gput (SCRecordMap s) h
      (r\<lparr>Record := filter (\<lambda>e. \<not> (LastConfirmedNumber r < fst e \<and> fst e \<le> c)) (Record r),
         LastConfirmedNumber := c\<rparr>)))"
proof (cases "calculateSCConfirmedNumber r mc")
  case (Inl e)
  then have "confirmSideChain mc n s (h, r) = Inl e" by (simp add: confirmSideChain_def Let_def)
  with assms show ?thesis by simp
next
  case (Inr p)
  obtain c cc where p: "p = (c, cc)" by (cases p)
  note eq = assms[unfolded confirmSideChain_def Let_def Inr p prod.case bind_res_simps]
  show ?thesis
  proof (cases "LastConfirmedNumber r < c")
    case False
    note eq' = eq[unfolded if_not_P[OF False] sum.inject]
    show ?thesis unfolding eq'[symmetric] by simp
  next
    case True
    from eq[unfolded if_P[OF True] bind_res_eq_Inr]
    obtain st :: "(address, u64) gomap \<times> address \<times> u64" where st: "(case st of (score, _, _) \<Rightarrow>
        bind_res (forUpto (LastConfirmedNumber r + 1) c (\<lambda>m i. Inr (if ghas m i then gdel m i else m)) (Record r))
          (\<lambda>pending. Inr (installSCConfirm (ensureSCReward s h) h
             (r\<lparr>Record := pending, LastConfirmedNumber := c\<rparr>) n score))) = Inr s'"
      by blast
    obtain score x y where "st = (score, x, y)" by (cases st) auto
    from st[unfolded this prod.case bind_res_eq_Inr sum.inject] obtain pending where
      pending: "forUpto (LastConfirmedNumber r + 1) c (\<lambda>m i. Inr (if ghas m i then gdel m i else m)) (Record r) = Inr pending"
      and s': "installSCConfirm (ensureSCReward s h) h (r\<lparr>Record := pending, LastConfirmedNumber := c\<rparr>) n score = s'"
      by blast
    show ?thesis
      unfolding s'[symmetric] installSCConfirm_frame ensureSCReward_frame(1)
      using True forUpto_del[OF pending True] ensureSCReward_frame(2)[of s h] by blast
  qed
qed

lemma rec_ok_confirm:
  assumes "rec_ok r" "LastConfirmedNumber r < c"
  shows "rec_ok (r\<lparr>Record := filter (\<lambda>e. \<not> (LastConfirmedNumber r < fst e \<and> fst e \<le> c)) (Record r),
    LastConfirmedNumber := c\<rparr>)"
  using assms by (auto simp: rec_ok_def ginv_filter not_le)

lemma foldM_confirmSideChain_ok:
  assumes "foldM (confirmSideChain mc n) s es = Inr s'" "sc_ok s" "\<forall>e\<in>set es. rec_ok (snd e)"
  shows "sc_ok s'"
proof (rule foldM_invariant[where I = sc_ok, OF assms(1,2)])
  fix u e u' assume e: "e \<in> set es" "sc_ok u" "confirmSideChain mc n u e = Inr u'"
  obtain h r where hr: "e = (h, r)" by (cases e)
  have "rec_ok r" using assms(3) e(1) hr by force
  note rec = rec_ok_confirm[OF this]
  show "sc_ok u'"
    using confirmSideChain_effect[OF e(3)[unfolded hr]]
  proof (elim conjE disjE exE)
    assume "SCRecordMap u' = SCRecordMap u"
    then show ?thesis using e(2) by (simp add: sc_ok_def)
  qed (rule sc_ok_put_eq[OF _ e(2) rec])
qed

lemma foldM_confirmSideChain_mono:
  assumes "foldM (confirmSideChain mc n) s es = Inr s'" "distinct (map fst es)"
  shows "(\<forall>h. h \<notin> fst ` set es \<longrightarrow> gget (SCRecordMap s') h = gget (SCRecordMap s) h) \<and>
    (\<forall>h r. (h, r) \<in> set es \<longrightarrow> gget (SCRecordMap s) h = Some r \<longrightarrow>
       (\<exists>r'. gget (SCRecordMap s') h = Some r' \<and> LastConfirmedNumber r \<le> LastConfirmedNumber r'))"
  using assms
proof (induction es arbitrary: s)
  case (Cons e es)
  obtain h r where e: "e = (h, r)" by (cases e)
  from Cons.prems obtain u where u: "confirmSideChain mc n s (h, r) = Inr u"
    "foldM (confirmSideChain mc n) u es = Inr s'"
    by (auto simp: res_simps e)
  have IH: "\<And>k. k \<notin> fst ` set es \<Longrightarrow> gget (SCRecordMap s') k = gget (SCRecordMap u) k"
    "\<And>k q. (k, q) \<in> set es \<Longrightarrow> gget (SCRecordMap u) k = Some q \<Longrightarrow>
       \<exists>r'. gget (SCRecordMap s') k = Some r' \<and> LastConfirmedNumber q \<le> LastConfirmedNumber r'"
    using Cons.IH[OF u(2)] Cons.prems(2) by auto
  have u_other: "gget (SCRecordMap u) k = gget (SCRecordMap s) k" if "k \<noteq> h" for k
    using confirmSideChain_effect[OF u(1)] that by auto
  have u_same: "\<exists>r'. gget (SCRecordMap u) h = Some r' \<and> LastConfirmedNumber r \<le> LastConfirmedNumber r'"
    if "gget (SCRecordMap s) h = Some r"
    using confirmSideChain_effect[OF u(1)] that by auto
  have h: "h \<notin> fst ` set es" using Cons.prems(2) e by simp
  show ?case
  proof (intro conjI allI impI)
    fix k assume "k \<notin> fst ` set (e # es)"
    then show "gget (SCRecordMap s') k = gget (SCRecordMap s) k" using IH(1) u_other e by auto
  next
    fix k q assume kq: "(k, q) \<in> set (e # es)" "gget (SCRecordMap s) k = Some q"
    show "\<exists>r'. gget (SCRecordMap s') k = Some r' \<and> LastConfirmedNumber q \<le> LastConfirmedNumber r'"
    proof (cases "k = h")
      case True
      then have "q = r" using kq h e by force
      then show ?thesis using True kq(2) u_same IH(1)[OF h] by auto
    next
      case False
      then show ?thesis using kq u_other IH(2)[of k q] e by auto
    qed
  qed
qed simp

lemma updateSCConfirmation_ok:
  assumes "updateSCConfirmation s n = Inr s'" "sc_ok s"
  shows "sc_ok s' \<and> same_votes s s'"
proof -
  from assms(1) obtain u where u: "foldM (confirmSideChain (go_int (2 * MaxSignerCount (config s) div 3)) n) s (SCRecordMap s) = Inr u"
    "s' = clearSCReward u n"
    unfolding updateSCConfirmation_def bind_res_eq_Inr sum.inject by blast
  have "\<forall>e\<in>set (SCRecordMap s). rec_ok (snd e)"
    using assms(2) by (auto simp: sc_ok_def gget_ginv_iff)
  then have "sc_ok u" using foldM_confirmSideChain_ok[OF u(1) assms(2)] by blast
  moreover have "same_votes s u"
    by (rule same_votes_foldM[OF u(1)]) (metis confirmSideChain_effect surj_pair)
  ultimately show ?thesis by (simp add: u(2) clearSCReward_def sc_ok_def same_votes_def Let_def)
qed

lemma updateSCConfirmation_mono:
  assumes "updateSCConfirmation s n = Inr s'" "sc_ok s" "gget (SCRecordMap s) h = Some r"
  shows "\<exists>r'. gget (SCRecordMap s') h = Some r' \<and> LastConfirmedNumber r \<le> LastConfirmedNumber r'"
proof -
  from assms(1) obtain u where u: "foldM (confirmSideChain (go_int (2 * MaxSignerCount (config s) div 3)) n) s (SCRecordMap s) = Inr u"
    "s' = clearSCReward u n"
    unfolding updateSCConfirmation_def bind_res_eq_Inr sum.inject by blast
  have "distinct (map fst (SCRecordMap s))" using assms(2) by (simp add: sc_ok_def ginv_def)
  then show ?thesis
    using foldM_confirmSideChain_mono[OF u(1)] gget_mem[OF assms(3)] assms(3)
    by (auto simp: u(2) clearSCReward_def Let_def)
qed

lemma recordSCConfirm_same_votes: "same_votes s (recordSCConfirm s scc)"
  by (simp add: recordSCConfirm_def same_votes_def split: option.split)

lemma updateSnapshotBySCConfirm_ok:
  assumes "updateSnapshotBySCConfirm s cs n = Inr s'" "sc_ok s"
  shows "sc_ok s' \<and> same_votes s s'"
proof -
  define s1 where "s1 = foldl recordSCConfirm s cs"
  have s1: "sc_ok s1" "same_votes s s1"
    unfolding s1_def
    by (rule foldl_invariant, auto intro: assms(2) recordSCConfirm_ok)
      (rule same_votes_foldl, rule recordSCConfirm_same_votes)
  have chk: "sc_ok (checkSCConfirmation s1 n)" "same_votes s (checkSCConfirmation s1 n)"
    using s1 checkSCConfirmation_ok by (auto simp: checkSCConfirmation_def same_votes_def)
  from assms(1) obtain b where "(if b then updateSCConfirmation (checkSCConfirmation s1 n) n else Inr s1) = Inr s'"
    unfolding updateSnapshotBySCConfirm_def s1_def[symmetric] Let_def bind_res_eq_Inr by blast
  then show ?thesis
    using s1 updateSCConfirmation_ok[OF _ chk(1)] same_votes_trans[OF chk(2)] by (cases b) auto
qed

subsection \<open>A side chain block needs two thirds of the signers\<close>

definition pending :: "sc_record \<Rightarrow> sc_confirmation set" where
  "pending r = (\<Union>e\<in>set (Record r). set (snd e))"

definition supporters :: "sc_record \<Rightarrow> string \<Rightarrow> address set" where
  "supporters r key = SCC_Coinbase ` {c \<in> pending r. join '':'' (LoopInfo c) = key}"

lemma finite_supporters [simp]: "finite (supporters r key)"
  by (simp add: supporters_def pending_def)

definition claims :: "sc_record \<Rightarrow> int \<Rightarrow> u64 \<Rightarrow> bool" where
  "claims r mc n \<longleftrightarrow> (\<exists>c\<in>pending r. \<exists>h.
     big_UnmarshalText (LoopInfo c ! (length (LoopInfo c) - 2)) = Some h \<and> n = Uint64 h \<and>
     mc \<le> int (card (supporters r (join '':'' (LoopInfo c)))))"

definition count_inv ::
  "sc_record \<Rightarrow> int \<Rightarrow> u64 \<times> (string, (address, bool) gomap) gomap \<Rightarrow> bool" where
  "count_inv r mc st \<longleftrightarrow>
     (\<forall>key who. gget (snd st) key = Some who \<longrightarrow> ginv who \<and> fst ` set who \<subseteq> supporters r key) \<and>
     (fst st \<noteq> LastConfirmedNumber r \<longrightarrow> claims r mc (fst st))"

lemma keys_gput: "fst ` set (gput m k v) = insert k (fst ` set m)"
  by (auto simp: gput_def dom_update)

lemma length_supporters:
  assumes "ginv who" "fst ` set who \<subseteq> supporters r key"
  shows "length who \<le> card (supporters r key)"
proof -
  have "length who = card (fst ` set who)"
    using assms(1) distinct_card[of "map fst who"] by (simp add: ginv_def)
  then show ?thesis using card_mono[OF finite_supporters assms(2)] by simp
qed

lemma noteConfirm_inv:
  assumes "noteConfirm mc st c = Inr st'" "c \<in> pending r" "count_inv r mc st"
  shows "count_inv r mc st'"
proof -
  obtain n m where st: "st = (n, m)" by (cases st)
  define key where "key = join '':'' (LoopInfo c)"
  define who where "who = getOr [] m key"
  define who' where "who' = gput who (SCC_Coinbase c) True"
  have who: "ginv who" "fst ` set who \<subseteq> supporters r key"
    using assms(3) by (cases "gget m key"; force simp: count_inv_def st who_def getOr_def)+
  have c: "SCC_Coinbase c \<in> supporters r key"
    using assms(2) by (auto simp: supporters_def key_def)
  have who': "ginv who'" "fst ` set who' \<subseteq> supporters r key"
    using who c by (auto simp: who'_def keys_gput)
  have m1: "count_inv r mc (n, gput m key who)" and m2: "count_inv r mc (n, gput m key who')"
    using assms(3) who who' by (auto simp: count_inv_def st)
  have big: "count_inv r mc (Uint64 h, gput m key who')"
    if "mc \<le> int (length who')" "big_UnmarshalText (LoopInfo c ! (length (LoopInfo c) - 2)) = Some h" for h
  proof -
    have "claims r mc (Uint64 h)"
      unfolding claims_def using that assms(2) length_supporters[OF who'] key_def by fastforce
    then show ?thesis using m2 by (simp add: count_inv_def)
  qed
  have idx: "nat (int (length (LoopInfo c)) - 2) = length (LoopInfo c) - 2" by simp
  show ?thesis
    using assms(1,3) m1 m2 big
    unfolding noteConfirm_def st prod.case Let_def key_def[symmetric] who_def[symmetric] who'_def[symmetric]
    by (auto simp: bind_res_eq_Inr go_nth_eq_Inr idx split: if_splits option.splits)
qed

lemma alignLoop_le: "i \<le> n \<Longrightarrow> alignLoop l m lim i n \<le> n"
proof (induction l m lim i n rule: alignLoop.induct)
  case (1 l m lim i n)
  have "i - 1 \<le> n" if "lim < i"
    using 1(2) u64_pred_less[OF that] by (simp add: word_le_nat_alt)
  then show ?case
    using 1 by (subst alignLoop.simps) auto
qed

lemma alignConfirmed_le: "fst (alignConfirmed r n m) \<le> n"
proof -
  have "n - 1 \<le> n" if "LastConfirmedNumber r < n"
    using u64_pred_less[OF that] by (simp add: word_le_nat_alt)
  then show ?thesis by (auto simp: alignConfirmed_def Let_def alignLoop_le split: option.split)
qed

lemma calculateSCConfirmedNumber_sound:
  assumes "calculateSCConfirmedNumber r mc = Inr (c, cc)" "LastConfirmedNumber r < c"
  shows "\<exists>n. c \<le> n \<and> claims r mc n"
proof -
  from assms(1) obtain st where "forUpto (LastConfirmedNumber r + 1) (MaxHeaderNumber r)
        (\<lambda>st i. case gget (Record r) i of
                  Some confs \<Rightarrow> foldM (noteConfirm mc) st confs | None \<Rightarrow> Inr st)
        (LastConfirmedNumber r, []) = Inr st"
    "alignConfirmed r (fst st) (confirmedCoinbases mc (snd st)) = (c, cc)"
    unfolding calculateSCConfirmedNumber_def bind_res_eq_Inr sum.inject by (elim exE conjE)
  moreover obtain n m where "st = (n, m)" by (cases st)
  ultimately have nm: "forUpto (LastConfirmedNumber r + 1) (MaxHeaderNumber r)
        (\<lambda>st i. case gget (Record r) i of
                  Some confs \<Rightarrow> foldM (noteConfirm mc) st confs | None \<Rightarrow> Inr st)
        (LastConfirmedNumber r, []) = Inr (n, m)"
    and le: "c \<le> n"
    using alignConfirmed_le[of r n "confirmedCoinbases mc m"] by simp_all
  have "count_inv r mc (n, m)"
  proof (rule foldM_invariant[OF conjunct2[OF nm[unfolded forUpto_eq_Inr]]])
    show "count_inv r mc (LastConfirmedNumber r, [])" by (simp add: count_inv_def)
  next
    fix st i st' assume st: "count_inv r mc st" "(case gget (Record r) i of
        Some confs \<Rightarrow> foldM (noteConfirm mc) st confs | None \<Rightarrow> Inr st) = Inr st'"
    show "count_inv r mc st'"
    proof (cases "gget (Record r) i")
      case (Some confs)
      have sub: "set confs \<subseteq> pending r" using gget_mem[OF Some] by (force simp: pending_def)
      show ?thesis
        by (rule foldM_invariant[OF st(2)[unfolded Some option.case], of "count_inv r mc"])
          (use st(1) sub noteConfirm_inv in blast)+
    qed (use st in simp)
  qed
  moreover have "n \<noteq> LastConfirmedNumber r" "c \<le> n" using le assms(2) by auto
  ultimately show ?thesis by (auto simp: count_inv_def)
qed

lemma calculateSCConfirmedNumber_max:
  "MaxHeaderNumber r = - 1 \<Longrightarrow> \<exists>e. calculateSCConfirmedNumber r mc = Inl e"
proof -
  assume m: "MaxHeaderNumber r = - 1"
  obtain e where e: "forUpto (LastConfirmedNumber r + 1) (- 1)
        (\<lambda>st i. case gget (Record r) i of
                  Some confs \<Rightarrow> foldM (noteConfirm mc) st confs | None \<Rightarrow> Inr st)
        (LastConfirmedNumber r, []) = Inl e"
    by (rule exE[OF forUpto_max], rule that)
  show ?thesis unfolding calculateSCConfirmedNumber_def m e by simp
qed

subsection \<open>Notices\<close>

definition cr_ok :: "int \<Rightarrow> notice_cr \<Rightarrow> bool" where
  "cr_ok needed cr \<longleftrightarrow> ginv (NRecord cr) \<and> (Success cr \<longrightarrow> needed \<le> int (length (NRecord cr)))"

definition notice_ok :: "int \<Rightarrow> cc_notice \<Rightarrow> bool" where
  "notice_ok needed nt \<longleftrightarrow> ginv (ConfirmReceived nt) \<and>
     (\<forall>h cr. gget (ConfirmReceived nt) h = Some cr \<longrightarrow> cr_ok needed cr)"

definition charging_ok :: "cc_notice \<Rightarrow> bool" where
  "charging_ok nt \<longleftrightarrow> (\<forall>h. ghas (CurrentCharging nt) h \<longrightarrow> ghas (ConfirmReceived nt) h)"

lemma length_gput_le: "length m \<le> length (gput m k v)"
  by (induction m) (auto simp: gput_def)

lemma cr_ok_put: "cr_ok needed cr \<Longrightarrow> cr_ok needed (cr\<lparr>NRecord := gput (NRecord cr) a True\<rparr>)"
  using length_gput_le[of "NRecord cr" a True] by (auto simp: cr_ok_def)

lemma notice_ok_put:
  "notice_ok needed nt \<Longrightarrow> cr_ok needed cr \<Longrightarrow>
    notice_ok needed (nt\<lparr>ConfirmReceived := gput (ConfirmReceived nt) h cr\<rparr>)"
  by (auto simp: notice_ok_def)

lemma noticeHashConfirm_ok:
  assumes "notice_ok needed nt"
  shows "notice_ok needed (noticeHashConfirm a nt str)"
proof -
  let ?cr = "getOr \<lparr>NRecord = [], NCR_Number = 0, NCR_Type = noticeTypeGasCharging, Success = False\<rparr>
    (ConfirmReceived nt) (HexToHash str)"
  have "cr_ok needed ?cr"
    using assms by (auto simp: getOr_def notice_ok_def cr_ok_def split: option.split)
  then show ?thesis
    using assms notice_ok_put[OF assms cr_ok_put] by (simp add: noticeHashConfirm_def Let_def)
qed

lemma settleNotice_ok:
  assumes "notice_ok needed nt" "cr_ok needed (snd e)"
  shows "notice_ok needed (settleNotice needed now lim ty nt e)"
  using assms by (cases e) (auto simp: settleNotice_def notice_ok_def cr_ok_def Let_def split: if_splits)

lemma settleNotice_charging:
  assumes "charging_ok nt"
  shows "charging_ok (settleNotice needed now lim ty nt e)"
  using assms by (cases e) (auto simp: settleNotice_def charging_ok_def Let_def)

lemma foldl_settleNotice_ok:
  assumes "notice_ok needed nt"
  shows "notice_ok needed (foldl (\<lambda>n e. settleNotice needed now lim (ty e) n e) nt (ConfirmReceived nt))"
proof (rule foldl_invariant[where I = "notice_ok needed", OF assms])
  fix n e assume e: "e \<in> set (ConfirmReceived nt)" "notice_ok needed n"
  have "gget (ConfirmReceived nt) (fst e) = Some (snd e)"
    using e(1) assms by (simp add: notice_ok_def gget_ginv_iff)
  then have "cr_ok needed (snd e)"
    using assms by (auto simp: notice_ok_def)
  then show "notice_ok needed (settleNotice needed now lim (ty e) n e)"
    by (intro settleNotice_ok e(2))
qed

definition notices_ok :: "snapshot \<Rightarrow> bool" where
  "notices_ok s \<longleftrightarrow> ginv (SCNoticeMap s) \<and>
     (\<forall>h nt. gget (SCNoticeMap s) h = Some nt \<longrightarrow> notice_ok (neededNotices s) nt)"

lemma noticeConfirm_frame [simp]:
  "config (noticeConfirm s nc) = config s" "same_votes s (noticeConfirm s nc)"
  by (simp_all add: noticeConfirm_def same_votes_def split: option.split)

lemma neededNotices_config: "config t = config s \<Longrightarrow> neededNotices t = neededNotices s"
  by (simp add: neededNotices_def)

lemma noticeConfirm_ok:
  assumes "notices_ok s"
  shows "notices_ok (noticeConfirm s nc)"
proof -
  have "notice_ok (neededNotices s) (foldl (noticeHashConfirm a) nt xs)"
    if "gget (SCNoticeMap s) h = Some nt" for h nt a xs
    by (rule foldl_invariant) (use that assms noticeHashConfirm_ok in \<open>auto simp: notices_ok_def\<close>)
  then show ?thesis
    using assms by (auto simp: noticeConfirm_def notices_ok_def neededNotices_def split: option.split)
qed

lemma updateSnapshotByNoticeConfirm_ok:
  assumes "updateSnapshotByNoticeConfirm s ncs n = Inr s'" "notices_ok s"
  shows "notices_ok s' \<and> same_votes s s'"
proof -
  define s1 where "s1 = foldl noticeConfirm s ncs"
  have s1: "notices_ok s1" "same_votes s s1"
    unfolding s1_def
    by (rule foldl_invariant, auto intro: assms(2) noticeConfirm_ok)
      (rule same_votes_foldl, rule noticeConfirm_frame)
  from assms(1) obtain b where "(if b then s1\<lparr>SCNoticeMap :=
      map (\<lambda>(h, nt). (h, settleSCNotice s1 n nt)) (SCNoticeMap s1)\<rparr> else s1) = s'"
    unfolding updateSnapshotByNoticeConfirm_def s1_def[symmetric] Let_def bind_res_eq_Inr sum.inject by blast
  moreover have "notice_ok (neededNotices s1) (settleSCNotice s1 n nt)"
    if "notice_ok (neededNotices s1) nt" for nt
    using foldl_settleNotice_ok[OF that] by (simp add: settleSCNotice_def)
  ultimately show ?thesis
    using s1 by (auto simp: notices_ok_def same_votes_def gget_map_values neededNotices_def split: if_splits)
qed

lemma chargeStep_total:
  assumes "charging_ok ln" "notice_ok needed ln"
  shows "\<exists>ln'. chargeStep a ln c = Inr ln' \<and> charging_ok ln' \<and> notice_ok needed ln'"
proof (cases "gget (CurrentCharging ln) (GC_Hash c)")
  case None
  then show ?thesis
    using assms by (auto simp: chargeStep_def Let_def charging_ok_def notice_ok_def cr_ok_def)
next
  case (Some x)
  then obtain cr where cr: "gget (ConfirmReceived ln) (GC_Hash c) = Some cr"
    using assms(1) by (auto simp: charging_ok_def)
  then have "cr_ok needed cr" using assms(2) by (simp add: notice_ok_def)
  then show ?thesis
    using assms Some cr notice_ok_put[OF assms(2) cr_ok_put]
    by (auto simp: chargeStep_def Let_def charging_ok_def)
qed

definition local_ok :: "snapshot \<Rightarrow> bool" where
  "local_ok s \<longleftrightarrow> charging_ok (LocalNotice s) \<and> notice_ok (neededNotices s) (LocalNotice s)"

lemma updateSnapshotBySCCharging_total:
  assumes "local_ok s" "MaxSignerCount (config s) \<noteq> 0"
  shows "\<exists>s'. updateSnapshotBySCCharging s cs n a = Inr s' \<and> local_ok s' \<and> same_votes s s'"
proof -
  obtain ln where ln: "foldM (chargeStep a) (LocalNotice s) cs = Inr ln" "charging_ok ln"
    "notice_ok (neededNotices s) ln"
    using foldM_total[where I = "\<lambda>l. charging_ok l \<and> notice_ok (neededNotices s) l" and f = "chargeStep a"
        and s = "LocalNotice s" and xs = cs] assms(1) chargeStep_total
    by (auto simp: local_ok_def)
  have "charging_ok (foldl (settleNotice needed now lim ty) ln es)" for needed now lim ty es
    by (rule foldl_invariant) (use ln(2) settleNotice_charging in auto)
  then show ?thesis
    using ln assms(2) foldl_settleNotice_ok[OF ln(3)]
    by (auto simp: updateSnapshotBySCCharging_def loopEnd_def u64_mod_def local_ok_def same_votes_def neededNotices_def)
qed

subsection \<open>Properties\<close>

text \<open>A side chain record with one confirmation, by one side chain coinbase, for its block 2.\<close>

definition sample_record :: sc_record where
  "sample_record = \<lparr>Record = [(2, [\<lparr>SCC_Hash = 1, SCC_Coinbase = 7, SCC_Number = 2,
       LoopInfo = [''2'', []]\<rparr>])],
     LastConfirmedNumber = 0, MaxHeaderNumber = 2, CountPerPeriod = 1, RewardPerPeriod = 10, RentReward = []\<rparr>"

lemma sample_record_ok: "rec_ok sample_record"
  by (simp add: sample_record_def rec_ok_def ginv_def)

lemma sample_record_confirms: "calculateSCConfirmedNumber sample_record 1 = Inr (2, [(2, 0)])"
  by code_simp

text \<open>
  C21.  Side chain confirmation is sound: when \<open>calculateSCConfirmedNumber\<close> moves the confirmed number
  of a side chain forward, at least \<open>minConfirmedSignerCount\<close> different side chain coinbases have sent
  the same loop information, and the block it ends with is not below the new number.
\<close>

theorem sc_confirmation_sound:
  assumes "calculateSCConfirmedNumber r mc = Inr (c, cc)" "LastConfirmedNumber r < c"
  shows "\<exists>conf \<in> pending r. \<exists>h.
    big_UnmarshalText (LoopInfo conf ! (length (LoopInfo conf) - 2)) = Some h \<and> c \<le> Uint64 h \<and>
    mc \<le> int (card (supporters r (join '':'' (LoopInfo conf))))"
  using calculateSCConfirmedNumber_sound[OF assms] unfolding claims_def by blast

theorem sc_confirmation_sound_witness:
  "\<exists>conf \<in> pending sample_record. 1 \<le> int (card (supporters sample_record (join '':'' (LoopInfo conf))))"
proof -
  have "LastConfirmedNumber sample_record < 2" by (simp add: sample_record_def)
  from sc_confirmation_sound[OF sample_record_confirms this] show ?thesis by blast
qed

text \<open>
  The side chain records: \<open>updateSCConfirmation\<close> keeps every pending confirmation strictly above
  the last confirmed number and at most at the highest one seen, and the last confirmed number of a
  side chain never goes back.
\<close>

lemma sc_records_invariant:
  assumes "updateSCConfirmation s n = Inr s'" "sc_ok s"
  shows "sc_ok s' \<and> (\<forall>h r. gget (SCRecordMap s) h = Some r \<longrightarrow>
    (\<exists>r'. gget (SCRecordMap s') h = Some r' \<and> LastConfirmedNumber r \<le> LastConfirmedNumber r'))"
  using updateSCConfirmation_ok[OF assms] updateSCConfirmation_mono[OF assms] by blast

lemma sc_records_invariant_witness:
  "\<exists>s'. updateSCConfirmation (sample_snapshot\<lparr>SCRecordMap := [(1, sample_record\<lparr>Record := [], MaxHeaderNumber := 0\<rparr>)]\<rparr>) 5 = Inr s'
    \<and> sc_ok s'"
proof -
  let ?s = "sample_snapshot\<lparr>SCRecordMap := [(1, sample_record\<lparr>Record := [], MaxHeaderNumber := 0\<rparr>)]\<rparr>"
  have ok: "sc_ok ?s" by (auto simp: sc_ok_def rec_ok_def ginv_def gget_def split: if_splits)
  have "calculateSCConfirmedNumber (sample_record\<lparr>Record := [], MaxHeaderNumber := 0\<rparr>) mc = Inr (0, [])" for mc
    by (simp add: calculateSCConfirmedNumber_def forUpto_def sample_record_def alignConfirmed_def
        confirmedCoinbases_def)
  then have "\<exists>s'. updateSCConfirmation ?s 5 = Inr s'"
    by (simp add: updateSCConfirmation_def confirmSideChain_def sample_defs Let_def sample_record_def)
  then show ?thesis using sc_records_invariant[OF _ ok] by blast
qed



definition sample_noticed :: snapshot where
  "sample_noticed = sample_snapshot\<lparr>SCNoticeMap := [(1, \<lparr>CurrentCharging = [], ConfirmReceived =
     [(2, \<lparr>NRecord = [(7, True), (8, True), (9, True)], NCR_Number = 0, NCR_Type = 0, Success = True\<rparr>)]\<rparr>)]\<rparr>"

text \<open>
  Notices: a notice that counts as confirmed has been confirmed by at least
  \<open>2 * MaxSignerCount / 3 + 1\<close> different coinbases, and \<open>updateSnapshotByNoticeConfirm\<close> keeps this.
\<close>

lemma notice_quorum:
  assumes "updateSnapshotByNoticeConfirm s ncs n = Inr s'" "notices_ok s"
    and "gget (SCNoticeMap s') h = Some nt" "gget (ConfirmReceived nt) nh = Some cr" "Success cr"
  shows "neededNotices s' \<le> int (card (fst ` set (NRecord cr)))"
proof -
  have "cr_ok (neededNotices s') cr"
    using updateSnapshotByNoticeConfirm_ok[OF assms(1,2)] assms(3,4) by (auto simp: notices_ok_def notice_ok_def)
  then show ?thesis
    using assms(5) distinct_card[of "map fst (NRecord cr)"] by (simp add: cr_ok_def ginv_def)
qed

lemma notice_quorum_witness:
  "neededNotices sample_noticed \<le> int (card (fst ` set [(7 :: address, True), (8, True), (9, True)]))"
proof -
  have "updateSnapshotByNoticeConfirm sample_noticed [] 0 = Inr sample_noticed"
    by (simp add: updateSnapshotByNoticeConfirm_def loopEnd_def u64_mod_def sample_noticed_def sample_defs Uint64_def)
  moreover have "notices_ok sample_noticed"
    by (auto simp: notices_ok_def notice_ok_def cr_ok_def sample_noticed_def sample_defs gget_def ginv_def
        neededNotices_def go_int_def split: if_splits)
  moreover have "gget (SCNoticeMap sample_noticed) 1 = Some \<lparr>CurrentCharging = [], ConfirmReceived =
      [(2, \<lparr>NRecord = [(7, True), (8, True), (9, True)], NCR_Number = 0, NCR_Type = 0, Success = True\<rparr>)]\<rparr>"
    by (simp add: sample_noticed_def gget_def)
  ultimately show ?thesis
    using notice_quorum[of sample_noticed "[]" 0 sample_noticed 1 _ 2
        "\<lparr>NRecord = [(7, True), (8, True), (9, True)], NCR_Number = 0, NCR_Type = 0, Success = True\<rparr>"]
    by (simp add: gget_def)
qed

end
