(* ===== verification/Alien_Reward.thy ===== *)
theory Alien_Reward
  imports Alien_Proposal Alien_SideChain
begin

text \<open>
  What a block pays (\<open>calculateVoteReward\<close>, \<open>calculateGasCharging\<close> and \<open>calculateSCReward\<close> of
  \<open>consensus/alien/snapshot.go\<close>; \<open>sideChainRewards\<close> and \<open>accumulateRewards\<close> of
  \<open>consensus/alien/alien.go\<close>).  The account state is the balance of every address;
  \<open>StateDB.AddBalance\<close> and \<open>SubBalance\<close> change one of them, without a check.
\<close>

subsection \<open>Operations\<close>

type_synonym balances = "address \<Rightarrow> int"

definition AddBalance :: "balances \<Rightarrow> address \<Rightarrow> int \<Rightarrow> balances" where
  "AddBalance st a x = st(a := st a + x)"

definition SubBalance :: "balances \<Rightarrow> address \<Rightarrow> int \<Rightarrow> balances" where
  "SubBalance st a x = st(a := st a - x)"

definition payAll :: "balances \<Rightarrow> (address, int) gomap \<Rightarrow> balances" where
  "payAll st m = foldl (\<lambda>st (a, x). AddBalance st a x) st m"

definition voteRewardStep ::
  "snapshot \<Rightarrow> address \<Rightarrow> int \<times> (address, int) gomap \<Rightarrow> address \<times> vote \<Rightarrow>
   (int \<times> (address, int) gomap) res" where
  "voteRewardStep s coinbase acc e =
     (case (acc, e) of ((allStake, rewards), (voter, v)) \<Rightarrow>
      if Candidate v = coinbase then
        (case gget (Voters s) (Voter v) of
           None \<Rightarrow> Inl PanicNil
         | Some n \<Rightarrow>
             if Uint64 n < Number s - MaxSignerCount (config s)
             then Inr (allStake + Stake v, gput rewards voter (Stake v)) else Inr acc)
      else Inr acc)"

definition calculateVoteReward :: "snapshot \<Rightarrow> address \<Rightarrow> int \<Rightarrow> (address, int) gomap res" where
  "calculateVoteReward s coinbase votersReward =
     bind_res (foldM (voteRewardStep s coinbase) (0, []) (Votes s))
       (\<lambda>(allStake, rewards).
          if allStake \<le> 0 \<and> rewards \<noteq> [] then Inl errAllStakeMissing
          else Inr (map (\<lambda>(a, stake). (a, stake * votersReward div allStake)) rewards))"

definition addTo :: "(address, int) gomap \<Rightarrow> address \<Rightarrow> int \<Rightarrow> (address, int) gomap" where
  "addTo m a x = gput m a (case gget m a of None \<Rightarrow> x | Some y \<Rightarrow> y + x)"

definition gasChargingStep :: "snapshot \<Rightarrow> (address, int) gomap \<Rightarrow> hash \<times> notice_cr \<Rightarrow> (address, int) gomap" where
  "gasChargingStep s gasCharge e =
     (case e of (h, cr) \<Rightarrow>
      if Success cr \<and> Number s = NCR_Number cr + scGasChargingDelayLoopCount * MaxSignerCount (config s) then
        (case gget (CurrentCharging (LocalNotice s)) h of
           None \<Rightarrow> gasCharge
         | Some charge \<Rightarrow> addTo gasCharge (Target charge) (10 ^ 18 * uint (Volume charge)))
      else gasCharge)"

definition calculateGasCharging :: "snapshot \<Rightarrow> (address, int) gomap" where
  "calculateGasCharging s = foldl (gasChargingStep s) [] (ConfirmReceived (LocalNotice s))"

text \<open>The share of all side chains, what the miner keeps, and the divisor used below.\<close>

definition scShares :: "snapshot \<Rightarrow> int \<Rightarrow> int \<times> int \<times> u64" where
  "scShares s minerReward =
     (let scRewardMilliSum = foldl (\<lambda>acc (_, r). acc + RewardPerPeriod r) 0 (SCRecordMap s) in
      if scRewardMilliSum > 0 \<and> scRewardMilliSum < 1000 then
        (let scRewardAll = minerReward * uint scRewardMilliSum div 1000
         in (scRewardAll, minerReward - scRewardAll, 1000))
      else if scRewardMilliSum \<ge> 1000 then (minerReward, 0, scRewardMilliSum)
      else (0, minerReward, 1000))"

definition rentSum :: "snapshot \<Rightarrow> sc_record \<Rightarrow> int" where
  "rentSum s r =
     foldl (\<lambda>acc (_, rent). if Uint64 (MaxRewardNumber rent) \<ge> Number s - scRewardDelayLoopCount * MaxSignerCount (config s)
              then acc + RentPerPeriod rent else acc) 0 (RentReward r)"

definition singleReward :: "int \<Rightarrow> u64 \<Rightarrow> u64 \<Rightarrow> int \<Rightarrow> u64 \<Rightarrow> int" where
  "singleReward scRewardAll rewardPerPeriod milliSum rent score =
     (scRewardAll * uint rewardPerPeriod div uint milliSum + rent) * uint score div 100"

definition scRewardChain ::
  "snapshot \<Rightarrow> int \<Rightarrow> u64 \<Rightarrow> (address, int) gomap \<Rightarrow> hash \<times> sc_reward \<Rightarrow> (address, int) gomap" where
  "scRewardChain s scRewardAll milliSum scRewards e =
     (case e of (scHash, rw) \<Rightarrow>
      (case gget (SCBlockRewardMap rw) (Number s - scRewardDelayLoopCount * MaxSignerCount (config s)) of
         None \<Rightarrow> scRewards
       | Some reward \<Rightarrow>
           (case gget (SCRecordMap s) scHash of
              None \<Rightarrow> scRewards
            | Some r \<Rightarrow>
                foldl (\<lambda>m (addr, score). addTo m addr
                    (singleReward scRewardAll (RewardPerPeriod r) milliSum (rentSum s r) score))
                  scRewards (RewardScoreMap reward))))"

definition calculateSCReward :: "snapshot \<Rightarrow> int \<Rightarrow> (address, int) gomap \<times> int" where
  "calculateSCReward s minerReward =
     (case scShares s minerReward of (scRewardAll, minerLeft, milliSum) \<Rightarrow>
        (foldl (scRewardChain s scRewardAll milliSum) [] (SCRewardMap s), minerLeft))"

definition sideChainRewards :: "balances \<Rightarrow> header \<Rightarrow> snapshot \<Rightarrow> balances" where
  "sideChainRewards st hdr snap =
     (let gasUsed = uint (GasUsed hdr);
          st1 = (if st (Coinbase hdr) \<ge> gasUsed then SubBalance st (Coinbase hdr) gasUsed else st)
      in payAll st1 (calculateGasCharging snap))"

definition totalBlockReward :: int where
  "totalBlockReward = 10 ^ 18 * 250000000"

definition secondsPerYear :: u64 where
  "secondsPerYear = 365 * 24 * 3600"

text \<open>
  The reward of a block: half of the total over the blocks of a year, halved every year.  The
  divisor \<open>int64(2*blockNumPerYear)\<close> and \<open>Div\<close> by zero are as in the code.
\<close>

definition blockRewardOf :: "u64 \<Rightarrow> int \<Rightarrow> int res" where
  "blockRewardOf period number =
     bind_res (u64_div secondsPerYear period) (\<lambda>blockNumPerYear.
       if go_int (2 * blockNumPerYear) = 0 then Inl PanicDivide
       else bind_res (u64_div (Uint64 number) blockNumPerYear) (\<lambda>yearCount.
         Inr (totalBlockReward div go_int (2 * blockNumPerYear) div 2 ^ unat yearCount)))"

definition payRefunds :: "balances \<Rightarrow> int \<Rightarrow> (address, int) gomap \<Rightarrow> balances \<times> int" where
  "payRefunds st minerReward refundGas =
     foldl (\<lambda>(st, r) (sender, gas). (AddBalance st sender gas, r - gas)) (st, minerReward) refundGas"

definition accumulateRewards ::
  "alien_config \<Rightarrow> balances \<Rightarrow> header \<Rightarrow> snapshot \<Rightarrow> (address, int) gomap \<Rightarrow> balances res" where
  "accumulateRewards cfg st hdr snap refundGas =
     bind_res (blockRewardOf (Period cfg) (Hdr_Number hdr)) (\<lambda>blockReward.
       let minerReward = blockReward * uint (MinerReward snap) div 1000;
           votersReward = blockReward - minerReward
       in bind_res (calculateVoteReward snap (Coinbase hdr) votersReward) (\<lambda>voteRewardMap.
         let st1 = payAll st voteRewardMap;
             st2 = payAll st1 (calculateProposalRefund snap)
         in (case calculateSCReward snap minerReward of (scReward, minerLeft) \<Rightarrow>
              let st3 = payAll st2 scReward
              in (case payRefunds st3 minerLeft refundGas of (st4, left) \<Rightarrow>
                    Inr (if left > 0 then AddBalance st4 (Coinbase hdr) left else st4)))))"

subsection \<open>Paying\<close>

lemma payAll_gsum: "payAll st m a = st a + gsum (\<lambda>k x. if k = a then x else 0) m"
proof -
  have "foldl (\<lambda>st (a, x). AddBalance st a x) st m a = st a + gsum (\<lambda>k x. if k = a then x else 0) m" for st
    by (induction m arbitrary: st) (auto simp: AddBalance_def)
  then show ?thesis by (simp add: payAll_def)
qed

lemma payRefunds_eq: "payRefunds st r m = (payAll st m, r - gsum (\<lambda>_ x. x) m)"
proof -
  have "foldl (\<lambda>(st, r) (sender, gas). (AddBalance st sender gas, r - gas)) (st, r) m =
      (foldl (\<lambda>st (a, x). AddBalance st a x) st m, r - gsum (\<lambda>_ x. x) m)" for st r
    by (induction m arbitrary: st r) auto
  then show ?thesis by (simp add: payRefunds_def payAll_def)
qed

lemma gsum_key:
  "ginv m \<Longrightarrow> gsum (\<lambda>k x. if k = a then x else 0) m = gat (\<lambda>_ x. x) m a"
proof (induction m)
  case Nil
  then show ?case by (simp add: gat_def)
next
  case (Cons e m)
  have inv: "ginv m" and notin: "fst e \<notin> fst ` set m" using Cons.prems by (auto simp: ginv_def)
  have "gsum (\<lambda>k x. if k = a then x else 0) m = 0" if "fst e = a"
    using notin that by (intro gsum_zero) (auto simp: image_iff)
  then show ?case
    using Cons.IH[OF inv] by (cases e) (auto simp: gat_def gget_def)
qed

subsection \<open>Rewards of voters\<close>

text \<open>The votes a block rewards: for its miner, and older than one loop.\<close>

definition rewarded :: "snapshot \<Rightarrow> address \<Rightarrow> vote \<Rightarrow> bool" where
  "rewarded s coinbase v \<longleftrightarrow> Candidate v = coinbase \<and>
     (case gget (Voters s) (Voter v) of None \<Rightarrow> False
      | Some n \<Rightarrow> Uint64 n < Number s - MaxSignerCount (config s))"

lemma foldM_voteRewardStep:
  assumes "foldM (voteRewardStep s cb) (al, rw) vs = Inr (al', rw')" "ginv vs"
    "fst ` set rw \<inter> fst ` set vs = {}"
  shows "rw' = rw @ map (\<lambda>(a, v). (a, Stake v)) (filter (\<lambda>(a, v). rewarded s cb v) vs) \<and>
    al' = al + gsum (\<lambda>_ v. if rewarded s cb v then Stake v else 0) vs"
  using assms
proof (induction vs arbitrary: al rw)
  case (Cons e vs)
  obtain a v where e: "e = (a, v)" by (cases e)
  have inv: "ginv vs" "a \<notin> fst ` set vs" using Cons.prems(2) e by (auto simp: ginv_def)
  have a: "a \<notin> fst ` set rw" using Cons.prems(3) e by auto
  have put: "gput rw a x = rw @ [(a, x)]" for x
    using a by (induction rw) (auto simp: gput_def)
  from Cons.prems(1) obtain st where st: "voteRewardStep s cb (al, rw) (a, v) = Inr st"
    "foldM (voteRewardStep s cb) st vs = Inr (al', rw')"
    by (auto simp: bind_res_eq_Inr e)
  have eq: "st = (if rewarded s cb v then (al + Stake v, rw @ [(a, Stake v)]) else (al, rw))"
    using st(1) put by (auto simp: voteRewardStep_def rewarded_def split: if_splits option.splits)
  show ?case
  proof (cases "rewarded s cb v")
    case True
    have "fst ` set (rw @ [(a, Stake v)]) \<inter> fst ` set vs = {}" using Cons.prems(3) inv(2) e by auto
    from Cons.IH[OF st(2)[unfolded eq if_P[OF True]] inv(1) this] show ?thesis by (simp add: e True)
  next
    case False
    have "fst ` set rw \<inter> fst ` set vs = {}" using Cons.prems(3) by auto
    from Cons.IH[OF st(2)[unfolded eq if_not_P[OF False]] inv(1) this] show ?thesis by (simp add: e False)
  qed
qed simp

definition rewarded_stake :: "snapshot \<Rightarrow> address \<Rightarrow> int" where
  "rewarded_stake s cb = gsum (\<lambda>_ v. if rewarded s cb v then Stake v else 0) (Votes s)"

lemma calculateVoteReward_eq:
  assumes "calculateVoteReward s cb r = Inr m" "ginv (Votes s)"
  shows "m = map (\<lambda>(a, v). (a, Stake v * r div rewarded_stake s cb))
               (filter (\<lambda>(a, v). rewarded s cb v) (Votes s))
    \<and> (m \<noteq> [] \<longrightarrow> rewarded_stake s cb > 0)"
proof -
  from assms(1) obtain al rw where fold: "foldM (voteRewardStep s cb) (0, []) (Votes s) = Inr (al, rw)"
    and m: "\<not> (al \<le> 0 \<and> rw \<noteq> [])" "m = map (\<lambda>(a, stake). (a, stake * r div al)) rw"
    by (auto simp: calculateVoteReward_def bind_res_eq_Inr split: if_splits)
  have "rw = map (\<lambda>(a, v). (a, Stake v)) (filter (\<lambda>(a, v). rewarded s cb v) (Votes s))"
    "al = rewarded_stake s cb"
    using foldM_voteRewardStep[OF fold assms(2)] by (simp_all add: rewarded_stake_def)
  then show ?thesis using m by (auto simp: case_prod_unfold)
qed

text \<open>Rounding each share down loses less than one unit per share.\<close>

lemma sum_shares:
  fixes S :: int
  assumes "0 < S"
  shows "(\<Sum>x\<leftarrow>xs. f x div S) * S \<le> (\<Sum>x\<leftarrow>xs. f x)"
    and "(\<Sum>x\<leftarrow>xs. f x) - S * int (length xs) \<le> (\<Sum>x\<leftarrow>xs. f x div S) * S - int (length xs)"
proof -
  have *: "f x div S * S \<le> f x" "f x - S + 1 \<le> f x div S * S" for x
    using assms pos_mod_bound[OF assms, of "f x"] div_mult_mod_eq[of "f x" S] pos_mod_sign[OF assms, of "f x"]
    by linarith+
  show "(\<Sum>x\<leftarrow>xs. f x div S) * S \<le> (\<Sum>x\<leftarrow>xs. f x)"
    using * by (induction xs) (auto simp: distrib_right intro: add_mono)
  show "(\<Sum>x\<leftarrow>xs. f x) - S * int (length xs) \<le> (\<Sum>x\<leftarrow>xs. f x div S) * S - int (length xs)"
  proof (induction xs)
    case (Cons x xs)
    then show ?case using *(2)[of x] by (simp add: algebra_simps)
  qed simp
qed

lemma gsum_filter_list:
  "gsum (\<lambda>_ v. if P v then g v else 0) vs = (\<Sum>e\<leftarrow>filter (\<lambda>(a, v). P v) vs. g (snd e))"
  by (induction vs) auto

lemma gsum_map_list: "gsum (\<lambda>_ x. x) (map (\<lambda>(a, v). (a, g v)) es) = (\<Sum>e\<leftarrow>es. g (snd e))"
  by (induction es) auto

lemma calculateVoteReward_total:
  assumes "calculateVoteReward s cb r = Inr m" "ginv (Votes s)" "m \<noteq> []"
  shows "gsum (\<lambda>_ x. x) m \<le> r" "r - int (length m) < gsum (\<lambda>_ x. x) m"
proof -
  let ?S = "rewarded_stake s cb"
  let ?es = "filter (\<lambda>(a, v). rewarded s cb v) (Votes s)"
  have m: "m = map (\<lambda>(a, v). (a, Stake v * r div ?S)) ?es" and S: "0 < ?S"
    using calculateVoteReward_eq[OF assms(1,2)] assms(3) by blast+
  have len: "length m = length ?es" "0 < length ?es" using m assms(3) by auto
  have sum: "(\<Sum>e\<leftarrow>?es. Stake (snd e) * r) = ?S * r"
    unfolding rewarded_stake_def gsum_filter_list by (simp add: sum_list_mult_const)
  have G: "gsum (\<lambda>_ x. x) m = (\<Sum>e\<leftarrow>?es. Stake (snd e) * r div ?S)"
    unfolding m by (rule gsum_map_list)
  have "gsum (\<lambda>_ x. x) m * ?S \<le> r * ?S"
    using sum_shares(1)[OF S, where xs = ?es and f = "\<lambda>e. Stake (snd e) * r"] sum G by (simp add: mult.commute)
  then show "gsum (\<lambda>_ x. x) m \<le> r" using S by simp
  have "?S * r - ?S * int (length m) \<le> gsum (\<lambda>_ x. x) m * ?S - int (length m)"
    using sum_shares(2)[OF S, where xs = ?es and f = "\<lambda>e. Stake (snd e) * r"]
    unfolding sum G[symmetric] len(1) .
  moreover have "(r - int (length m)) * ?S = ?S * r - ?S * int (length m)"
    by (simp only: right_diff_distrib mult.commute)
  ultimately have "(r - int (length m)) * ?S < gsum (\<lambda>_ x. x) m * ?S"
    using len by linarith
  then show "r - int (length m) < gsum (\<lambda>_ x. x) m" using S by simp
qed

subsection \<open>The reward schedule\<close>

lemma halving_sum: "(\<Sum>y<Suc Y. i div 2 ^ y) \<le> 2 * i - i div 2 ^ Y" if "0 \<le> (i :: int)"
proof (induction Y)
  case (Suc Y)
  have "i div 2 ^ Suc Y = i div 2 ^ Y div 2"
    by (simp add: zdiv_zmult2_eq[symmetric] mult.commute)
  then have "2 * (i div 2 ^ Suc Y) \<le> i div 2 ^ Y" by linarith
  then show ?case using Suc by simp
qed simp

lemma yearly_sum: "(\<Sum>n<B * Y. f (n div B)) = int B * (\<Sum>y<Y. f y)" if "0 < B"
proof (induction Y)
  case (Suc Y)
  have "(\<Sum>n<B * Suc Y. f (n div B)) = (\<Sum>n<B * Y. f (n div B)) + (\<Sum>n\<in>{B * Y..<B * Y + B}. f (n div B))"
    by (simp add: sum.atLeastLessThan_concat lessThan_atLeast0 add.commute)
  also have "(\<Sum>n\<in>{B * Y..<B * Y + B}. f (n div B)) = (\<Sum>n\<in>{B * Y..<B * Y + B}. f Y)"
  proof (rule sum.cong[OF refl])
    fix n assume "n \<in> {B * Y..<B * Y + B}"
    then have "n div B = Y" using that by (intro div_nat_eqI) (auto simp: mult.commute)
    then show "f (n div B) = f Y" by simp
  qed
  also have "\<dots> = int B * f Y" by simp
  finally show ?case using Suc by (simp add: distrib_left)
qed simp

lemma schedule_bound:
  assumes "0 < B" "0 \<le> (T :: int)"
  shows "(\<Sum>n<N. T div (2 * int B) div 2 ^ (n div B)) \<le> T"
proof -
  let ?i = "T div (2 * int B)"
  have i: "0 \<le> ?i" using assms by (intro pos_imp_zdiv_nonneg_iff[THEN iffD2]) auto
  have "N \<le> B * Suc N" using assms(1) by (cases B) auto
  then have "(\<Sum>n<N. ?i div 2 ^ (n div B)) \<le> (\<Sum>n<B * Suc N. ?i div 2 ^ (n div B))"
    using i by (intro sum_mono2) (auto simp: pos_imp_zdiv_nonneg_iff)
  also have "\<dots> = int B * (\<Sum>y<Suc N. ?i div 2 ^ y)"
    by (rule yearly_sum[OF assms(1)])
  also have "\<dots> \<le> int B * (2 * ?i)"
    using halving_sum[OF i, of N] i
    by (intro mult_left_mono order_trans[OF halving_sum[OF i]]) (auto simp: pos_imp_zdiv_nonneg_iff)
  also have "int B * (2 * ?i) = ?i * (2 * int B)" by simp
  also have "\<dots> \<le> T"
    using div_mult_mod_eq[of T "2 * int B"] pos_mod_sign[of "2 * int B" T] assms(1) by linarith
  finally show ?thesis .
qed

lemma blockRewardOf_eq:
  assumes "B = unat (secondsPerYear div period)" "0 < B" "period \<noteq> 0" "0 \<le> n" "n < 2 ^ 64"
  shows "blockRewardOf period n = Inr (totalBlockReward div (2 * int B) div 2 ^ (nat n div B))"
proof -
  let ?b = "secondsPerYear div period"
  have "unat ?b \<le> unat secondsPerYear" by (simp add: unat_div)
  also have "\<dots> = 31536000" by (simp add: secondsPerYear_def)
  finally have small: "unat ?b \<le> 31536000" .
  have u2: "unat (2 * ?b) = 2 * unat ?b"
    using small by (simp add: unat_word_ariths)
  then have "int (unat (2 * ?b)) \<le> 63072000" using small by linarith
  then have "int (unat (2 * ?b)) < 2 ^ 63" by (rule order.strict_trans1) simp
  then have two: "go_int (2 * ?b) = 2 * int B"
    by (simp only: go_int_small u2 assms(1) of_nat_mult of_nat_numeral)
  have "?b \<noteq> 0" using assms(1,2) by auto
  moreover have "unat (Uint64 n div ?b) = nat n div B"
    using assms(1) unat_Uint64[OF assms(4,5)] by (simp add: unat_div)
  ultimately show ?thesis
    using assms(2,3) by (simp add: blockRewardOf_def u64_div_def two)
qed

subsection \<open>The balance sheet of a block\<close>

definition paid :: "(address, int) gomap \<Rightarrow> address \<Rightarrow> int" where
  "paid m a = gsum (\<lambda>k x. if k = a then x else 0) m"

lemma accumulateRewards_balance:
  assumes "accumulateRewards cfg st hdr snap gas = Inr st'"
  obtains R m sc left where
    "blockRewardOf (Period cfg) (Hdr_Number hdr) = Inr R"
    "calculateVoteReward snap (Coinbase hdr) (R - R * uint (MinerReward snap) div 1000) = Inr m"
    "calculateSCReward snap (R * uint (MinerReward snap) div 1000) = (sc, left)"
    "\<And>a. st' a = st a + paid m a + paid (calculateProposalRefund snap) a + paid sc a + paid gas a
       + (if a = Coinbase hdr then max 0 (left - gsum (\<lambda>_ x. x) gas) else 0)"
proof -
  from assms obtain R m where R: "blockRewardOf (Period cfg) (Hdr_Number hdr) = Inr R"
    "calculateVoteReward snap (Coinbase hdr) (R - R * uint (MinerReward snap) div 1000) = Inr m"
    unfolding accumulateRewards_def bind_res_eq_Inr Let_def by blast
  obtain sc left where sc: "calculateSCReward snap (R * uint (MinerReward snap) div 1000) = (sc, left)"
    by (cases "calculateSCReward snap (R * uint (MinerReward snap) div 1000)")
  have "st' a = st a + paid m a + paid (calculateProposalRefund snap) a + paid sc a + paid gas a
       + (if a = Coinbase hdr then max 0 (left - gsum (\<lambda>_ x. x) gas) else 0)" for a
    using assms unfolding accumulateRewards_def R bind_res_simps Let_def sc prod.case payRefunds_eq sum.inject
    by (auto simp: AddBalance_def payAll_gsum paid_def max_def)
  then show ?thesis by (rule that[OF R sc])
qed

lemma scShares_none: "SCRecordMap s = [] \<Longrightarrow> scShares s r = (0, r, 1000)"
  by (simp add: scShares_def Let_def)

lemma calculateSCReward_none:
  assumes "SCRecordMap s = []"
  shows "calculateSCReward s r = ([], r)"
proof -
  have "scRewardChain s x y m e = m" for x y m e
    using assms by (cases e) (auto simp: scRewardChain_def split: option.split)
  then have "foldl (scRewardChain s x y) m es = m" for x y m es
    by (induction es arbitrary: m) auto
  then show ?thesis by (simp add: calculateSCReward_def scShares_none[OF assms])
qed

lemma calculateSCReward_single:
  assumes "SCRecordMap s = [(h, r)]" "RewardPerPeriod r = p" "0 < p" "p < 1000" "RentReward r = []"
    "SCRewardMap s = [(h, \<lparr>SCBlockRewardMap = [(Number s, \<lparr>RewardScoreMap = [(a, 100)]\<rparr>)]\<rparr>)]"
  shows "calculateSCReward s x =
    ([(a, x * uint p div 1000 * uint p div 1000)], x - x * uint p div 1000)"
proof -
  have shares: "scShares s x = (x * uint p div 1000, x - x * uint p div 1000, 1000)"
    using assms by (simp add: scShares_def Let_def)
  have "rentSum s r = 0" using assms(5) by (simp add: rentSum_def)
  then show ?thesis
    unfolding calculateSCReward_def shares prod.case
    using assms by (simp add: scRewardChain_def sc_defs gget_def addTo_def gput_def singleReward_def)
qed

subsection \<open>Properties\<close>

text \<open>
  Vote rewards: what \<open>calculateVoteReward\<close> distributes to the voters of the signer never exceeds
  the voters' share of the block reward, and falls short of it by less than one unit per voter.
\<close>

lemma vote_reward_conserved:
  assumes "calculateVoteReward s cb r = Inr m" "ginv (Votes s)" "m \<noteq> []"
  shows "gsum (\<lambda>_ x. x) m \<le> r \<and> r - int (length m) < gsum (\<lambda>_ x. x) m"
  using calculateVoteReward_total[OF assms] by simp

definition sample_voters :: snapshot where
  "sample_voters = sample_snapshot\<lparr>Number := 10, Voters := [(1, 2), (2, 3)],
     Votes := [(1, \<lparr>Voter = 1, Candidate = 9, Stake = 1\<rparr>), (2, \<lparr>Voter = 2, Candidate = 9, Stake = 2\<rparr>)]\<rparr>"

lemma vote_reward_conserved_witness:
  "gsum (\<lambda>_ x. x) [(1 :: address, 33), (2, 66)] \<le> 100 \<and>
   100 - int (length [(1 :: address, 33), (2, 66)]) < gsum (\<lambda>_ x. x) [(1 :: address, 33), (2, 66)]"
proof -
  have "calculateVoteReward sample_voters 9 100 = Inr [(1, 33), (2, 66)]" by code_simp
  moreover have "ginv (Votes sample_voters)" by (simp add: sample_voters_def ginv_def)
  ultimately show ?thesis using vote_reward_conserved[of sample_voters 9 100 "[(1, 33), (2, 66)]"] by simp
qed

text \<open>
  The reward schedule: the block rewards of any number of blocks sum to at most
  \<open>totalBlockReward\<close>, for every period of at most a year.
\<close>

lemma reward_schedule_bounded:
  assumes "period \<noteq> 0" "period \<le> secondsPerYear" "int N \<le> 2 ^ 64"
  shows "(\<Sum>n<N. case blockRewardOf period (int n) of Inr r \<Rightarrow> r | Inl _ \<Rightarrow> 0) \<le> totalBlockReward"
proof -
  define B where "B = unat (secondsPerYear div period)"
  have "0 < unat period" using assms(1) by (simp add: unat_gt_0)
  then have pos: "0 < B"
    using assms(2) unfolding B_def unat_div by (intro div_greater_zero_iff[THEN iffD2]) (simp add: word_le_nat_alt)
  have "(\<Sum>n<N. case blockRewardOf period (int n) of Inr r \<Rightarrow> r | Inl _ \<Rightarrow> 0)
      = (\<Sum>n<N. totalBlockReward div (2 * int B) div 2 ^ (n div B))"
  proof (rule sum.cong[OF refl])
    fix n assume "n \<in> {..<N}"
    then have "int n < 2 ^ 64" using assms(3) by simp
    from blockRewardOf_eq[OF B_def pos assms(1) _ this]
    show "(case blockRewardOf period (int n) of Inr r \<Rightarrow> r | Inl _ \<Rightarrow> 0) =
        totalBlockReward div (2 * int B) div 2 ^ (n div B)" by simp
  qed
  also have "\<dots> \<le> totalBlockReward"
    by (rule schedule_bound[OF pos]) (simp add: totalBlockReward_def)
  finally show ?thesis .
qed

lemma reward_schedule_bounded_witness:
  "(\<Sum>n<(1000 :: nat). case blockRewardOf 3 (int n) of Inr r \<Rightarrow> r | Inl _ \<Rightarrow> 0) \<le> totalBlockReward"
  by (rule reward_schedule_bounded) (simp_all add: secondsPerYear_def)

text \<open>
  C29.  The balance sheet of a block: \<open>accumulateRewards\<close> adds to every account exactly its vote
  rewards, proposal refunds, side chain rewards and gas refunds, and to the signer in addition what
  is left of the miner's share after the gas refunds, if anything is left; nothing else changes.
\<close>

theorem block_balance_sheet:
  assumes "accumulateRewards cfg st hdr snap gas = Inr st'"
  shows "\<exists>R m sc left. blockRewardOf (Period cfg) (Hdr_Number hdr) = Inr R
    \<and> calculateVoteReward snap (Coinbase hdr) (R - R * uint (MinerReward snap) div 1000) = Inr m
    \<and> calculateSCReward snap (R * uint (MinerReward snap) div 1000) = (sc, left)
    \<and> (\<forall>a. st' a = st a + paid m a + paid (calculateProposalRefund snap) a + paid sc a + paid gas a
         + (if a = Coinbase hdr then max 0 (left - gsum (\<lambda>_ x. x) gas) else 0))"
  by (rule accumulateRewards_balance[OF assms]) blast

theorem block_balance_sheet_witness:
  "\<exists>st'. accumulateRewards sample_config (\<lambda>_. 0) sample_header sample_snapshot [(5, 7)] = Inr st' \<and> st' 5 = 7 \<and> st' 6 = 0"
proof -
  have v: "calculateVoteReward sample_snapshot cb r = Inr []" for cb r
    by (simp add: calculateVoteReward_def sample_defs)
  have sc: "calculateSCReward sample_snapshot r = ([], r)" for r
    by (rule calculateSCReward_none) (simp add: sample_defs)
  have "\<exists>R. blockRewardOf (Period sample_config) (Hdr_Number sample_header) = Inr R"
    by (rule exI, code_simp)
  then obtain st' where a: "accumulateRewards sample_config (\<lambda>_. 0) sample_header sample_snapshot [(5, 7)] = Inr st'"
    by (auto simp: accumulateRewards_def Let_def v sc payRefunds_eq)
  have "calculateProposalRefund sample_snapshot = []"
    by (simp add: calculateProposalRefund_def sample_defs)
  then show ?thesis
    using block_balance_sheet[OF a] a by (auto simp: paid_def sample_header_def v sc)
qed

text \<open>
  A side chain's reward is scaled twice: with one side chain that gets \<open>p\<close> per thousand and one
  coinbase with the full score, the coinbase is paid \<open>p / 1000\<close> of \<open>p / 1000\<close> of the miner's reward,
  while \<open>p / 1000\<close> of it is taken from the miner.
\<close>

lemma sc_reward_scaled_twice:
  assumes "SCRecordMap s = [(h, r)]" "RewardPerPeriod r = p" "0 < p" "p < 1000" "RentReward r = []"
    "SCRewardMap s = [(h, \<lparr>SCBlockRewardMap = [(Number s, \<lparr>RewardScoreMap = [(a, 100)]\<rparr>)]\<rparr>)]"
  shows "calculateSCReward s x =
    ([(a, x * uint p div 1000 * uint p div 1000)], x - x * uint p div 1000)"
  by (rule calculateSCReward_single[OF assms])

lemma sc_reward_scaled_twice_witness:
  "calculateSCReward (sample_snapshot\<lparr>SCRecordMap := [(1, sample_record\<lparr>RewardPerPeriod := 500\<rparr>)],
     SCRewardMap := [(1, \<lparr>SCBlockRewardMap = [(0, \<lparr>RewardScoreMap = [(7, 100)]\<rparr>)]\<rparr>)]\<rparr>) 1000 = ([(7, 250)], 500)"
  using sc_reward_scaled_twice[of "sample_snapshot\<lparr>SCRecordMap := [(1, sample_record\<lparr>RewardPerPeriod := 500\<rparr>)],
     SCRewardMap := [(1, \<lparr>SCBlockRewardMap = [(0, \<lparr>RewardScoreMap = [(7, 100)]\<rparr>)]\<rparr>)]\<rparr>" 1
     "sample_record\<lparr>RewardPerPeriod := 500\<rparr>" 500 7 1000]
  by (simp add: sample_snapshot_def sample_record_def)

end
