(* ===== verification/Alien_Apply.thy ===== *)
theory Alien_Apply
  imports Alien_Tally Alien_Signing Alien_Queue Alien_Reward
begin

text \<open>
  Snapshots as a whole (\<open>consensus/alien/snapshot.go\<close>): \<open>newSnapshot\<close>, the defaults
  \<open>loadSnapshot\<close> fills in, \<open>copy\<close>, and \<open>apply\<close>, which runs every update of the other theories
  on the events of each header, in the order of the code.

  The header hash, the signer recovered from the seal and the decoding of the extra data are
  parameters, the fields of \<open>env\<close>.
\<close>

subsection \<open>Operations\<close>

record env =
  header_hash :: "header \<Rightarrow> hash"
  recover :: "header \<Rightarrow> address res"
  decodeHeaderExtra :: "alien_config \<Rightarrow> int \<Rightarrow> byte list \<Rightarrow> header_extra res"

definition initVote :: "snapshot \<Rightarrow> vote \<Rightarrow> snapshot" where
  "initVote snap v =
     snap\<lparr>Votes := gput (Votes snap) (Voter v) v,
          Tally := gput (Tally snap) (Candidate v)
            ((case gget (Tally snap) (Candidate v) of None \<Rightarrow> 0 | Some t \<Rightarrow> t) + Stake v),
          Voters := gput (Voters snap) (Voter v) 0,
          Candidates := gput (Candidates snap) (Voter v) candidateStateNormal\<rparr>"

definition newSnapshot :: "u64 \<Rightarrow> alien_config \<Rightarrow> hash \<Rightarrow> vote list \<Rightarrow> u64 \<Rightarrow> snapshot" where
  "newSnapshot now cfg h votes lcrs =
     (let snap = \<lparr>config = cfg, LCRS = lcrs, Snap_Period = Period cfg, Number = 0,
            ConfirmedNumber = 0, Hash = h, HistoryHash = [h], Signers = [], Votes = [], Tally = [],
            Voters = [], Candidates = [], Punished = [], Confirmations = [], Proposals = [],
            PropHeap = [], HeaderTime = now - 1, LoopStartTime = GenesisTimestamp cfg,
            ProposalRefund = [], SCCoinbase = [], SCRecordMap = [], SCRewardMap = [],
            SCNoticeMap = [], LocalNotice = \<lparr>CurrentCharging = [], ConfirmReceived = []\<rparr>,
            MinerReward = minerRewardPerThousand, MinVB = MinVoterBalance cfg\<rparr>;
          snap1 = foldl initVote snap votes;
          self = SelfVoteSigners cfg
      in if length self > 0
         then snap1\<lparr>Signers := map (\<lambda>i. self ! (i mod length self)) [0..<nat (go_int (MaxSignerCount cfg))]\<rparr>
         else snap1)"

text \<open>What \<open>loadSnapshot\<close> does with the decoded snapshot.\<close>

definition fillDefaults :: "snapshot \<Rightarrow> snapshot" where
  "fillDefaults s =
     s\<lparr>MinerReward := (if MinerReward s = 0 then minerRewardPerThousand else MinerReward s),
       MinVB := (case MinVB s of None \<Rightarrow> Some minVoterBalance | Some b \<Rightarrow> Some b)\<rparr>"

definition loadSnapshot :: "(hash \<Rightarrow> snapshot option) \<Rightarrow> alien_config \<Rightarrow> hash \<Rightarrow> snapshot option" where
  "loadSnapshot db cfg h = map_option (\<lambda>s. fillDefaults (s\<lparr>config := cfg\<rparr>)) (db h)"

definition storeSnapshot :: "(hash \<Rightarrow> snapshot option) \<Rightarrow> snapshot \<Rightarrow> hash \<Rightarrow> snapshot option" where
  "storeSnapshot db s = db(Hash s \<mapsto> s)"

text \<open>
  \<open>copy\<close>: every map is rebuilt with copied values, so the only visible changes are the defaults
  and that every proposal gets an object of its own.
\<close>

definition copyProposal :: "snapshot \<Rightarrow> (hash, nat) gomap \<times> proposal list \<Rightarrow> hash \<times> nat \<Rightarrow>
    ((hash, nat) gomap \<times> proposal list) res" where
  "copyProposal s acc e =
     (case deref s (snd e) of
        None \<Rightarrow> Inl PanicNil
      | Some p \<Rightarrow> Inr (gput (fst acc) (fst e) (length (snd acc)), snd acc @ [p]))"

definition copySnapshot :: "snapshot \<Rightarrow> snapshot res" where
  "copySnapshot s =
     bind_res (foldM (copyProposal s) ([], []) (Proposals s))
       (\<lambda>(m, h). Inr (fillDefaults (s\<lparr>Proposals := m, PropHeap := h\<rparr>)))"

definition pushHistory :: "alien_config \<Rightarrow> hash list \<Rightarrow> hash \<Rightarrow> hash list res" where
  "pushHistory cfg hist h =
     (let lim = wrap_int (go_int (MaxSignerCount cfg) * 2)
      in bind_res (if int (length hist) \<ge> lim then go_slice hist 1 lim else Inr hist)
           (\<lambda>hist'. Inr (hist' @ [h])))"

text \<open>The events of one header, in the order of the code.\<close>

definition applyEvents :: "snapshot \<Rightarrow> header \<Rightarrow> header_extra \<Rightarrow> snapshot res" where
  "applyEvents snap hdr extra =
     (let n = Hdr_Number hdr; snap0 = updateSnapshotByConfirmations snap (CurrentBlockConfirmations extra)
      in bind_res (updateSnapshotByVotes snap0 (CurrentBlockVotes extra) n) (\<lambda>snap1.
         bind_res (updateSnapshotByMPVotes snap1 (ModifyPredecessorVotes extra)) (\<lambda>snap2.
         let snap3 = updateSnapshotForPunish snap2 (SignerMissing extra) n (Coinbase hdr);
             snap4 = updateSnapshotByProposals snap3 (CurrentBlockProposals extra) n
         in bind_res (updateSnapshotByDeclares snap4 (CurrentBlockDeclares extra) n) (\<lambda>snap5.
         let snap6 = (if Snap_Period snap5 = 0 then snap5\<lparr>Snap_Period := Period (config snap5)\<rparr> else snap5);
             snap7 = updateSnapshotBySetSCCoinbase snap6 (SideChainSetCoinbases extra)
         in bind_res (updateSnapshotBySCConfirm snap7 (SideChainConfirmations extra) n) (\<lambda>snap8.
         bind_res (updateSnapshotByNoticeConfirm snap8 (SideChainNoticeConfirmed extra) n) (\<lambda>snap9.
         bind_res (calculateProposalResult snap9 n) (\<lambda>snap10.
         bind_res (if candidateNeedPD then Inr False
                   else bind_res (u64_mod (Number snap10 + 1) (MaxSignerCount (config snap10) * LCRS snap10))
                          (\<lambda>r. Inr (r = 0 \<and> length (Candidates snap10) > candidateMaxLen))) (\<lambda>full.
         let snap11 = (if full then removeExtraCandidate snap10 else snap10)
         in bind_res (updateSnapshotBySCCharging snap11 (SideChainCharging extra) n (Coinbase hdr)) (\<lambda>snap12.
         updateSnapshotForExpired snap12 n)))))))))"

definition applyHeader :: "env \<Rightarrow> snapshot \<Rightarrow> header \<Rightarrow> snapshot res" where
  "applyHeader env snap hdr =
     bind_res (recover env hdr) (\<lambda>coinbase.
       if coinbase \<noteq> Coinbase hdr \<and> Hdr_Number hdr \<noteq> bugFixBlockNumber then Inl errUnauthorized
       else bind_res (go_slice (Extra hdr) (int extraVanity) (int (length (Extra hdr)) - int extraSeal)) (\<lambda>body.
         bind_res (decodeHeaderExtra env (config snap) (Hdr_Number hdr) body) (\<lambda>extra.
         bind_res (pushHistory (config snap) (HistoryHash snap) (header_hash env hdr)) (\<lambda>hist.
           applyEvents (snap\<lparr>HeaderTime := Uint64 (Hdr_Time hdr), LoopStartTime := Ext_LoopStartTime extra,
               Signers := SignerQueue extra, ConfirmedNumber := ConfirmedBlockNumber extra,
               HistoryHash := hist\<rparr>) hdr extra))))"

definition contiguous :: "u64 \<Rightarrow> header list \<Rightarrow> bool" where
  "contiguous number headers \<longleftrightarrow>
     list_all (\<lambda>i. Uint64 (Hdr_Number (headers ! (i + 1))) = Uint64 (Hdr_Number (headers ! i)) + 1)
       [0..<length headers - 1] \<and>
     Uint64 (Hdr_Number (headers ! 0)) = number + 1"

definition apply_snapshot :: "env \<Rightarrow> snapshot \<Rightarrow> header list \<Rightarrow> snapshot res" where
  "apply_snapshot env s headers =
     (if headers = [] then Inr s
      else if \<not> contiguous (Number s) headers then Inl errInvalidVotingChain
      else bind_res (copySnapshot s) (\<lambda>snap.
        bind_res (foldM (applyHeader env) snap headers) (\<lambda>snap'.
        let snap'' = snap'\<lparr>Number := Number snap' + of_nat (length headers),
                          Hash := header_hash env (last headers)\<rparr>
        in bind_res (verifyTallyCnt snap'') (\<lambda>_. Inr snap''))))"

subsection \<open>The invariant of a snapshot\<close>

text \<open>
  \<open>book_ok\<close> collects the invariants of the components other than the tallies; \<open>book\<close> is the part of
  a snapshot it depends on.
\<close>

definition book where
  "book s = (Number s, LCRS s, config s, Proposals s, PropHeap s, SCRecordMap s, SCNoticeMap s, LocalNotice s, Punished s)"

definition book_ok :: "snapshot \<Rightarrow> bool" where
  "book_ok s \<longleftrightarrow> heap_ok s \<and> declared_once s \<and> sc_ok s \<and> notices_ok s \<and> local_ok s \<and> ginv (Punished s)"

definition snapshot_ok :: "snapshot \<Rightarrow> bool" where
  "snapshot_ok s \<longleftrightarrow> tally_inv s \<and> book_ok s"

lemma book_ok_cong: "book t = book s \<Longrightarrow> book_ok t = book_ok s"
  by (simp add: book_def book_ok_def heap_ok_def declared_once_def sc_ok_def notices_ok_def local_ok_def
      neededNotices_def)

lemma same_votes_tally: "same_votes s t \<Longrightarrow> tally_inv t = tally_inv s"
  by (rule tally_inv_cong) (simp_all add: same_votes_def)

lemma snapshot_okI:
  "snapshot_ok s \<Longrightarrow> same_votes s t \<Longrightarrow> book t = book s \<Longrightarrow> snapshot_ok t"
  using book_ok_cong[of t s] same_votes_tally[of s t] by (simp add: snapshot_ok_def)

lemma snapshot_ok_book:
  "snapshot_ok s \<Longrightarrow> tally_inv t \<Longrightarrow> book t = book s \<Longrightarrow> snapshot_ok t"
  using book_ok_cong[of t s] by (simp add: snapshot_ok_def)

text \<open>A header's events as an honest signer makes them.\<close>

definition extra_ok :: "header_extra \<Rightarrow> bool" where
  "extra_ok e \<longleftrightarrow>
     (\<forall>v\<in>set (CurrentBlockVotes e). 0 \<le> Stake v) \<and> (\<forall>v\<in>set (ModifyPredecessorVotes e). 0 \<le> Stake v) \<and>
     (\<forall>p\<in>set (CurrentBlockProposals e). distinct (map Declarer (Declares p)))"

subsection \<open>Every step keeps it\<close>

lemma updateSnapshotByConfirmations_ok:
  "snapshot_ok s \<Longrightarrow> snapshot_ok (updateSnapshotByConfirmations s cs)"
  by (rule snapshot_okI) (simp_all add: same_votes_def book_def updateSnapshotByConfirmations_def)

lemma updateVote_book: "updateVote n s v = Inr t \<Longrightarrow> book t = book s"
  by (auto simp: updateVote_def book_def bind_res_eq_Inr Let_def split: option.splits)

lemma updateSnapshotByVotes_ok:
  assumes "updateSnapshotByVotes s vs n = Inr t" "snapshot_ok s" "\<forall>v\<in>set vs. 0 \<le> Stake v"
  shows "snapshot_ok t"
proof (rule snapshot_ok_book[OF assms(2)])
  show "tally_inv t"
    using updateSnapshotByVotes_inv[OF _ assms(3,1)] assms(2) by (simp add: snapshot_ok_def)
  show "book t = book s"
    by (rule foldM_keeps[OF assms(1)[unfolded updateSnapshotByVotes_def]]) (rule updateVote_book)
qed

lemma updateMPVote_book: "updateMPVote s v = Inr t \<Longrightarrow> book t = book s"
  by (auto simp: updateMPVote_def book_def bind_res_eq_Inr split: option.splits)

lemma updateSnapshotByMPVotes_ok:
  assumes "updateSnapshotByMPVotes s vs = Inr t" "snapshot_ok s" "\<forall>v\<in>set vs. 0 \<le> Stake v"
  shows "snapshot_ok t"
proof (rule snapshot_ok_book[OF assms(2)])
  show "tally_inv t"
    using updateSnapshotByMPVotes_inv[OF _ assms(3,1)] assms(2) by (simp add: snapshot_ok_def)
  show "book t = book s"
    by (rule foldM_keeps[OF assms(1)[unfolded updateSnapshotByMPVotes_def]]) (rule updateMPVote_book)
qed

lemma updateSnapshotForPunish_ok:
  assumes "snapshot_ok s"
  shows "snapshot_ok (updateSnapshotForPunish s m n cb)"
proof -
  have "tally_inv (updateSnapshotForPunish s m n cb)"
    using assms tally_inv_cong[of "updateSnapshotForPunish s m n cb" s]
    by (simp add: frame_simps snapshot_ok_def)
  moreover have "ginv (Punished (updateSnapshotForPunish s m n cb))"
    using assms updateSnapshotForPunish_ginv by (simp add: snapshot_ok_def book_ok_def)
  ultimately show ?thesis
    using assms by (simp add: snapshot_ok_def book_ok_def heap_ok_def declared_once_def sc_ok_def notices_ok_def
        local_ok_def neededNotices_def updateSnapshotForPunish_def Let_def)
qed

text \<open>The part of the book that proposals and declares leave alone.\<close>

definition scbook where
  "scbook s = (Number s, LCRS s, config s, SCRecordMap s, SCNoticeMap s, LocalNotice s, Punished s)"

lemma scbook_ok:
  assumes "snapshot_ok s" "same_votes s t" "scbook t = scbook s" "heap_ok t" "declared_once t"
  shows "snapshot_ok t"
  using assms same_votes_tally[OF assms(2)]
  by (simp add: snapshot_ok_def book_ok_def scbook_def sc_ok_def notices_ok_def local_ok_def neededNotices_def)

lemma updateSnapshotByProposals_once:
  assumes "declared_once s" "\<forall>p\<in>set ps. distinct (map Declarer (Declares p))"
  shows "declared_once (updateSnapshotByProposals s ps n)"
proof (cases "ps = []")
  case True
  then show ?thesis using assms by (simp add: updateSnapshotByProposals_def)
next
  case False
  then have "distinct (map Declarer (Declares (last ps)))" using assms(2) by simp
  then show ?thesis
    unfolding updateSnapshotByProposals_def storeProposals_eq[OF order_refl False]
    using assms(1) by (auto simp: declared_once_def writeCell_def)
qed

lemma updateSnapshotByProposals_ok:
  assumes "snapshot_ok s" "\<forall>p\<in>set ps. distinct (map Declarer (Declares p))"
  shows "snapshot_ok (updateSnapshotByProposals s ps n)"
proof (rule scbook_ok[OF assms(1) updateSnapshotByProposals_same_votes])
  show "scbook (updateSnapshotByProposals s ps n) = scbook s"
    unfolding updateSnapshotByProposals_def by (rule foldl_keeps) (simp add: storeProposal_def scbook_def)
qed (use assms updateSnapshotByProposals_heap_ok updateSnapshotByProposals_once in
  \<open>auto simp: snapshot_ok_def book_ok_def\<close>)

lemma updateSnapshotByDeclares_ok:
  assumes "updateSnapshotByDeclares s ds n = Inr t" "snapshot_ok s"
  shows "snapshot_ok t"
proof (rule scbook_ok[OF assms(2) updateSnapshotByDeclares_same_votes[OF assms(1)]])
  show "scbook t = scbook s"
    by (rule foldM_keeps[OF assms(1)[unfolded updateSnapshotByDeclares_def]])
      (erule updateDeclare_cases; simp add: scbook_def)
qed (use assms updateSnapshotByDeclares_total[of s ds n] in \<open>auto simp: snapshot_ok_def book_ok_def\<close>)

lemma updateSnapshotBySetSCCoinbase_ok:
  assumes "snapshot_ok s"
  shows "snapshot_ok (updateSnapshotBySetSCCoinbase s cs)"
proof (rule snapshot_okI[OF assms])
  show "book (updateSnapshotBySetSCCoinbase s cs) = book s"
    unfolding updateSnapshotBySetSCCoinbase_def by (rule foldl_keeps) (simp add: setSCCoinbase_def book_def Let_def)
  show "same_votes s (updateSnapshotBySetSCCoinbase s cs)"
    unfolding updateSnapshotBySetSCCoinbase_def
    by (rule same_votes_foldl) (simp add: setSCCoinbase_def same_votes_def Let_def)
qed

text \<open>The part of the book that side chain confirmations leave alone.\<close>

definition propbook where
  "propbook s = (Number s, LCRS s, config s, Proposals s, PropHeap s, SCNoticeMap s, LocalNotice s, Punished s)"

lemma recordSCConfirm_propbook: "propbook (recordSCConfirm s c) = propbook s"
  by (simp add: recordSCConfirm_def propbook_def split: option.split)

lemma ensureSCReward_propbook: "propbook (ensureSCReward s h) = propbook s"
  by (simp add: ensureSCReward_def propbook_def)

lemma installSCConfirm_propbook: "propbook (installSCConfirm s h r n sc) = propbook s"
  by (simp add: installSCConfirm_def propbook_def Let_def)

lemma confirmSideChain_propbook:
  assumes "confirmSideChain mc n s e = Inr t"
  shows "propbook t = propbook s"
proof -
  obtain h r where e: "e = (h, r)" by (cases e)
  from assms have "t = ensureSCReward s h \<or> (\<exists>r' sc. t = installSCConfirm (ensureSCReward s h) h r' n sc)"
    unfolding e confirmSideChain_def prod.case Let_def bind_res_eq_Inr
    by (auto simp only: sum.inject case_prod_unfold bind_res_eq_Inr split: if_splits)
  then show ?thesis by (auto simp: ensureSCReward_propbook installSCConfirm_propbook)
qed

lemma updateSnapshotBySCConfirm_propbook:
  assumes "updateSnapshotBySCConfirm s cs n = Inr t"
  shows "propbook t = propbook s"
proof -
  define s1 where "s1 = foldl recordSCConfirm s cs"
  have s1: "propbook s1 = propbook s"
    unfolding s1_def by (rule foldl_keeps) (rule recordSCConfirm_propbook)
  have upd: "propbook t' = propbook u" if "updateSCConfirmation u n = Inr t'" for u t'
  proof -
    from that obtain v where v: "foldM (confirmSideChain (go_int (2 * MaxSignerCount (config u) div 3)) n) u (SCRecordMap u) = Inr v"
      "t' = clearSCReward v n"
      unfolding updateSCConfirmation_def bind_res_eq_Inr sum.inject by blast
    have "propbook v = propbook u" by (rule foldM_keeps[OF v(1)]) (rule confirmSideChain_propbook)
    then show ?thesis by (simp add: v(2) clearSCReward_def propbook_def Let_def)
  qed
  from assms obtain b where b: "(if b then updateSCConfirmation (checkSCConfirmation s1 n) n else Inr s1) = Inr t"
    unfolding updateSnapshotBySCConfirm_def s1_def[symmetric] Let_def bind_res_eq_Inr by blast
  show ?thesis
  proof (cases b)
    case True
    then have "propbook t = propbook (checkSCConfirmation s1 n)" using b upd by simp
    then show ?thesis using s1 by (simp add: checkSCConfirmation_def propbook_def)
  qed (use b s1 in simp)
qed

lemma updateSnapshotBySCConfirm_snapshot:
  assumes "updateSnapshotBySCConfirm s cs n = Inr t" "snapshot_ok s"
  shows "snapshot_ok t"
proof -
  have "sc_ok s" using assms(2) by (simp add: snapshot_ok_def book_ok_def)
  note t = updateSnapshotBySCConfirm_ok[OF assms(1) this]
  show ?thesis
    using updateSnapshotBySCConfirm_propbook[OF assms(1)] t same_votes_tally[of s t] assms(2)
    by (simp add: snapshot_ok_def book_ok_def propbook_def heap_ok_def declared_once_def notices_ok_def
        local_ok_def neededNotices_def)
qed

lemma updateSnapshotByNoticeConfirm_rest:
  assumes "updateSnapshotByNoticeConfirm s ncs n = Inr t"
  shows "(config t, Proposals t, PropHeap t, SCRecordMap t, LocalNotice t, Punished t) =
    (config s, Proposals s, PropHeap s, SCRecordMap s, LocalNotice s, Punished s)"
proof -
  let ?g = "\<lambda>s. (config s, Proposals s, PropHeap s, SCRecordMap s, LocalNotice s, Punished s)"
  define s1 where "s1 = foldl noticeConfirm s ncs"
  have "?g s1 = ?g s"
    unfolding s1_def by (rule foldl_keeps) (simp add: noticeConfirm_def split: option.split)
  moreover have "?g t = ?g s1"
    using assms unfolding updateSnapshotByNoticeConfirm_def s1_def[symmetric] Let_def bind_res_eq_Inr sum.inject
    by (auto split: if_splits)
  ultimately show ?thesis by simp
qed

lemma updateSnapshotByNoticeConfirm_snapshot:
  assumes "updateSnapshotByNoticeConfirm s ncs n = Inr t" "snapshot_ok s"
  shows "snapshot_ok t"
proof -
  have "notices_ok s" using assms(2) by (simp add: snapshot_ok_def book_ok_def)
  note t = updateSnapshotByNoticeConfirm_ok[OF assms(1) this]
  show ?thesis
    using updateSnapshotByNoticeConfirm_rest[OF assms(1)] t same_votes_tally[of s t] assms(2)
    by (simp add: snapshot_ok_def book_ok_def heap_ok_def declared_once_def sc_ok_def local_ok_def neededNotices_def)
qed

text \<open>Accepting a proposal keeps the side chain records and the notices in order.\<close>

definition chains_ok :: "snapshot \<Rightarrow> bool" where
  "chains_ok s \<longleftrightarrow> sc_ok s \<and> notices_ok s"

lemma rec_ok_cong:
  "Record r' = Record r \<Longrightarrow> LastConfirmedNumber r' = LastConfirmedNumber r \<Longrightarrow>
    MaxHeaderNumber r' = MaxHeaderNumber r \<Longrightarrow> rec_ok r' = rec_ok r"
  by (simp add: rec_ok_def)

lemma chains_ok_same:
  "chains_ok s \<Longrightarrow> SCRecordMap t = SCRecordMap s \<Longrightarrow> SCNoticeMap t = SCNoticeMap s \<Longrightarrow>
    config t = config s \<Longrightarrow> chains_ok t"
  by (simp add: chains_ok_def sc_ok_def notices_ok_def neededNotices_def)

lemma chains_ok_put:
  assumes "chains_ok s" "SCRecordMap t = gput (SCRecordMap s) h r" "rec_ok r"
    "SCNoticeMap t = SCNoticeMap s" "config t = config s"
  shows "chains_ok t"
  using assms sc_ok_put_eq[OF assms(2) _ assms(3)]
  by (simp add: chains_ok_def notices_ok_def neededNotices_def)

lemma acceptProposal_add:
  assumes "ProposalType p = proposalTypeSideChainAdd" "acceptProposal n s p = Inr t" "chains_ok s"
  shows "chains_ok t"
proof -
  define r where "r = (case gget (SCRecordMap s) (SCHash p) of
             None \<Rightarrow> \<lparr>Record = [], LastConfirmedNumber = 0, MaxHeaderNumber = 0,
                      CountPerPeriod = SCBlockCountPerPeriod p,
                      RewardPerPeriod = SCBlockRewardPerPeriod p, RentReward = []\<rparr>
           | Some r \<Rightarrow> r\<lparr>CountPerPeriod := SCBlockCountPerPeriod p,
                        RewardPerPeriod := SCBlockRewardPerPeriod p\<rparr>)"
  have t: "t = s\<lparr>SCRecordMap := gput (SCRecordMap s) (SCHash p) r\<rparr>"
    using assms(1,2) unfolding r_def by (simp add: acceptProposal_def proposal_type_defs)
  have "rec_ok r"
    using assms(3) by (auto simp: r_def chains_ok_def sc_ok_def rec_ok_def split: option.split)
  then show ?thesis by (intro chains_ok_put[OF assms(3)]) (simp_all add: t)
qed

lemma acceptProposal_rent:
  assumes "ProposalType p = proposalTypeRentSideChain" "acceptProposal n s p = Inr t" "chains_ok s"
  shows "chains_ok t"
proof (cases "gget (SCRecordMap s) (SCHash p)")
  case None
  then have "t = s\<lparr>ProposalRefund :=
      addRefund (ProposalRefund s) (Uint64 n) (Proposer p) (ttc (SCRentFee p))\<rparr>"
    using assms(1,2) by (simp add: acceptProposal_def proposal_type_defs)
  then show ?thesis by (intro chains_ok_same[OF assms(3)]) simp_all
next
  case (Some r)
  define nt where "nt = (case gget (SCNoticeMap s) (SCHash p) of
    None \<Rightarrow> \<lparr>CurrentCharging = [], ConfirmReceived = []\<rparr> | Some nt \<Rightarrow> nt)"
  obtain x c where t: "t = s\<lparr>SCRecordMap := gput (SCRecordMap s) (SCHash p) (r\<lparr>RentReward := x\<rparr>),
      SCNoticeMap := gput (SCNoticeMap s) (SCHash p) (nt\<lparr>CurrentCharging := c\<rparr>)\<rparr>"
    using assms(1,2) Some unfolding nt_def
    by (auto simp: acceptProposal_def proposal_type_defs Let_def split: if_splits)
  define s1 where "s1 = s\<lparr>SCRecordMap := gput (SCRecordMap s) (SCHash p) (r\<lparr>RentReward := x\<rparr>)\<rparr>"
  have "rec_ok r" using Some assms(3) by (simp add: chains_ok_def sc_ok_def)
  then have "rec_ok (r\<lparr>RentReward := x\<rparr>)" by (simp add: rec_ok_def)
  then have s1: "chains_ok s1" by (intro chains_ok_put[OF assms(3)]) (simp_all add: s1_def)
  have "notice_ok (neededNotices s) nt"
    using assms(3) by (auto simp: nt_def chains_ok_def notices_ok_def notice_ok_def split: option.split)
  then have "notice_ok (neededNotices s) (nt\<lparr>CurrentCharging := c\<rparr>)" by (simp add: notice_ok_def)
  then show ?thesis
    using s1 by (auto simp: t s1_def chains_ok_def sc_ok_def notices_ok_def neededNotices_def)
qed

lemma acceptProposal_chains:
  assumes "acceptProposal n s p = Inr t" "chains_ok s"
  shows "chains_ok t"
proof -
  consider "ProposalType p = proposalTypeSideChainAdd" | "ProposalType p = proposalTypeRentSideChain"
    | "ProposalType p = proposalTypeSideChainRemove"
    | "ProposalType p \<noteq> proposalTypeSideChainAdd" "ProposalType p \<noteq> proposalTypeRentSideChain"
      "ProposalType p \<noteq> proposalTypeSideChainRemove" by blast
  then show ?thesis
  proof cases
    case 3
    then have "SCRecordMap t = gdel (SCRecordMap s) (SCHash p) \<or> SCRecordMap t = SCRecordMap s"
      "SCNoticeMap t = SCNoticeMap s" "config t = config s"
      using assms(1) by (auto simp: acceptProposal_def proposal_type_defs split: if_splits)
    then show ?thesis
      using assms(2)
      by (auto simp: chains_ok_def sc_ok_def notices_ok_def neededNotices_def split: if_splits)
  next
    case 4
    then have "SCRecordMap t = SCRecordMap s" "SCNoticeMap t = SCNoticeMap s" "config t = config s"
      using assms(1) by (auto simp: acceptProposal_def split: if_splits)
    then show ?thesis by (rule chains_ok_same[OF assms(2)])
  qed (use acceptProposal_add acceptProposal_rent assms in blast)+
qed

lemma acceptProposal_rest:
  "acceptProposal n s p = Inr t \<Longrightarrow> LocalNotice t = LocalNotice s \<and> Punished t = Punished s"
  by (auto simp: acceptProposal_def Let_def split: option.splits if_splits)

lemma settleProposal_chains:
  assumes "settleProposal n s e = Inr t"
  shows "(chains_ok s \<longrightarrow> chains_ok t) \<and> LocalNotice t = LocalNotice s \<and> Punished t = Punished s"
  using assms
proof (cases rule: settleProposal_cases)
  case (2 p s2)
  let ?s1 = "s\<lparr>ProposalRefund := addRefund (ProposalRefund s) (Uint64 n) (Proposer p) (CurrentDeposit p)\<rparr>"
  have "chains_ok s \<Longrightarrow> chains_ok ?s1" by (erule chains_ok_same) simp_all
  then have "chains_ok s \<Longrightarrow> chains_ok s2" using acceptProposal_chains[OF 2(3)] by blast
  then have "chains_ok s \<Longrightarrow> chains_ok t" by (rule chains_ok_same) (simp_all add: 2(4))
  then show ?thesis using acceptProposal_rest[OF 2(3)] by (simp add: 2(4))
next
  case (3 p s2)
  have "chains_ok s \<Longrightarrow> chains_ok t"
    by (erule chains_ok_same) (simp_all add: 3(3,4) rejectProposal_def)
  then show ?thesis by (simp add: 3(3,4) rejectProposal_def)
qed simp

lemma calculateProposalResult_snapshot:
  assumes "calculateProposalResult s n = Inr t" "snapshot_ok s"
  shows "snapshot_ok t"
proof -
  let ?I = "\<lambda>u. chains_ok u \<and> LocalNotice u = LocalNotice s \<and> Punished u = Punished s"
  have s: "heap_ok s" "declared_once s" "chains_ok s"
    using assms(2) by (auto simp: snapshot_ok_def book_ok_def chains_ok_def)
  have "?I (clearRefund s n)"
    using s(3) chains_ok_same[of s "clearRefund s n"] by (simp add: clearRefund_def Let_def)
  then have "?I t"
    by (rule foldM_invariant[OF assms(1)[unfolded calculateProposalResult_def], of ?I])
      (use settleProposal_chains in metis)
  moreover note calculateProposalResult_heap_ok[OF assms(1) s(1)]
    calculateProposalResult_once[OF assms(1) s(1,2)]
  moreover have sv: "same_votes s t" by (rule calculateProposalResult_same_votes[OF assms(1)])
  ultimately show ?thesis
    using assms(2) same_votes_tally[OF sv]
    by (auto simp: snapshot_ok_def book_ok_def chains_ok_def local_ok_def neededNotices_def same_votes_def)
qed

lemma removeExtraCandidate_ok:
  assumes "snapshot_ok s"
  shows "snapshot_ok (removeExtraCandidate s)"
proof (rule snapshot_okI[OF assms])
  show "book (removeExtraCandidate s) = book s"
    unfolding removeExtraCandidate_def Let_def
    by (simp, intro impI, rule foldl_keeps) (simp add: dropCandidate_def book_def)
qed (simp add: same_votes_def frame_simps)

lemma updateSnapshotBySCCharging_snapshot:
  assumes "updateSnapshotBySCCharging s cs n a = Inr t" "snapshot_ok s"
  shows "snapshot_ok t"
proof -
  have "MaxSignerCount (config s) \<noteq> 0"
    using assms(1) by (auto simp: updateSnapshotBySCCharging_def loopEnd_def u64_mod_def bind_res_eq_Inr split: if_splits)
  moreover have "local_ok s" using assms(2) by (simp add: snapshot_ok_def book_ok_def)
  ultimately have t: "local_ok t" "same_votes s t"
    using updateSnapshotBySCCharging_total[of s cs n a] assms(1) by auto
  obtain x where x: "t = s\<lparr>LocalNotice := x\<rparr>"
    using assms(1) unfolding updateSnapshotBySCCharging_def bind_res_eq_Inr sum.inject by blast
  show ?thesis
    using t(1) same_votes_tally[OF t(2)] assms(2) unfolding x
    by (simp add: snapshot_ok_def book_ok_def heap_ok_def declared_once_def sc_ok_def notices_ok_def neededNotices_def)
qed

lemma updateSnapshotForExpired_book:
  assumes "updateSnapshotForExpired s n = Inr t"
  shows "book t = book s"
proof -
  from assms obtain vs where t: "t = dropEmptyTallies (expireConfirmations (removeExpiredVotes s vs) n)"
    unfolding updateSnapshotForExpired_def bind_res_eq_Inr sum.inject by blast
  have "book (dropEmptyTallies u) = book u" for u
    unfolding dropEmptyTallies_def by (rule foldl_keeps) (simp add: dropEmptyTally_def book_def)
  moreover have "book (expireConfirmations u n) = book u" for u
    unfolding expireConfirmations_def by (rule foldl_keeps) (simp add: book_def)
  moreover have "book (removeExpiredVotes u vs) = book u" for u
    unfolding removeExpiredVotes_def
    by (simp, intro impI, rule foldl_keeps) (simp add: removeVote_def book_def Let_def)
  ultimately show ?thesis by (simp add: t)
qed

lemma updateSnapshotForExpired_ok:
  assumes "updateSnapshotForExpired s n = Inr t" "snapshot_ok s"
  shows "snapshot_ok t" "gget (Tally t) c = Some x \<Longrightarrow> 0 < x"
proof -
  have inv: "tally_inv s" using assms(2) by (simp add: snapshot_ok_def)
  show "snapshot_ok t"
    by (rule snapshot_ok_book[OF assms(2) updateSnapshotForExpired_inv(1)[OF inv assms(1)]
          updateSnapshotForExpired_book[OF assms(1)]])
  show "gget (Tally t) c = Some x \<Longrightarrow> 0 < x"
    by (rule updateSnapshotForExpired_inv(2)[OF inv assms(1)])
qed

subsection \<open>Applying headers\<close>

lemma applyEvents_steps:
  assumes "applyEvents s hdr extra = Inr t" "n = Hdr_Number hdr"
  obtains s1 s2 s4 s5 s7 s8 s9 s10 s11 s12 full where
    "updateSnapshotByVotes (updateSnapshotByConfirmations s (CurrentBlockConfirmations extra)) (CurrentBlockVotes extra) n = Inr s1"
    "updateSnapshotByMPVotes s1 (ModifyPredecessorVotes extra) = Inr s2"
    "s4 = updateSnapshotByProposals (updateSnapshotForPunish s2 (SignerMissing extra) n (Coinbase hdr)) (CurrentBlockProposals extra) n"
    "updateSnapshotByDeclares s4 (CurrentBlockDeclares extra) n = Inr s5"
    "s7 = updateSnapshotBySetSCCoinbase (if Snap_Period s5 = 0 then
       s5\<lparr>Snap_Period := Period (config s5)\<rparr> else s5) (SideChainSetCoinbases extra)"
    "updateSnapshotBySCConfirm s7 (SideChainConfirmations extra) n = Inr s8"
    "updateSnapshotByNoticeConfirm s8 (SideChainNoticeConfirmed extra) n = Inr s9"
    "calculateProposalResult s9 n = Inr s10"
    "s11 = (if full then removeExtraCandidate s10 else s10)"
    "updateSnapshotBySCCharging s11 (SideChainCharging extra) n (Coinbase hdr) = Inr s12"
    "updateSnapshotForExpired s12 n = Inr t"
  using assms(1) unfolding applyEvents_def Let_def bind_res_eq_Inr assms(2)[symmetric]
  by (elim exE conjE) (rule that[OF _ _ refl _ refl _ _ _ refl])

lemma applyEvents_ok:
  assumes "applyEvents s hdr extra = Inr t" "snapshot_ok s" "extra_ok extra"
  shows "snapshot_ok t \<and> (\<forall>c x. gget (Tally t) c = Some x \<longrightarrow> 0 < x)"
  using assms(1) refl
proof (rule applyEvents_steps)
  fix s1 s2 s4 s5 s7 s8 s9 s10 s11 s12 full
  let ?n = "Hdr_Number hdr"
  assume 1: "updateSnapshotByVotes (updateSnapshotByConfirmations s (CurrentBlockConfirmations extra)) (CurrentBlockVotes extra) ?n = Inr s1"
    and 2: "updateSnapshotByMPVotes s1 (ModifyPredecessorVotes extra) = Inr s2"
    and 4: "s4 = updateSnapshotByProposals (updateSnapshotForPunish s2 (SignerMissing extra) ?n (Coinbase hdr)) (CurrentBlockProposals extra) ?n"
    and 5: "updateSnapshotByDeclares s4 (CurrentBlockDeclares extra) ?n = Inr s5"
    and 7: "s7 = updateSnapshotBySetSCCoinbase (if Snap_Period s5 = 0 then
       s5\<lparr>Snap_Period := Period (config s5)\<rparr> else s5) (SideChainSetCoinbases extra)"
    and 8: "updateSnapshotBySCConfirm s7 (SideChainConfirmations extra) ?n = Inr s8"
    and 9: "updateSnapshotByNoticeConfirm s8 (SideChainNoticeConfirmed extra) ?n = Inr s9"
    and 10: "calculateProposalResult s9 ?n = Inr s10"
    and 11: "s11 = (if full then removeExtraCandidate s10 else s10)"
    and 12: "updateSnapshotBySCCharging s11 (SideChainCharging extra) ?n (Coinbase hdr) = Inr s12"
    and 13: "updateSnapshotForExpired s12 ?n = Inr t"
  have "snapshot_ok s1"
    using updateSnapshotByVotes_ok[OF 1 updateSnapshotByConfirmations_ok[OF assms(2)]] assms(3)
    by (simp add: extra_ok_def)
  then have "snapshot_ok s2" using updateSnapshotByMPVotes_ok[OF 2] assms(3) by (simp add: extra_ok_def)
  then have "snapshot_ok s5"
    using assms(3) unfolding extra_ok_def
    by (intro updateSnapshotByDeclares_ok[OF 5[unfolded 4]] updateSnapshotByProposals_ok
        updateSnapshotForPunish_ok) simp_all
  then have "snapshot_ok (if Snap_Period s5 = 0 then s5\<lparr>Snap_Period := Period (config s5)\<rparr> else s5)"
    using snapshot_okI[of s5 "s5\<lparr>Snap_Period := Period (config s5)\<rparr>"] by (simp add: same_votes_def book_def)
  then have "snapshot_ok s8"
    by (intro updateSnapshotBySCConfirm_snapshot[OF 8[unfolded 7]] updateSnapshotBySetSCCoinbase_ok)
  then have "snapshot_ok s10"
    by (intro calculateProposalResult_snapshot[OF 10] updateSnapshotByNoticeConfirm_snapshot[OF 9])
  then have "snapshot_ok s12"
    using removeExtraCandidate_ok by (intro updateSnapshotBySCCharging_snapshot[OF 12[unfolded 11]]) simp
  then show ?thesis using updateSnapshotForExpired_ok[OF 13] by blast
qed

text \<open>No step changes the number of the snapshot; \<open>apply\<close> adds the count of headers at the end.\<close>

lemma updateSnapshotForPunish_Number: "Number (updateSnapshotForPunish s m n cb) = Number s"
  by (simp add: updateSnapshotForPunish_def Let_def)

lemma updateSnapshotByNoticeConfirm_Number:
  assumes "updateSnapshotByNoticeConfirm s ncs n = Inr t"
  shows "Number t = Number s"
proof -
  have "Number (foldl noticeConfirm s ncs) = Number s"
    by (rule foldl_keeps) (simp add: noticeConfirm_def split: option.split)
  then show ?thesis
    using assms unfolding updateSnapshotByNoticeConfirm_def Let_def bind_res_eq_Inr sum.inject
    by (auto split: if_splits)
qed

lemma acceptProposal_Number: "acceptProposal n s p = Inr t \<Longrightarrow> Number t = Number s"
  by (auto simp: acceptProposal_def Let_def split: option.splits if_splits)

lemma calculateProposalResult_Number:
  assumes "calculateProposalResult s n = Inr t"
  shows "Number t = Number s"
proof -
  have step: "Number v = Number u" if "settleProposal n u e = Inr v" for u v e
    using that
  proof (cases rule: settleProposal_cases)
    case (2 p s2)
    then show ?thesis using acceptProposal_Number[OF 2(3)] by simp
  qed (simp_all add: rejectProposal_def)
  have "Number t = Number (clearRefund s n)"
    by (rule foldM_keeps[OF assms[unfolded calculateProposalResult_def]]) (rule step)
  then show ?thesis by (simp add: clearRefund_def Let_def)
qed

lemma applyEvents_Number:
  assumes "applyEvents s hdr extra = Inr t"
  shows "Number t = Number s"
  using assms refl
proof (rule applyEvents_steps)
  fix s1 s2 s4 s5 s7 s8 s9 s10 s11 s12 full
  let ?n = "Hdr_Number hdr"
  assume 1: "updateSnapshotByVotes (updateSnapshotByConfirmations s (CurrentBlockConfirmations extra)) (CurrentBlockVotes extra) ?n = Inr s1"
    and 2: "updateSnapshotByMPVotes s1 (ModifyPredecessorVotes extra) = Inr s2"
    and 4: "s4 = updateSnapshotByProposals (updateSnapshotForPunish s2 (SignerMissing extra) ?n (Coinbase hdr)) (CurrentBlockProposals extra) ?n"
    and 5: "updateSnapshotByDeclares s4 (CurrentBlockDeclares extra) ?n = Inr s5"
    and 7: "s7 = updateSnapshotBySetSCCoinbase (if Snap_Period s5 = 0 then
       s5\<lparr>Snap_Period := Period (config s5)\<rparr> else s5) (SideChainSetCoinbases extra)"
    and 8: "updateSnapshotBySCConfirm s7 (SideChainConfirmations extra) ?n = Inr s8"
    and 9: "updateSnapshotByNoticeConfirm s8 (SideChainNoticeConfirmed extra) ?n = Inr s9"
    and 10: "calculateProposalResult s9 ?n = Inr s10"
    and 11: "s11 = (if full then removeExtraCandidate s10 else s10)"
    and 12: "updateSnapshotBySCCharging s11 (SideChainCharging extra) ?n (Coinbase hdr) = Inr s12"
    and 13: "updateSnapshotForExpired s12 ?n = Inr t"
  have "Number s1 = Number (updateSnapshotByConfirmations s (CurrentBlockConfirmations extra))"
    by (rule foldM_keeps[OF 1[unfolded updateSnapshotByVotes_def]]) (auto dest: updateVote_book simp: book_def)
  then have "Number s1 = Number s" by (simp add: updateSnapshotByConfirmations_def)
  moreover have "Number s2 = Number s1"
    by (rule foldM_keeps[OF 2[unfolded updateSnapshotByMPVotes_def]]) (auto dest: updateMPVote_book simp: book_def)
  moreover have "Number s4 = Number s2"
    unfolding 4 updateSnapshotByProposals_def
    by (subst foldl_keeps[where g = Number])
      (simp_all add: storeProposal_def updateSnapshotForPunish_Number)
  moreover have "Number s5 = Number s4"
    by (rule foldM_keeps[OF 5[unfolded updateSnapshotByDeclares_def]]) (erule updateDeclare_cases; simp)
  moreover have "Number s7 = Number s5"
    unfolding 7 updateSnapshotBySetSCCoinbase_def
    by (subst foldl_keeps[where g = Number]) (simp_all add: setSCCoinbase_def Let_def)
  moreover have "Number s8 = Number s7"
    using updateSnapshotBySCConfirm_propbook[OF 8] by (simp add: propbook_def)
  moreover have "Number s9 = Number s8" by (rule updateSnapshotByNoticeConfirm_Number[OF 9])
  moreover have "Number s10 = Number s9" by (rule calculateProposalResult_Number[OF 10])
  moreover have "Number s11 = Number s10"
    unfolding 11 removeExtraCandidate_def Let_def
    by (simp, intro impI, rule foldl_keeps) (simp add: dropCandidate_def)
  moreover have "Number s12 = Number s11"
    using 12 unfolding updateSnapshotBySCCharging_def bind_res_eq_Inr sum.inject by auto
  moreover have "Number t = Number s12"
    using updateSnapshotForExpired_book[OF 13] by (simp add: book_def)
  ultimately show ?thesis by simp
qed

text \<open>What the code relies on of the decoder: stakes are not negative, and a proposal carries no declares twice.\<close>

definition decode_ok :: "env \<Rightarrow> bool" where
  "decode_ok env \<longleftrightarrow> (\<forall>cfg n b x. decodeHeaderExtra env cfg n b = Inr x \<longrightarrow> extra_ok x)"

lemma applyHeader_eventsE:
  assumes "applyHeader env s hdr = Inr t"
  obtains b x hist where "decodeHeaderExtra env (config s) (Hdr_Number hdr) b = Inr x"
    "pushHistory (config s) (HistoryHash s) (header_hash env hdr) = Inr hist"
    "applyEvents (s\<lparr>HeaderTime := Uint64 (Hdr_Time hdr), LoopStartTime := Ext_LoopStartTime x,
       Signers := SignerQueue x, ConfirmedNumber := ConfirmedBlockNumber x, HistoryHash := hist\<rparr>) hdr x = Inr t"
proof -
  from assms obtain cb where "recover env hdr = Inr cb" and
    body: "(if cb \<noteq> Coinbase hdr \<and> Hdr_Number hdr \<noteq> bugFixBlockNumber then Inl errUnauthorized
       else bind_res (go_slice (Extra hdr) (int extraVanity) (int (length (Extra hdr)) - int extraSeal)) (\<lambda>body.
         bind_res (decodeHeaderExtra env (config s) (Hdr_Number hdr) body) (\<lambda>extra.
         bind_res (pushHistory (config s) (HistoryHash s) (header_hash env hdr)) (\<lambda>hist.
           applyEvents (s\<lparr>HeaderTime := Uint64 (Hdr_Time hdr), LoopStartTime := Ext_LoopStartTime extra,
               Signers := SignerQueue extra, ConfirmedNumber := ConfirmedBlockNumber extra,
               HistoryHash := hist\<rparr>) hdr extra)))) = Inr t"
    unfolding applyHeader_def bind_res_eq_Inr by blast
  have "\<not> (cb \<noteq> Coinbase hdr \<and> Hdr_Number hdr \<noteq> bugFixBlockNumber)"
    using body by (simp split: if_splits)
  from body[unfolded if_not_P[OF this] bind_res_eq_Inr] show ?thesis
    by (elim exE conjE) (rule that)
qed

lemma applyHeader_ok:
  assumes "applyHeader env s hdr = Inr t" "snapshot_ok s" "decode_ok env"
  shows "snapshot_ok t \<and> (\<forall>c x. gget (Tally t) c = Some x \<longrightarrow> 0 < x) \<and> Number t = Number s"
  using assms(1)
proof (rule applyHeader_eventsE)
  fix b and x :: header_extra and hist
  let ?s = "s\<lparr>HeaderTime := Uint64 (Hdr_Time hdr), LoopStartTime := Ext_LoopStartTime x,
       Signers := SignerQueue x, ConfirmedNumber := ConfirmedBlockNumber x, HistoryHash := hist\<rparr>"
  assume x: "decodeHeaderExtra env (config s) (Hdr_Number hdr) b = Inr x"
    and ev: "applyEvents ?s hdr x = Inr t"
  have "snapshot_ok ?s"
    by (rule snapshot_okI[OF assms(2)]) (simp_all add: same_votes_def book_def)
  moreover have "extra_ok x" using x assms(3) by (auto simp: decode_ok_def)
  ultimately show ?thesis using applyEvents_ok[OF ev] applyEvents_Number[OF ev] by simp
qed

subsection \<open>Copying a snapshot\<close>

lemma gput_new: "k \<notin> fst ` set m \<Longrightarrow> gput m k v = m @ [(k, v)]"
  by (induction m) (auto simp: gput_def)

lemma foldM_copyProposal:
  assumes "\<forall>e\<in>set es. snd e < length (PropHeap s)" "distinct (map fst m @ map fst es)"
  shows "foldM (copyProposal s) (m, h) es =
    Inr (m @ zip (map fst es) [length h..<length h + length es], h @ map (\<lambda>e. PropHeap s ! snd e) es)"
  using assms
proof (induction es arbitrary: m h)
  case (Cons e es)
  let ?m = "m @ [(fst e, length h)]" and ?h = "h @ [PropHeap s ! snd e]"
  have "copyProposal s (m, h) e = Inr (?m, ?h)"
    using Cons.prems by (auto simp: copyProposal_def deref_def gput_new)
  moreover have "foldM (copyProposal s) (?m, ?h) es =
      Inr (?m @ zip (map fst es) [length ?h..<length ?h + length es], ?h @ map (\<lambda>e. PropHeap s ! snd e) es)"
    using Cons.prems by (intro Cons.IH) auto
  moreover have "[length h..<length h + length (e # es)] = length h # [length ?h..<length ?h + length es]"
    by (simp add: upt_conv_Cons del: upt_Suc)
  ultimately show ?case by (simp del: upt_Suc)
qed simp

lemma copySnapshot_eq:
  assumes "heap_ok s"
  shows "copySnapshot s = Inr (fillDefaults (s\<lparr>
    Proposals := zip (map fst (Proposals s)) [0..<length (Proposals s)],
    PropHeap := map (\<lambda>e. PropHeap s ! snd e) (Proposals s)\<rparr>))"
  using foldM_copyProposal[of "Proposals s" s "[]" "[]"] assms
  by (simp add: copySnapshot_def heap_ok_def ginv_def)

lemma gget_zip_upt:
  assumes "ginv es" "gget es k = Some v"
  shows "\<exists>i<length es. gget (zip (map fst es) [0..<length es]) k = Some i \<and> es ! i = (k, v)"
proof -
  obtain i where i: "i < length es" "es ! i = (k, v)"
    using gget_mem[OF assms(2)] by (auto simp: in_set_conv_nth)
  let ?z = "zip (map fst es) [0..<length es]"
  have "ginv ?z" using assms(1) by (simp add: ginv_def)
  moreover have "?z ! i = (k, i)" "i < length ?z" using i by simp_all
  then have "(k, i) \<in> set ?z" by (metis nth_mem)
  ultimately show ?thesis using i by (auto simp: gget_ginv_iff)
qed

lemma copySnapshot_proposal_at:
  assumes "heap_ok s" "copySnapshot s = Inr t"
  shows "proposal_at t h = proposal_at s h"
proof -
  have t: "Proposals t = zip (map fst (Proposals s)) [0..<length (Proposals s)]"
    "PropHeap t = map (\<lambda>e. PropHeap s ! snd e) (Proposals s)"
    using assms(2)[unfolded copySnapshot_eq[OF assms(1)]] by (auto simp: fillDefaults_def)
  show ?thesis
  proof (cases "gget (Proposals s) h")
    case None
    then have "gget (Proposals t) h = None"
      by (auto simp: t(1) gget_eq_None dest!: set_zip_leftD)
    then show ?thesis using None by (simp add: proposal_at_def)
  next
    case (Some ptr)
    have "ginv (Proposals s)" using assms(1) by (simp add: heap_ok_def)
    from gget_zip_upt[OF this Some] obtain i where i: "i < length (Proposals s)"
      "gget (Proposals t) h = Some i" "Proposals s ! i = (h, ptr)"
      unfolding t(1) by blast
    then show ?thesis using Some heap_okD[OF assms(1) Some] by (simp add: proposal_at_def deref_def t(2))
  qed
qed

lemma copySnapshot_ok:
  assumes "snapshot_ok s" "copySnapshot s = Inr t"
  shows "snapshot_ok t" "Number t = Number s"
proof -
  have heap: "heap_ok s" using assms(1) by (simp add: snapshot_ok_def book_ok_def)
  have t: "t = fillDefaults (s\<lparr>Proposals := zip (map fst (Proposals s)) [0..<length (Proposals s)],
      PropHeap := map (\<lambda>e. PropHeap s ! snd e) (Proposals s)\<rparr>)"
    using assms(2) copySnapshot_eq[OF heap] by simp
  show "Number t = Number s" by (simp add: t fillDefaults_def)
  show "snapshot_ok t"
  proof (rule scbook_ok[OF assms(1)])
    show "same_votes s t" "scbook t = scbook s" by (simp_all add: t fillDefaults_def same_votes_def scbook_def)
    show "heap_ok t"
      using heap by (auto simp: t fillDefaults_def heap_ok_def ginv_def dest!: set_zip_rightD)
    have "declared_once s" using assms(1) by (simp add: snapshot_ok_def book_ok_def)
    moreover have "PropHeap s ! snd e \<in> set (PropHeap s)" if "e \<in> set (Proposals s)" for e
      using heap that by (simp add: heap_ok_def)
    ultimately show "declared_once t" by (auto simp: t fillDefaults_def declared_once_def)
  qed
qed

subsection \<open>The first snapshot\<close>

lemma initVote_ok:
  assumes "snapshot_ok s" "gget (Votes s) (Voter v) = None" "0 \<le> Stake v"
  shows "snapshot_ok (initVote s v)"
proof -
  let ?t = "initVote s v"
  have inv: "tally_inv s" using assms(1) by (simp add: snapshot_ok_def)
  have "votes_wf ?t"
    using inv assms(2,3) by (auto simp: initVote_def tally_inv_def votes_wf_def split: if_splits)
  moreover have "stake_for ?t c = stake_for s c + (if Candidate v = c then Stake v else 0)" for c
    using stake_for_put[OF tally_inv_ginv(1)[OF inv], of ?t "Voter v" v c] assms(2) by (simp add: initVote_def)
  moreover have "tally_at ?t c = tally_at s c + (if Candidate v = c then Stake v else 0)" for c
    by (auto simp: initVote_def tally_at_def gat_def split: option.split)
  ultimately have "tally_inv ?t" using inv by (simp add: tally_inv_def)
  then show ?thesis by (rule snapshot_ok_book[OF assms(1)]) (simp add: initVote_def book_def)
qed

lemma foldl_initVote_ok:
  assumes "snapshot_ok s" "distinct (map Voter vs)" "\<forall>v\<in>set vs. 0 \<le> Stake v \<and> gget (Votes s) (Voter v) = None"
  shows "snapshot_ok (foldl initVote s vs)"
  using assms
proof (induction vs arbitrary: s)
  case (Cons v vs)
  have "snapshot_ok (initVote s v)" using Cons.prems by (intro initVote_ok) auto
  moreover have "\<forall>u\<in>set vs. 0 \<le> Stake u \<and> gget (Votes (initVote s v)) (Voter u) = None"
    using Cons.prems by (auto simp: initVote_def image_iff)
  ultimately show ?case using Cons.IH[of "initVote s v"] Cons.prems(2) by simp
qed simp

lemma newSnapshot_ok:
  assumes "distinct (map Voter votes)" "\<forall>v\<in>set votes. 0 \<le> Stake v"
  shows "snapshot_ok (newSnapshot now cfg h votes lcrs)"
proof -
  define s0 where "s0 = \<lparr>config = cfg, LCRS = lcrs, Snap_Period = Period cfg, Number = 0,
            ConfirmedNumber = 0, Hash = h, HistoryHash = [h], Signers = [], Votes = [], Tally = [],
            Voters = [], Candidates = [], Punished = [], Confirmations = [], Proposals = [],
            PropHeap = [], HeaderTime = now - 1, LoopStartTime = GenesisTimestamp cfg,
            ProposalRefund = [], SCCoinbase = [], SCRecordMap = [], SCRewardMap = [],
            SCNoticeMap = [], LocalNotice = \<lparr>CurrentCharging = [], ConfirmReceived = []\<rparr>,
            MinerReward = minerRewardPerThousand, MinVB = MinVoterBalance cfg\<rparr>"
  have "tally_inv s0"
    by (simp add: s0_def tally_inv_def votes_wf_def tally_at_def stake_for_def gat_def)
  moreover have "book_ok s0"
    by (simp add: s0_def book_ok_def heap_ok_def declared_once_def sc_ok_def notices_ok_def local_ok_def
        charging_ok_def notice_ok_def)
  ultimately have "snapshot_ok s0" by (simp add: snapshot_ok_def)
  moreover have "Votes s0 = []" by (simp add: s0_def)
  ultimately have ok: "snapshot_ok (foldl initVote s0 votes)"
    using assms by (intro foldl_initVote_ok) auto
  have "snapshot_ok ((foldl initVote s0 votes)\<lparr>Signers := x\<rparr>)" for x
    by (rule snapshot_okI[OF ok]) (simp_all add: same_votes_def book_def)
  then show ?thesis
    using ok unfolding newSnapshot_def s0_def[symmetric] Let_def by simp
qed

subsection \<open>Chains of headers\<close>

definition positive_tallies :: "snapshot \<Rightarrow> bool" where
  "positive_tallies s \<longleftrightarrow> (\<forall>c x. gget (Tally s) c = Some x \<longrightarrow> 0 < x)"

lemma foldM_applyHeader_ok:
  assumes "foldM (applyHeader env) s hs = Inr t" "snapshot_ok s" "decode_ok env"
  shows "snapshot_ok t \<and> Number t = Number s"
  by (rule foldM_invariant[OF assms(1), of "\<lambda>u. snapshot_ok u \<and> Number u = Number s"])
    (use assms(2,3) applyHeader_ok in auto)

lemma foldM_applyHeader_positive:
  assumes "foldM (applyHeader env) s hs = Inr t" "hs \<noteq> []" "snapshot_ok s" "decode_ok env"
  shows "positive_tallies t"
proof -
  obtain gs g where hs: "hs = gs @ [g]" using assms(2) by (cases hs rule: rev_cases) auto
  from assms(1) obtain u where "foldM (applyHeader env) s gs = Inr u" "applyHeader env u g = Inr t"
    by (auto simp: hs foldM_append res_simps)
  then show ?thesis
    using foldM_applyHeader_ok[OF _ assms(3,4)] applyHeader_ok[OF _ _ assms(4)]
    unfolding positive_tallies_def by blast
qed

lemma verifyTallyCnt_cong: "Tally t = Tally s \<Longrightarrow> Votes t = Votes s \<Longrightarrow> verifyTallyCnt t = verifyTallyCnt s"
  by (simp add: verifyTallyCnt_def tallyTarget_def)

text \<open>The recount at the end of \<open>apply\<close> never rejects.\<close>

lemma apply_snapshot_steps:
  assumes "hs \<noteq> []" "contiguous (Number s) hs" "snapshot_ok s" "decode_ok env"
    "copySnapshot s = Inr s0" "foldM (applyHeader env) s0 hs = Inr u"
  shows "apply_snapshot env s hs = Inr (u\<lparr>Number := Number s + of_nat (length hs),
    Hash := header_hash env (last hs)\<rparr>)"
proof -
  have s0: "snapshot_ok s0" "Number s0 = Number s" by (rule copySnapshot_ok[OF assms(3,5)])+
  have u: "snapshot_ok u" "Number u = Number s" "positive_tallies u"
    using foldM_applyHeader_ok[OF assms(6) s0(1) assms(4)]
      foldM_applyHeader_positive[OF assms(6,1) s0(1) assms(4)] s0(2) by auto
  have "verifyTallyCnt u = Inr ()"
    using u by (intro verifyTallyCnt_ok) (auto simp: snapshot_ok_def positive_tallies_def)
  then have "verifyTallyCnt (u\<lparr>Number := x, Hash := y\<rparr>) = Inr ()" for x y
    by (subst verifyTallyCnt_cong[of _ u]) simp_all
  then show ?thesis
    unfolding apply_snapshot_def using assms u(2) by (simp add: Let_def)
qed

lemma apply_snapshot_ok:
  assumes "apply_snapshot env s hs = Inr t" "snapshot_ok s" "decode_ok env"
  shows "snapshot_ok t"
    and "hs \<noteq> [] \<Longrightarrow> positive_tallies t \<and> Number t = Number s + of_nat (length hs)
      \<and> Hash t = header_hash env (last hs)"
proof -
  have *: "snapshot_ok t \<and> (hs \<noteq> [] \<longrightarrow> positive_tallies t \<and> Number t = Number s + of_nat (length hs)
      \<and> Hash t = header_hash env (last hs))"
  proof (cases "hs = []")
    case True
    then show ?thesis using assms by (simp add: apply_snapshot_def)
  next
    case False
    have cont: "contiguous (Number s) hs"
      using assms(1) False by (auto simp: apply_snapshot_def split: if_splits)
    obtain s0 u where s0: "copySnapshot s = Inr s0" "foldM (applyHeader env) s0 hs = Inr u"
      using assms(1) False cont unfolding apply_snapshot_def Let_def by (auto simp: bind_res_eq_Inr)
    have t: "t = u\<lparr>Number := Number s + of_nat (length hs), Hash := header_hash env (last hs)\<rparr>"
      using apply_snapshot_steps[OF False cont assms(2,3) s0] assms(1) by simp
    have s0': "snapshot_ok s0" by (rule copySnapshot_ok[OF assms(2) s0(1)])
    have u: "snapshot_ok u" "positive_tallies u"
      using foldM_applyHeader_ok[OF s0(2) s0' assms(3)]
        foldM_applyHeader_positive[OF s0(2) False s0' assms(3)] by auto
    have "tally_inv t" using u(1) tally_inv_cong[of t u] by (simp add: t snapshot_ok_def)
    moreover have "book_ok t"
      using u(1) by (simp add: t snapshot_ok_def book_ok_def heap_ok_def declared_once_def sc_ok_def
          notices_ok_def local_ok_def neededNotices_def)
    ultimately show ?thesis using u(2) by (simp add: t snapshot_ok_def positive_tallies_def)
  qed
  then show "snapshot_ok t" and "hs \<noteq> [] \<Longrightarrow> positive_tallies t \<and> Number t = Number s + of_nat (length hs)
      \<and> Hash t = header_hash env (last hs)" by blast+
qed

text \<open>The snapshots a node can hold: the genesis snapshot, and every snapshot made from one by a batch of headers.\<close>

inductive reachable :: "env \<Rightarrow> snapshot \<Rightarrow> bool" for env where
  genesis: "distinct (map Voter votes) \<Longrightarrow> \<forall>v\<in>set votes. 0 \<le> Stake v \<Longrightarrow>
    reachable env (newSnapshot now cfg h votes lcrs)"
| batch: "reachable env s \<Longrightarrow> apply_snapshot env s hs = Inr t \<Longrightarrow> reachable env t"

lemma reachable_ok: "reachable env s \<Longrightarrow> decode_ok env \<Longrightarrow> snapshot_ok s"
  by (induction rule: reachable.induct) (auto intro: newSnapshot_ok apply_snapshot_ok(1))

subsection \<open>Votes that keep the node running\<close>

text \<open>
  A vote with a positive stake gives its candidate a positive tally, so the entry the next vote
  subtracts from is there.
\<close>

definition positive_votes :: "snapshot \<Rightarrow> bool" where
  "positive_votes s \<longleftrightarrow> (\<forall>k v. gget (Votes s) k = Some v \<longrightarrow> 0 < Stake v)"

lemma positive_votes_backed:
  assumes "tally_inv s" "positive_votes s"
  shows "votes_backed s"
  unfolding votes_backed_def
proof (intro allI impI)
  fix k v assume v: "gget (Votes s) k = Some v"
  have "0 < Stake v" using assms(2) v by (simp add: positive_votes_def)
  also have "Stake v \<le> stake_for s (Candidate v)" by (rule stake_le_stake_for[OF assms(1) v])
  also have "\<dots> = tally_at s (Candidate v)" using assms(1) by (simp add: tally_inv_def)
  finally show "gget (Tally s) (Candidate v) \<noteq> None"
    by (auto simp: tally_at_def gat_def split: option.splits)
qed

lemma updateVote_positive:
  "updateVote n s v = Inr t \<Longrightarrow> positive_votes s \<Longrightarrow> 0 < Stake v \<Longrightarrow> positive_votes t"
  using updateVote_effect(1)[of n s v t] by (auto simp: positive_votes_def split: if_splits)

lemma updateMPVote_positive:
  assumes "updateMPVote s v = Inr t" "positive_votes s" "0 < Stake v"
  shows "positive_votes t"
proof (cases "gget (Votes s) (Voter v)")
  case None
  then show ?thesis using assms by (simp add: updateMPVote_def)
next
  case (Some u)
  then show ?thesis
    using updateMPVote_tally(1)[OF assms(1) Some] assms(2,3) by (auto simp: positive_votes_def split: if_splits)
qed

definition votes_good :: "snapshot \<Rightarrow> bool" where
  "votes_good s \<longleftrightarrow> tally_inv s \<and> positive_votes s"

lemma updateSnapshotByVotes_good:
  assumes "votes_good s" "\<forall>v\<in>set vs. 0 < Stake v"
  shows "\<exists>t. updateSnapshotByVotes s vs n = Inr t \<and> votes_good t"
  unfolding updateSnapshotByVotes_def
proof (rule foldM_total[where I = votes_good, OF assms(1)])
  fix u v assume v: "v \<in> set vs" "votes_good u"
  then obtain t where "updateVote n u v = Inr t"
    using updateVote_backed[OF positive_votes_backed, of u n v] by (auto simp: votes_good_def)
  then show "\<exists>t. updateVote n u v = Inr t \<and> votes_good t"
    using v assms(2) updateVote_inv[of u v n t] updateVote_positive[of n u v t]
    by (force simp: votes_good_def)
qed

lemma updateSnapshotByMPVotes_good:
  assumes "votes_good s" "\<forall>v\<in>set vs. 0 < Stake v"
  shows "\<exists>t. updateSnapshotByMPVotes s vs = Inr t \<and> votes_good t"
  unfolding updateSnapshotByMPVotes_def
proof (rule foldM_total[where I = votes_good, OF assms(1)])
  fix u v assume v: "v \<in> set vs" "votes_good u"
  then obtain t where "updateMPVote u v = Inr t"
    using updateMPVote_backed[OF positive_votes_backed, of u v] by (auto simp: votes_good_def)
  then show "\<exists>t. updateMPVote u v = Inr t \<and> votes_good t"
    using v assms(2) updateMPVote_inv[of u v t] updateMPVote_positive[of u v t]
    by (force simp: votes_good_def)
qed

lemma foldl_removeVote_Votes:
  "Votes (foldl removeVote s vs) = foldl gdel (Votes s) (map Voter vs)"
  by (induction vs arbitrary: s) auto

lemma updateSnapshotForExpired_good:
  assumes "votes_good s" "MinVB s \<noteq> None"
  shows "\<exists>t. updateSnapshotForExpired s n = Inr t \<and> votes_good t"
proof -
  obtain m where m: "MinVB s = Some m" using assms(2) by auto
  have "\<exists>vs. collectExpired s n = Inr vs \<and> True"
    unfolding collectExpired_def Let_def
    by (rule foldM_total) (auto simp: isExpired_def m split: option.split)
  then obtain vs where vs: "collectExpired s n = Inr vs" by blast
  let ?t = "dropEmptyTallies (expireConfirmations (removeExpiredVotes s vs) n)"
  have t: "updateSnapshotForExpired s n = Inr ?t" by (simp add: updateSnapshotForExpired_def vs)
  have "Votes ?t = filter (\<lambda>e. fst e \<notin> set (map Voter vs)) (Votes s) \<or> Votes ?t = Votes s"
    by (simp add: frame_simps removeExpiredVotes_def foldl_removeVote_Votes foldl_gdel_filter)
  then have "positive_votes ?t"
    using assms(1) tally_inv_ginv(1)[of s]
    by (auto simp: positive_votes_def votes_good_def gget_filter split: option.splits if_splits)
  moreover have "tally_inv ?t"
    using updateSnapshotForExpired_inv(1)[OF _ t] assms(1) by (simp add: votes_good_def)
  ultimately show ?thesis using t by (auto simp: votes_good_def)
qed

lemma updateVote_MinVB: "updateVote n s v = Inr t \<Longrightarrow> MinVB t = MinVB s"
  by (auto simp: updateVote_def res_simps Let_def split: option.splits)

lemma updateMPVote_MinVB: "updateMPVote s v = Inr t \<Longrightarrow> MinVB t = MinVB s"
  by (auto simp: updateMPVote_def res_simps split: option.splits)

lemma votes_keep_MinVB:
  assumes "updateSnapshotByVotes s vs n = Inr s1" "updateSnapshotByMPVotes s1 mps = Inr s2"
  shows "MinVB s2 = MinVB s"
proof -
  have "MinVB s1 = MinVB s"
    using assms(1) unfolding updateSnapshotByVotes_def by (rule foldM_keeps) (rule updateVote_MinVB)
  moreover have "MinVB s2 = MinVB s1"
    using assms(2) unfolding updateSnapshotByMPVotes_def by (rule foldM_keeps) (rule updateMPVote_MinVB)
  ultimately show ?thesis by simp
qed

subsection \<open>Properties\<close>

text \<open>A small environment: headers carry one vote, and their signer is their coinbase.\<close>

definition sample_env :: env where
  "sample_env = \<lparr>header_hash = (\<lambda>h. word_of_int (Hdr_Number h)), recover = (\<lambda>h. Inr (Coinbase h)),
     decodeHeaderExtra = (\<lambda>_ _ _. Inr (empty_extra\<lparr>SignerQueue := [9],
       CurrentBlockVotes := [\<lparr>Voter = 3, Candidate = 8, Stake = 400\<rparr>]\<rparr>))\<rparr>"

definition sample_genesis :: snapshot where
  "sample_genesis = newSnapshot 1003 sample_config 1 [\<lparr>Voter = 9, Candidate = 9, Stake = 200\<rparr>] 1"

lemma sample_env_ok: "decode_ok sample_env"
  by (auto simp: decode_ok_def sample_env_def empty_extra_def extra_ok_def)

lemma sample_genesis_reachable: "reachable env sample_genesis"
  unfolding sample_genesis_def by (rule reachable.genesis) simp_all

lemma sample_batch: "\<exists>t. apply_snapshot sample_env sample_genesis [sample_header] = Inr t"
proof -
  have "(case apply_snapshot sample_env sample_genesis [sample_header] of Inr t \<Rightarrow> True | Inl _ \<Rightarrow> False)"
    by code_simp
  then show ?thesis by (auto split: sum.splits)
qed





text \<open>
  C7.  With positive stakes the votes never panic: on a snapshot whose tallies match its votes and
  whose votes all have positive stake, the votes and balance changes of a block are applied, and
  expired votes removed, without an error, and the result is such a snapshot again.
\<close>

theorem positive_stakes_never_panic:
  assumes "tally_inv s" "positive_votes s" "MinVB s \<noteq> None"
    and "\<forall>v \<in> set vs. 0 < Stake v" "\<forall>v \<in> set mps. 0 < Stake v"
  shows "\<exists>s1 s2 t. updateSnapshotByVotes s vs n = Inr s1 \<and> updateSnapshotByMPVotes s1 mps = Inr s2
    \<and> updateSnapshotForExpired s2 n = Inr t \<and> tally_inv t \<and> positive_votes t"
proof -
  have "votes_good s" using assms(1,2) by (simp add: votes_good_def)
  then obtain s1 where s1: "updateSnapshotByVotes s vs n = Inr s1" "votes_good s1"
    using updateSnapshotByVotes_good assms(4) by blast
  then obtain s2 where s2: "updateSnapshotByMPVotes s1 mps = Inr s2" "votes_good s2"
    using updateSnapshotByMPVotes_good assms(5) by blast
  have "MinVB s2 \<noteq> None" using assms(3) votes_keep_MinVB[OF s1(1) s2(1)] by simp
  then show ?thesis
    using s1(1) s2 updateSnapshotForExpired_good[of s2 n] by (auto simp: votes_good_def)
qed

theorem positive_stakes_never_panic_witness:
  "\<exists>s1 s2 t. updateSnapshotByVotes sample_snapshot [\<lparr>Voter = 1, Candidate = 9, Stake = 200\<rparr>] 1 = Inr s1
    \<and> updateSnapshotByMPVotes s1 [\<lparr>Voter = 1, Candidate = 9, Stake = 150\<rparr>] = Inr s2
    \<and> updateSnapshotForExpired s2 1 = Inr t \<and> tally_inv t \<and> positive_votes t"
  by (rule positive_stakes_never_panic)
    (simp_all add: sample_defs tally_inv_def votes_wf_def tally_at_def stake_for_def gat_def positive_votes_def)

text \<open>
  A copied snapshot is the same but unshared: \<open>copy\<close> keeps the proposal behind every hash and
  gives each hash a cell of its own, so that writing to one copied proposal changes no other.
\<close>

lemma copy_unshares:
  assumes "heap_ok s" "copySnapshot s = Inr t"
  shows "proposal_at t h = proposal_at s h \<and>
    (\<forall>k p. k \<noteq> h \<longrightarrow> gget (Proposals t) h = Some p \<longrightarrow> gget (Proposals t) k \<noteq> Some p)"
proof -
  have "\<not> (gget (Proposals t) h = Some p \<and> gget (Proposals t) k = Some p)" if "k \<noteq> h" for k p
  proof
    assume "gget (Proposals t) h = Some p \<and> gget (Proposals t) k = Some p"
    then have "(h, p) \<in> set (Proposals t)" "(k, p) \<in> set (Proposals t)" by (auto dest: gget_mem)
    then show False
      using that assms(2) by (auto simp: copySnapshot_eq[OF assms(1)] fillDefaults_def in_set_zip)
  qed
  then show ?thesis using copySnapshot_proposal_at[OF assms] by blast
qed

lemma copy_unshares_witness:
  "\<exists>t. copySnapshot (sample_snapshot\<lparr>Proposals := [(1, 0), (2, 0)], PropHeap := [sample_proposal]\<rparr>) = Inr t
    \<and> proposal_at t 1 = Some sample_proposal
    \<and> (\<forall>p. gget (Proposals t) 1 = Some p \<longrightarrow> gget (Proposals t) 2 \<noteq> Some p)"
proof -
  let ?s = "sample_snapshot\<lparr>Proposals := [(1, 0), (2, 0)], PropHeap := [sample_proposal]\<rparr>"
  have ok: "heap_ok ?s" by (simp add: heap_ok_def ginv_def)
  obtain t where t: "copySnapshot ?s = Inr t" using copySnapshot_eq[OF ok] by blast
  have "proposal_at ?s 1 = Some sample_proposal" by (simp add: proposal_at_def deref_def gget_def)
  then show ?thesis using copy_unshares[OF ok t, of 1] t by auto
qed

end
