(* ===== verification/Hexutil.thy ===== *)
theory Hexutil
  imports Common_Types
begin

text \<open>
  The package \<open>common/hexutil\<close>: hex strings with a \<open>0x\<close> prefix (\<open>hexutil.go\<close>) and the text and
  JSON forms of byte strings, 64 bit and big integers (\<open>json.go\<close>).  A Go pair of a value and an
  error is a sum: with an error the value is not used.
\<close>

subsection \<open>Errors\<close>

text \<open>Errors of \<open>encoding/hex\<close> and \<open>strconv\<close>, and those of this package.\<close>

datatype std_error = HexInvalidByte | HexErrLength | NumErrRange | NumErrSyntax

datatype hexerr =
    ErrEmptyString | ErrSyntax | ErrMissingPrefix | ErrOddLength | ErrEmptyNumber | ErrLeadingZero
  | ErrUint64Range | ErrUintRange | ErrBig256Range
  | ErrHexLength nat nat   \<comment> \<open>hex string has length, want\<close>
  | ErrNonString
  | ErrJSONType hexerr     \<comment> \<open>the error wrapped by \<open>wrapTypeError\<close>\<close>

definition mapError :: "std_error \<Rightarrow> hexerr" where
  "mapError err =
     (case err of NumErrRange \<Rightarrow> ErrUint64Range | NumErrSyntax \<Rightarrow> ErrSyntax
      | HexInvalidByte \<Rightarrow> ErrSyntax | HexErrLength \<Rightarrow> ErrOddLength)"

subsection \<open>The standard library\<close>

text \<open>\<open>hex.DecodeString\<close> with its error.\<close>

fun hex_DecodeString :: "string \<Rightarrow> std_error + byte list" where
  "hex_DecodeString (a # b # cs) =
     (case (fromHexChar a, fromHexChar b) of
        (Some x, Some y) \<Rightarrow> bind_res (hex_DecodeString cs) (\<lambda>r. Inr (of_nat (16 * x + y) # r))
      | _ \<Rightarrow> Inl HexInvalidByte)"
| "hex_DecodeString [a] = Inl (if fromHexChar a = None then HexInvalidByte else HexErrLength)"
| "hex_DecodeString [] = Inr []"

text \<open>\<open>strconv.AppendUint\<close> in base 16.\<close>

fun hex_of_nat :: "nat \<Rightarrow> string" where
  "hex_of_nat n = (if n < 16 then [hex_digit n] else hex_of_nat (n div 16) @ [hex_digit (n mod 16)])"

declare hex_of_nat.simps [simp del]

text \<open>\<open>strconv.ParseUint\<close> in base 16 for 64 bits: the digits are read one by one, with a check
  for overflow before and after each multiplication.\<close>

fun parseUintLoop :: "u64 \<Rightarrow> string \<Rightarrow> std_error + u64" where
  "parseUintLoop n [] = Inr n"
| "parseUintLoop n (c # cs) =
     (if digit_value c \<ge> 16 then Inl NumErrSyntax
      else if n \<ge> 2 ^ 60 then Inl NumErrRange
      else if n * 16 + of_nat (digit_value c) < n * 16 then Inl NumErrRange
      else parseUintLoop (n * 16 + of_nat (digit_value c)) cs)"

definition ParseUint :: "string \<Rightarrow> std_error + u64" where
  "ParseUint s = (if s = [] then Inl NumErrSyntax else parseUintLoop 0 s)"

subsection \<open>hexutil.go\<close>

definition has0xPrefix :: "string \<Rightarrow> bool" where
  "has0xPrefix input \<longleftrightarrow>
     length input \<ge> 2 \<and> input ! 0 = CHR ''0'' \<and> (input ! 1 = CHR ''x'' \<or> input ! 1 = CHR ''X'')"

definition decodeNibble :: "char \<Rightarrow> nat option" where
  "decodeNibble c =
     (let n = of_char c :: nat in
      if n \<ge> 48 \<and> n \<le> 57 then Some (n - 48)
      else if n \<ge> 65 \<and> n \<le> 70 then Some (n - 65 + 10)
      else if n \<ge> 97 \<and> n \<le> 102 then Some (n - 97 + 10) else None)"

definition Decode :: "string \<Rightarrow> hexerr + byte list" where
  "Decode input =
     (if length input = 0 then Inl ErrEmptyString
      else if \<not> has0xPrefix input then Inl ErrMissingPrefix
      else (case hex_DecodeString (drop 2 input) of Inl err \<Rightarrow> Inl (mapError err) | Inr b \<Rightarrow> Inr b))"

definition Encode :: "byte list \<Rightarrow> string" where
  "Encode b = ''0x'' @ EncodeToString b"

definition MustDecode :: "string \<Rightarrow> byte list res" where
  "MustDecode input = (case Decode input of Inl _ \<Rightarrow> Inl PanicOther | Inr b \<Rightarrow> Inr b)"

definition checkNumber :: "string \<Rightarrow> hexerr + string" where
  "checkNumber input =
     (if length input = 0 then Inl ErrEmptyString
      else if \<not> has0xPrefix input then Inl ErrMissingPrefix
      else let raw = drop 2 input in
        if length raw = 0 then Inl ErrEmptyNumber
        else if length raw > 1 \<and> raw ! 0 = CHR ''0'' then Inl ErrLeadingZero
        else Inr raw)"

definition DecodeUint64 :: "string \<Rightarrow> hexerr + u64" where
  "DecodeUint64 input =
     bind_res (checkNumber input)
       (\<lambda>raw. case ParseUint raw of Inl err \<Rightarrow> Inl (mapError err) | Inr d \<Rightarrow> Inr d)"

definition MustDecodeUint64 :: "string \<Rightarrow> u64 res" where
  "MustDecodeUint64 input = (case DecodeUint64 input of Inl _ \<Rightarrow> Inl PanicOther | Inr d \<Rightarrow> Inr d)"

definition EncodeUint64 :: "u64 \<Rightarrow> string" where
  "EncodeUint64 i = ''0x'' @ hex_of_nat (unat i)"

text \<open>
  A big integer is read into 64 bit words, 16 nibbles a word, from the low end: \<open>nibbleWord\<close> is the
  inner loop, \<open>bigWords\<close> the outer one over the words still to fill.
\<close>

definition bigWordNibbles :: nat where "bigWordNibbles = 16"

fun nibbleWord :: "u64 \<Rightarrow> string \<Rightarrow> hexerr + u64" where
  "nibbleWord w [] = Inr w"
| "nibbleWord w (c # cs) =
     (case decodeNibble c of None \<Rightarrow> Inl ErrSyntax | Some nib \<Rightarrow> nibbleWord (w * 16 + of_nat nib) cs)"

fun bigWords :: "nat \<Rightarrow> string \<Rightarrow> nat \<Rightarrow> hexerr + u64 list" where
  "bigWords 0 raw end = Inr []"
| "bigWords (Suc k) raw end =
     (let start = end - bigWordNibbles in
      bind_res (nibbleWord 0 (take (end - start) (drop start raw))) (\<lambda>w.
      bind_res (bigWords k raw start) (\<lambda>ws. Inr (w # ws))))"

fun SetBits :: "u64 list \<Rightarrow> int" where
  "SetBits [] = 0"
| "SetBits (w # ws) = uint w + 2 ^ 64 * SetBits ws"

definition decodeBigRaw :: "string \<Rightarrow> hexerr + int" where
  "decodeBigRaw raw =
     (if length raw > 64 then Inl ErrBig256Range
      else bind_res (bigWords (length raw div bigWordNibbles + 1) raw (length raw))
             (\<lambda>ws. Inr (SetBits ws)))"

definition DecodeBig :: "string \<Rightarrow> hexerr + int" where
  "DecodeBig input = bind_res (checkNumber input) decodeBigRaw"

definition MustDecodeBig :: "string \<Rightarrow> int res" where
  "MustDecodeBig input = (case DecodeBig input of Inl _ \<Rightarrow> Inl PanicOther | Inr d \<Rightarrow> Inr d)"

text \<open>\<open>EncodeBig\<close> prints with \<open>fmt.Sprintf("%#x", bigint)\<close>, which writes the sign first.\<close>

definition EncodeBig :: "int \<Rightarrow> string" where
  "EncodeBig bigint =
     (if bigint = 0 then ''0x0''
      else (if bigint < 0 then ''-'' else []) @ ''0x'' @ hex_of_nat (nat \<bar>bigint\<bar>))"

subsection \<open>json.go\<close>

definition isString :: "string \<Rightarrow> bool" where
  "isString input \<longleftrightarrow> length input \<ge> 2 \<and> input ! 0 = CHR ''\"'' \<and> last input = CHR ''\"''"

definition bytesHave0xPrefix :: "string \<Rightarrow> bool" where
  "bytesHave0xPrefix input \<longleftrightarrow> length input \<ge> 2 \<and> take 2 input \<in> set PossibleCustomHexPrefixMap"

definition checkText :: "string \<Rightarrow> bool \<Rightarrow> hexerr + string" where
  "checkText input wantPrefix =
     (if length input = 0 then Inr []
      else bind_res
        (if bytesHave0xPrefix input then Inr (drop 2 input)
         else if wantPrefix then Inl ErrMissingPrefix else Inr input)
        (\<lambda>raw. if length raw mod 2 \<noteq> 0 then Inl ErrOddLength else Inr raw))"

definition checkNumberText :: "string \<Rightarrow> hexerr + string" where
  "checkNumberText input =
     (if length input = 0 then Inr []
      else if \<not> bytesHave0xPrefix input then Inl ErrMissingPrefix
      else let raw = drop 2 input in
        if length raw = 0 then Inl ErrEmptyNumber
        else if length raw > 1 \<and> raw ! 0 = CHR ''0'' then Inl ErrLeadingZero
        else Inr raw)"

definition wrapTypeError :: "hexerr \<Rightarrow> hexerr" where
  "wrapTypeError err = (case err of ErrHexLength _ _ \<Rightarrow> err | ErrNonString \<Rightarrow> err | ErrJSONType _ \<Rightarrow> err
     | _ \<Rightarrow> ErrJSONType err)"

text \<open>The shape all \<open>UnmarshalJSON\<close> methods share: strip the quotes and read the text.\<close>

definition UnmarshalJSON :: "(string \<Rightarrow> hexerr + 'a) \<Rightarrow> string \<Rightarrow> hexerr + 'a" where
  "UnmarshalJSON unmarshalText input =
     (if \<not> isString input then Inl ErrNonString
      else (case unmarshalText (butlast (tl input)) of Inl err \<Rightarrow> Inl (wrapTypeError err) | Inr x \<Rightarrow> Inr x))"

definition Bytes_MarshalText :: "byte list \<Rightarrow> string" where
  "Bytes_MarshalText b = ''0x'' @ EncodeToString b"

definition Bytes_UnmarshalText :: "string \<Rightarrow> hexerr + byte list" where
  "Bytes_UnmarshalText input =
     bind_res (checkText input True)
       (\<lambda>raw. case hex_DecodeString raw of Inl err \<Rightarrow> Inl (mapError err) | Inr dec \<Rightarrow> Inr dec)"

definition Bytes_UnmarshalJSON :: "string \<Rightarrow> hexerr + byte list" where
  "Bytes_UnmarshalJSON = UnmarshalJSON Bytes_UnmarshalText"

text \<open>The two fixed size readers differ in whether the prefix is required only; \<open>n\<close> is the size of
  the array they fill.\<close>

definition unmarshalFixed :: "bool \<Rightarrow> nat \<Rightarrow> string \<Rightarrow> hexerr + byte list" where
  "unmarshalFixed wantPrefix n input =
     bind_res (checkText input wantPrefix)
       (\<lambda>raw. if length raw div 2 \<noteq> n then Inl (ErrHexLength (length raw) (n * 2))
         else if list_ex (\<lambda>b. decodeNibble b = None) raw then Inl ErrSyntax
         else Inr (DecodeString raw))"

definition UnmarshalFixedText :: "nat \<Rightarrow> string \<Rightarrow> hexerr + byte list" where
  "UnmarshalFixedText n input = unmarshalFixed True n input"

definition UnmarshalFixedUnprefixedText :: "nat \<Rightarrow> string \<Rightarrow> hexerr + byte list" where
  "UnmarshalFixedUnprefixedText n input = unmarshalFixed False n input"

definition UnmarshalFixedJSON :: "nat \<Rightarrow> string \<Rightarrow> hexerr + byte list" where
  "UnmarshalFixedJSON n = UnmarshalJSON (UnmarshalFixedText n)"

definition Big_MarshalText :: "int \<Rightarrow> string" where
  "Big_MarshalText b = EncodeBig b"

definition Big_UnmarshalText :: "string \<Rightarrow> hexerr + int" where
  "Big_UnmarshalText input = bind_res (checkNumberText input) decodeBigRaw"

definition Big_UnmarshalJSON :: "string \<Rightarrow> hexerr + int" where
  "Big_UnmarshalJSON = UnmarshalJSON Big_UnmarshalText"

definition Uint64_MarshalText :: "u64 \<Rightarrow> string" where
  "Uint64_MarshalText b = ''0x'' @ hex_of_nat (unat b)"

definition Uint64_UnmarshalText :: "string \<Rightarrow> hexerr + u64" where
  "Uint64_UnmarshalText input =
     bind_res (checkNumberText input)
       (\<lambda>raw. if length raw > 16 then Inl ErrUint64Range else nibbleWord 0 raw)"

definition Uint64_UnmarshalJSON :: "string \<Rightarrow> hexerr + u64" where
  "Uint64_UnmarshalJSON = UnmarshalJSON Uint64_UnmarshalText"

text \<open>A Go \<open>uint\<close> has 64 bits here, so the range check of \<open>Uint\<close> only renames the error.\<close>

definition Uint_MarshalText :: "u64 \<Rightarrow> string" where
  "Uint_MarshalText b = Uint64_MarshalText b"

definition Uint_UnmarshalText :: "string \<Rightarrow> hexerr + u64" where
  "Uint_UnmarshalText input =
     (case Uint64_UnmarshalText input of
        Inr v \<Rightarrow> if v > - 1 then Inl ErrUintRange else Inr v
      | Inl err \<Rightarrow> if err = ErrUint64Range then Inl ErrUintRange else Inl err)"

definition Uint_UnmarshalJSON :: "string \<Rightarrow> hexerr + u64" where
  "Uint_UnmarshalJSON = UnmarshalJSON Uint_UnmarshalText"

text \<open>The text form of hashes and addresses in \<open>common/types.go\<close>.\<close>

definition Hash_MarshalText :: "hash \<Rightarrow> string" where
  "Hash_MarshalText h = HexToCP (Bytes_MarshalText (Hash_Bytes h))"

definition Hash_UnmarshalText :: "string \<Rightarrow> hexerr + hash" where
  "Hash_UnmarshalText input = bind_res (UnmarshalFixedText HashLength input) (\<lambda>b. Inr (BytesToHash b))"

definition Address_MarshalText :: "address \<Rightarrow> string" where
  "Address_MarshalText a = HexToCP (Bytes_MarshalText (Address_Bytes a))"

definition Address_UnmarshalText :: "string \<Rightarrow> hexerr + address" where
  "Address_UnmarshalText input = bind_res (UnmarshalFixedText AddressLength input) (\<lambda>b. Inr (BytesToAddress b))"

subsection \<open>The value of a hex string\<close>

fun hexnum :: "nat \<Rightarrow> string \<Rightarrow> nat option" where
  "hexnum v [] = Some v"
| "hexnum v (c # cs) = (case decodeNibble c of None \<Rightarrow> None | Some d \<Rightarrow> hexnum (v * 16 + d) cs)"

lemma decodeNibble_fromHexChar: "decodeNibble c = fromHexChar c"
  by (auto simp: decodeNibble_def fromHexChar_def Let_def)

lemma decodeNibble_less: "decodeNibble c = Some d \<Longrightarrow> d < 16"
  by (auto simp: decodeNibble_def Let_def split: if_splits)

lemma digit_value_nibble:
  "digit_value c < 16 \<longleftrightarrow> decodeNibble c \<noteq> None"
  "decodeNibble c = Some d \<Longrightarrow> digit_value c = d"
  by (auto simp: digit_value_def decodeNibble_def Let_def split: if_splits)

lemma decodeNibble_zero: "decodeNibble c = Some 0 \<longleftrightarrow> c = CHR ''0''"
proof -
  have "(of_char c = (48 :: nat)) = (c = CHR ''0'')"
    using of_char_eq_iff[of c "CHR ''0''", where 'a = nat] by simp
  then show ?thesis by (auto simp: decodeNibble_def Let_def)
qed

lemma decodeNibble_hex_digit: "n < 16 \<Longrightarrow> decodeNibble (hex_digit n) = Some n"
  by (simp add: decodeNibble_fromHexChar fromHexChar_hex_digit)

lemma hexnum_append: "hexnum v (a @ b) = Option.bind (hexnum v a) (\<lambda>m. hexnum m b)"
  by (induction a arbitrary: v) (auto split: option.splits)

lemma hexnum_shift:
  "hexnum v cs = map_option (\<lambda>n. v * 16 ^ length cs + n) (hexnum 0 cs)"
proof (induction cs arbitrary: v)
  case (Cons c cs)
  show ?case
  proof (cases "decodeNibble c")
    case (Some d)
    then show ?thesis
      using Cons[of "v * 16 + d"] Cons[of d] by (cases "hexnum 0 cs") (simp_all add: algebra_simps)
  qed simp
qed simp

lemma hexnum_bound: "hexnum 0 cs = Some n \<Longrightarrow> n < 16 ^ length cs"
proof (induction cs arbitrary: n)
  case (Cons c cs)
  then obtain d where d: "decodeNibble c = Some d" "hexnum d cs = Some n" by (auto split: option.splits)
  then obtain m where m: "hexnum 0 cs = Some m" "n = d * 16 ^ length cs + m"
    using hexnum_shift[of d cs] by auto
  have "m < 16 ^ length cs" using Cons.IH m(1) by blast
  moreover have "d * 16 ^ length cs \<le> 15 * 16 ^ length cs" using decodeNibble_less[OF d(1)] by simp
  ultimately have "n < 15 * 16 ^ length cs + 16 ^ length cs" using m(2) by linarith
  then show ?case by simp
qed simp

lemma hexnum_hex_of_nat: "hexnum 0 (hex_of_nat n) = Some n"
proof (induction n rule: hex_of_nat.induct)
  case (1 n)
  show ?case
  proof (cases "n < 16")
    case True
    then show ?thesis by (simp add: hex_of_nat.simps[of n] decodeNibble_hex_digit)
  next
    case False
    then have "hexnum 0 (hex_of_nat (n div 16)) = Some (n div 16)" using 1 by blast
    then show ?thesis
      using False by (simp add: hex_of_nat.simps[of n] hexnum_append decodeNibble_hex_digit)
  qed
qed

lemma hex_of_nat_nonempty [simp]: "hex_of_nat n \<noteq> []"
  by (subst hex_of_nat.simps) simp

lemma hex_of_nat_leading: "0 < n \<Longrightarrow> hex_of_nat n ! 0 \<noteq> CHR ''0''"
proof (induction n rule: hex_of_nat.induct)
  case (1 n)
  show ?case
  proof (cases "n < 16")
    case True
    then show ?thesis
      using 1(2) decodeNibble_hex_digit[OF True] decodeNibble_zero[of "hex_digit n"]
      by (auto simp: hex_of_nat.simps[of n])
  next
    case False
    then show ?thesis
      using 1(1) by (simp add: hex_of_nat.simps[of n] nth_append)
  qed
qed

lemma length_hex_of_nat: "n < 16 ^ Suc k \<Longrightarrow> length (hex_of_nat n) \<le> Suc k"
proof (induction k arbitrary: n)
  case 0
  then show ?case by (simp add: hex_of_nat.simps[of n])
next
  case (Suc k)
  show ?case
  proof (cases "n < 16")
    case False
    moreover have "n div 16 < 16 ^ Suc k" using Suc.prems by (simp add: less_mult_imp_div_less)
    ultimately show ?thesis using Suc.IH by (simp add: hex_of_nat.simps[of n])
  qed (simp add: hex_of_nat.simps[of n])
qed

subsection \<open>The loops compute that value\<close>

lemma nibbleWord_hexnum:
  "nibbleWord (of_nat v) cs = (case hexnum v cs of None \<Rightarrow> Inl ErrSyntax | Some n \<Rightarrow> Inr (of_nat n))"
proof (induction cs arbitrary: v)
  case (Cons c cs)
  show ?case
  proof (cases "decodeNibble c")
    case (Some d)
    have "of_nat v * 16 + of_nat d = (of_nat (v * 16 + d) :: u64)" by simp
    then show ?thesis using Some Cons[of "v * 16 + d"] by simp
  qed simp
qed simp

lemma nibbleWord_zero:
  "nibbleWord 0 cs = (case hexnum 0 cs of None \<Rightarrow> Inl ErrSyntax | Some n \<Rightarrow> Inr (of_nat n))"
  using nibbleWord_hexnum[of 0 cs] by simp

lemma hexnum_bound_16:
  assumes "hexnum 0 cs = Some n" "length cs \<le> 16"
  shows "int n < 2 ^ 64"
proof -
  have "int n < int (16 ^ length cs)" using hexnum_bound[OF assms(1)] by linarith
  also have "\<dots> \<le> 16 ^ 16" using power_increasing[OF assms(2), of "16 :: int"] by simp
  finally show ?thesis by simp
qed

lemma uint_of_nat_u64:
  assumes "int n < 2 ^ 64"
  shows "uint (of_nat n :: u64) = int n"
proof -
  have "n < 2 ^ 64" using assms by (metis of_nat_less_iff of_nat_numeral of_nat_power)
  then have "unat (of_nat n :: u64) = n" by (rule unat_of_nat_u64)
  then show ?thesis by (simp only: uint_nat)
qed

lemma SetBits_bigWords:
  assumes "e \<le> length raw" "e \<le> 16 * k"
  shows "bind_res (bigWords k raw e) (\<lambda>ws. Inr (SetBits ws)) =
    (case hexnum 0 (take e raw) of None \<Rightarrow> Inl ErrSyntax | Some n \<Rightarrow> Inr (int n))"
  using assms
proof (induction k arbitrary: e)
  case (Suc k)
  define start chunk where "start = e - 16" and "chunk = take (e - start) (drop start raw)"
  have split: "take e raw = take start raw @ chunk"
    unfolding chunk_def start_def by (metis diff_le_self le_add_diff_inverse take_add)
  have len: "length chunk \<le> 16" "length chunk = e - start"
    using Suc.prems(1) by (simp_all add: chunk_def start_def)
  have IH: "bind_res (bigWords k raw start) (\<lambda>ws. Inr (SetBits ws)) =
    (case hexnum 0 (take start raw) of None \<Rightarrow> Inl ErrSyntax | Some n \<Rightarrow> Inr (int n))"
    using Suc.prems by (intro Suc.IH) (simp_all add: start_def)
  have low: "start = 0 \<or> length chunk = 16" using len Suc.prems(1) by (auto simp: start_def)
  show ?case
  proof (cases "hexnum 0 chunk")
    case None
    then have "hexnum v chunk = None" for v by (subst hexnum_shift) simp
    then have "hexnum 0 (take e raw) = None" unfolding split hexnum_append by (cases "hexnum 0 (take start raw)") simp_all
    moreover have "bigWords (Suc k) raw e = Inl ErrSyntax"
      using None by (simp add: Let_def bigWordNibbles_def nibbleWord_zero start_def[symmetric] chunk_def[symmetric])
    ultimately show ?thesis by simp
  next
    case (Some m)
    have m: "uint (of_nat m :: u64) = int m" using uint_of_nat_u64 hexnum_bound_16[OF Some len(1)] by blast
    have "bind_res (bigWords (Suc k) raw e) (\<lambda>ws. Inr (SetBits ws)) =
        bind_res (bind_res (bigWords k raw start) (\<lambda>ws. Inr (SetBits ws))) (\<lambda>x. Inr (int m + 2 ^ 64 * x))"
      using Some m by (cases "bigWords k raw start")
        (simp_all add: Let_def bigWordNibbles_def nibbleWord_zero start_def[symmetric] chunk_def[symmetric])
    also have "\<dots> = (case hexnum 0 (take e raw) of None \<Rightarrow> Inl ErrSyntax | Some n \<Rightarrow> Inr (int n))"
    proof -
      have "hexnum v chunk = Some (v * 16 ^ length chunk + m)" for v
        by (subst hexnum_shift) (simp add: Some)
      then show ?thesis
        unfolding IH split hexnum_append using low by (cases "hexnum 0 (take start raw)") auto
    qed
    finally show ?thesis .
  qed
qed simp

lemma decodeBigRaw_eq:
  "decodeBigRaw raw = (if length raw > 64 then Inl ErrBig256Range
     else case hexnum 0 raw of None \<Rightarrow> Inl ErrSyntax | Some n \<Rightarrow> Inr (int n))"
proof -
  have "length raw \<le> 16 * (length raw div 16 + 1)" by simp
  from SetBits_bigWords[OF order.refl this] show ?thesis
    by (simp add: decodeBigRaw_def bigWordNibbles_def)
qed

lemma hexnum_ge: "hexnum k cs = Some n \<Longrightarrow> k \<le> n"
proof (induction cs arbitrary: k)
  case (Cons c cs)
  then obtain d where "hexnum (k * 16 + d) cs = Some n" by (auto split: option.splits)
  from Cons.IH[OF this] show ?case by linarith
qed simp

lemma parseUintLoop_ok:
  "parseUintLoop w cs = Inr r \<longleftrightarrow> (\<exists>n. hexnum (unat w) cs = Some n \<and> int n < 2 ^ 64 \<and> r = of_nat n)"
proof (induction cs arbitrary: w)
  case Nil
  have "int (unat w) < 2 ^ 64" unfolding uint_nat[symmetric] using uint_bounded[of w] by (simp only: len64)
  moreover have "of_nat (unat w) = w" by simp
  ultimately show ?case unfolding parseUintLoop.simps hexnum.simps by (metis option.inject sum.inject(2))
next
  case (Cons c cs)
  show ?case
  proof (cases "decodeNibble c")
    case None
    then have "digit_value c \<ge> 16" using digit_value_nibble(1)[of c] by simp
    then show ?thesis using None by simp
  next
    case (Some d)
    then have d: "digit_value c = d" "d < 16" using digit_value_nibble(2) decodeNibble_less by auto
    show ?thesis
    proof (cases "w \<ge> 2 ^ 60")
      case True
      then have "2 ^ 60 \<le> uint w" unfolding word_le_def by simp
      then have big: "2 ^ 64 \<le> int (unat w * 16 + d)" by simp
      have "\<not> int n < 2 ^ 64" if "hexnum (unat w * 16 + d) cs = Some n" for n
        using big of_nat_mono[OF hexnum_ge[OF that], where 'a = int] by linarith
      then have "\<not> (\<exists>n. hexnum (unat w * 16 + d) cs = Some n \<and> int n < 2 ^ 64)" by blast
      then show ?thesis using True d Some by auto
    next
      case False
      then have "uint w < 2 ^ 60" unfolding word_le_def by simp
      then have less: "int (unat w * 16 + d) < 2 ^ 64" "int (unat w * 16) < 2 ^ 64" using d(2) by simp_all
      have w: "w * 16 + of_nat d = of_nat (unat w * 16 + d)" "w * 16 = of_nat (unat w * 16)" by simp_all
      have u1: "uint (w * 16 + of_nat d) = int (unat w * 16 + d)"
        unfolding w(1) by (rule uint_of_nat_u64[OF less(1)])
      have u2: "uint (w * 16) = int (unat w * 16)"
        unfolding w(2) by (rule uint_of_nat_u64[OF less(2)])
      have "\<not> w * 16 + of_nat d < w * 16" unfolding word_less_def u1 u2 by simp
      moreover have "unat (w * 16 + of_nat d) = unat w * 16 + d"
        using u1 unfolding uint_nat of_nat_eq_iff .
      ultimately show ?thesis
        using False d Some Cons[of "w * 16 + of_nat d"] by simp
    qed
  qed
qed

subsection \<open>Round trips\<close>

lemma hex_DecodeString_EncodeToString [simp]: "hex_DecodeString (EncodeToString bs) = Inr bs"
proof (induction bs)
  case (Cons b bs)
  have "unat b div 16 < 16" "unat b mod 16 < 16" using unat_byte_less[of b] by auto
  then show ?case using Cons by (simp add: fromHexChar_hex_digit)
qed simp

lemma has0xPrefix_0x [simp]: "has0xPrefix (''0x'' @ s)"
  by (simp add: has0xPrefix_def)

lemma bytesHave0xPrefix_0x [simp]: "bytesHave0xPrefix (''0x'' @ s)"
  by (simp add: bytesHave0xPrefix_def PossibleCustomHexPrefixMap_def)

lemma checkNumber_prefixed:
  "raw \<noteq> [] \<Longrightarrow> \<not> (length raw > 1 \<and> raw ! 0 = CHR ''0'') \<Longrightarrow> checkNumber (''0x'' @ raw) = Inr raw"
  "raw \<noteq> [] \<Longrightarrow> \<not> (length raw > 1 \<and> raw ! 0 = CHR ''0'') \<Longrightarrow> checkNumberText (''0x'' @ raw) = Inr raw"
  using has0xPrefix_0x[of raw] bytesHave0xPrefix_0x[of raw]
  by (auto simp: checkNumber_def checkNumberText_def)

lemma hex_of_nat_canonical: "\<not> (length (hex_of_nat n) > 1 \<and> hex_of_nat n ! 0 = CHR ''0'')"
proof (cases "n = 0")
  case True
  then show ?thesis by (simp add: hex_of_nat.simps[of 0])
qed (simp add: hex_of_nat_leading)

lemmas check_hex_of_nat =
  checkNumber_prefixed[OF hex_of_nat_nonempty hex_of_nat_canonical]

lemma u64_hex_bound: "unat (i :: u64) < 16 ^ 16"
proof -
  have "unat i < 2 ^ 64" using unsigned_less[of i, where 'a = nat] by (simp only: len64)
  also have "(2 :: nat) ^ 64 = 16 ^ 16" by simp
  finally show ?thesis .
qed

lemma length_hex_u64: "length (hex_of_nat (unat (i :: u64))) \<le> 16"
  using length_hex_of_nat[of "unat i" 15] u64_hex_bound[of i] by (simp only: numeral_nat)

lemma int_unat_u64: "int (unat (i :: u64)) < 2 ^ 64"
  unfolding uint_nat[symmetric] using uint_bounded[of i] by (simp only: len64)

lemma DecodeUint64_EncodeUint64: "DecodeUint64 (EncodeUint64 i) = Inr i"
proof -
  have z: "unat (0 :: u64) = 0" by simp
  have "parseUintLoop 0 (hex_of_nat (unat i)) = Inr i"
    unfolding parseUintLoop_ok z hexnum_hex_of_nat using int_unat_u64[of i] by (intro exI[of _ "unat i"]) simp
  then show ?thesis
    by (simp only: DecodeUint64_def EncodeUint64_def check_hex_of_nat bind_res_simps ParseUint_def
        hex_of_nat_nonempty if_False sum.case)
qed

lemma Uint64_text_roundtrip: "Uint64_UnmarshalText (Uint64_MarshalText i) = Inr i"
  using length_hex_u64[of i]
  by (simp add: Uint64_UnmarshalText_def Uint64_MarshalText_def check_hex_of_nat[simplified]
      nibbleWord_zero hexnum_hex_of_nat)

lemma length_hex_big:
  assumes "0 \<le> x" "x < 2 ^ 256"
  shows "length (hex_of_nat (nat x)) \<le> 64"
proof -
  have "(2 :: int) ^ 256 = 16 ^ 64" by simp
  then have "nat x < 16 ^ 64" using assms by (metis nat_less_iff of_nat_numeral of_nat_power)
  then have "nat x < 16 ^ Suc 63" by (simp only: numeral_nat) 
  from length_hex_of_nat[OF this] show ?thesis by simp
qed

lemma decodeBigRaw_hex:
  assumes "0 \<le> x" "x < 2 ^ 256"
  shows "decodeBigRaw (hex_of_nat (nat x)) = Inr x"
  using length_hex_big[OF assms] assms(1) by (simp add: decodeBigRaw_eq hexnum_hex_of_nat)

lemma EncodeBig_nonneg: "0 \<le> x \<Longrightarrow> EncodeBig x = ''0x'' @ hex_of_nat (nat x)"
  by (simp add: EncodeBig_def hex_of_nat.simps[of 0] hex_digit_def)

lemma DecodeBig_EncodeBig:
  assumes "0 \<le> x" "x < 2 ^ 256"
  shows "DecodeBig (EncodeBig x) = Inr x" "Big_UnmarshalText (Big_MarshalText x) = Inr x"
  using decodeBigRaw_hex[OF assms]
  by (simp_all only: DecodeBig_def Big_UnmarshalText_def Big_MarshalText_def EncodeBig_nonneg[OF assms(1)]
      check_hex_of_nat bind_res_simps)

lemma Decode_Encode: "Decode (Encode b) = Inr b"
  using has0xPrefix_0x[of "EncodeToString b"] by (simp add: Decode_def Encode_def)

lemma checkText_Bytes: "checkText (Bytes_MarshalText b) True = Inr (EncodeToString b)"
  using bytesHave0xPrefix_0x[of "EncodeToString b"] by (simp add: checkText_def Bytes_MarshalText_def)

lemma Bytes_text_roundtrip: "Bytes_UnmarshalText (Bytes_MarshalText b) = Inr b"
  by (simp add: Bytes_UnmarshalText_def checkText_Bytes)

lemma EncodeToString_nibbles: "\<forall>c \<in> set (EncodeToString b). decodeNibble c \<noteq> None"
proof (induction b)
  case (Cons x b)
  have "unat x div 16 < 16" "unat x mod 16 < 16" using unat_byte_less[of x] by auto
  then show ?case using Cons by (simp add: decodeNibble_hex_digit)
qed simp

lemma UnmarshalFixedText_Bytes: "length b = n \<Longrightarrow> UnmarshalFixedText n (Bytes_MarshalText b) = Inr b"
  using EncodeToString_nibbles[of b]
  by (auto simp: UnmarshalFixedText_def unmarshalFixed_def checkText_Bytes list_ex_iff)

lemma HexToCP_Bytes: "HexToCP (Bytes_MarshalText b) = Bytes_MarshalText b"
  by (simp add: HexToCP_def Bytes_MarshalText_def CustomHexPrefix_def)

lemma Hash_text_roundtrip: "Hash_UnmarshalText (Hash_MarshalText h) = Inr h"
  by (simp add: Hash_UnmarshalText_def Hash_MarshalText_def HexToCP_Bytes UnmarshalFixedText_Bytes
      Hash_Bytes_def BytesToHash_Bytes[unfolded Hash_Bytes_def])

lemma Address_text_roundtrip: "Address_UnmarshalText (Address_MarshalText a) = Inr a"
  by (simp add: Address_UnmarshalText_def Address_MarshalText_def HexToCP_Bytes UnmarshalFixedText_Bytes
      Address_Bytes_def BytesToAddress_Bytes[unfolded Address_Bytes_def])

text \<open>The JSON form is the text form in quotes.\<close>

lemma UnmarshalJSON_quoted: "f txt = Inr x \<Longrightarrow> UnmarshalJSON f (CHR ''\"'' # txt @ [CHR ''\"'']) = Inr x"
  by (simp add: UnmarshalJSON_def isString_def)

subsection \<open>Properties\<close>

text \<open>
  Everything that \<open>hexutil\<close> writes it reads back: byte strings, 64 bit integers, big integers of
  at most 256 bits, and the text forms of byte strings, integers, hashes and addresses.
\<close>

lemma hexutil_roundtrip:
  "Decode (Encode b) = Inr b \<and> Bytes_UnmarshalText (Bytes_MarshalText b) = Inr b
   \<and> DecodeUint64 (EncodeUint64 i) = Inr i \<and> Uint64_UnmarshalText (Uint64_MarshalText i) = Inr i
   \<and> (0 \<le> x \<and> x < 2 ^ 256 \<longrightarrow> DecodeBig (EncodeBig x) = Inr x \<and> Big_UnmarshalText (Big_MarshalText x) = Inr x)
   \<and> Hash_UnmarshalText (Hash_MarshalText h) = Inr h \<and> Address_UnmarshalText (Address_MarshalText a) = Inr a"
  using Decode_Encode Bytes_text_roundtrip DecodeUint64_EncodeUint64 Uint64_text_roundtrip
    DecodeBig_EncodeBig Hash_text_roundtrip Address_text_roundtrip by blast

lemma hexutil_roundtrip_witness:
  "DecodeBig (EncodeBig 1000) = Inr 1000 \<and> Decode (Encode [1, 255]) = Inr [1, 255]"
  using hexutil_roundtrip[of "[1, 255]" 0 1000 0 0] by simp

lemma canonical_length:
  assumes "hexnum 0 raw = Some n" "\<not> (length raw > 1 \<and> raw ! 0 = CHR ''0'')"
  shows "int n < 2 ^ 64 \<longleftrightarrow> length raw \<le> 16"
proof
  assume n: "int n < 2 ^ 64"
  show "length raw \<le> 16"
  proof (rule ccontr)
    assume long: "\<not> length raw \<le> 16"
    then obtain c cs where raw: "raw = c # cs" by (cases raw) auto
    obtain d where d: "decodeNibble c = Some d" "hexnum d cs = Some n"
      using assms(1) by (auto simp: raw split: option.splits)
    have "d \<noteq> 0" using d(1) decodeNibble_zero[of c] assms(2) long raw by auto
    moreover have "d * 16 ^ length cs \<le> n" using d(2) hexnum_shift[of d cs] by auto
    ultimately have "16 ^ length cs \<le> n" by (metis One_nat_def Suc_leI dual_order.trans mult_le_mono1 neq0_conv nat_mult_1)
    then have "(16 :: int) ^ length cs \<le> int n" by (metis of_nat_le_iff of_nat_numeral of_nat_power)
    moreover have "(2 :: int) ^ 64 \<le> 16 ^ length cs"
      using power_increasing[of 16 "length cs" "16 :: int"] long raw by simp
    ultimately show False using n by linarith
  qed
next
  assume "length raw \<le> 16"
  then show "int n < 2 ^ 64" using hexnum_bound_16[OF assms(1)] by simp
qed

lemma has0xPrefix_bytes:
  assumes "has0xPrefix s"
  shows "bytesHave0xPrefix s"
proof -
  obtain a b t where s: "s = a # b # t" using assms by (cases s; cases "tl s") (auto simp: has0xPrefix_def)
  then show ?thesis
    using assms by (simp add: has0xPrefix_def bytesHave0xPrefix_def PossibleCustomHexPrefixMap_def)
qed

text \<open>
  The two readers of 64 bit integers agree: on a text with the prefix \<open>0x\<close> or \<open>0X\<close>,
  \<open>DecodeUint64\<close>, which parses with overflow checks, and \<open>Uint64.UnmarshalText\<close>, which limits the
  number of digits, accept the same texts and give the same value.
\<close>

lemma uint64_readers_agree:
  assumes "has0xPrefix s"
  shows "DecodeUint64 s = Inr i \<longleftrightarrow> Uint64_UnmarshalText s = Inr i"
proof -
  have s: "s \<noteq> []" using assms by (auto simp: has0xPrefix_def)
  have same: "checkNumberText s = checkNumber s"
    using assms has0xPrefix_bytes[OF assms] s by (simp add: checkNumberText_def checkNumber_def)
  show ?thesis
  proof (cases "checkNumber s")
    case (Inl e)
    then show ?thesis by (simp add: DecodeUint64_def Uint64_UnmarshalText_def same)
  next
    case (Inr raw)
    then have raw: "raw \<noteq> []" "\<not> (length raw > 1 \<and> raw ! 0 = CHR ''0'')"
      by (auto simp: checkNumber_def Let_def split: if_splits)
    have "DecodeUint64 s = Inr i \<longleftrightarrow> parseUintLoop 0 raw = Inr i"
      using Inr raw(1) by (auto simp: DecodeUint64_def ParseUint_def split: sum.splits)
    also have "\<dots> \<longleftrightarrow> (\<exists>n. hexnum 0 raw = Some n \<and> int n < 2 ^ 64 \<and> i = of_nat n)"
      using parseUintLoop_ok[of 0 raw i] by (simp only: unat_0)
    also have "\<dots> \<longleftrightarrow> (\<exists>n. hexnum 0 raw = Some n \<and> length raw \<le> 16 \<and> i = of_nat n)"
      using canonical_length[OF _ raw(2)] by blast
    also have "\<dots> \<longleftrightarrow> Uint64_UnmarshalText s = Inr i"
      using Inr by (auto simp: Uint64_UnmarshalText_def same nibbleWord_zero split: option.splits)
    finally show ?thesis .
  qed
qed

lemma uint64_readers_agree_witness:
  "DecodeUint64 ''0xff'' = Inr 255 \<longleftrightarrow> Uint64_UnmarshalText ''0xff'' = Inr 255"
  by (rule uint64_readers_agree) (simp add: has0xPrefix_def)

text \<open>
  \<open>EncodeBig\<close> does not ignore the sign: the text of a negative integer starts with a minus
  sign, so it is the text of its absolute value with a sign in front, and \<open>DecodeBig\<close> rejects it.
\<close>

lemma EncodeBig_negative:
  assumes "x < 0"
  shows "EncodeBig x = CHR ''-'' # EncodeBig (- x) \<and> DecodeBig (EncodeBig x) = Inl ErrMissingPrefix"
  using assms by (simp add: EncodeBig_def DecodeBig_def checkNumber_def has0xPrefix_def)

lemma EncodeBig_negative_witness:
  "EncodeBig (- 5) = ''-0x5'' \<and> DecodeBig (EncodeBig (- 5)) = Inl ErrMissingPrefix"
proof -
  have "hex_of_nat 5 = ''5''" by code_simp
  then show ?thesis using EncodeBig_negative[of "- 5"] by (simp add: EncodeBig_def)
qed

end
