(* ===== verification/Go_Strconv.thy ===== *)
theory Go_Strconv
  imports Go_Text
begin

text \<open>
  Decimal numbers of the standard library: \<open>strconv.Atoi\<close> and the verb \<open>%d\<close> of \<open>fmt\<close>, and that
  \<open>(*big.Int).UnmarshalText\<close> and \<open>Atoi\<close> read what \<open>%d\<close> prints.
\<close>

definition dec_digit :: "nat \<Rightarrow> char" where
  "dec_digit n = ''0123456789'' ! n"

fun dec_of_nat :: "nat \<Rightarrow> string" where
  "dec_of_nat n = (if n < 10 then [dec_digit n] else dec_of_nat (n div 10) @ [dec_digit (n mod 10)])"

declare dec_of_nat.simps [simp del]

fun dec_value :: "nat \<Rightarrow> string \<Rightarrow> nat option" where
  "dec_value v [] = Some v"
| "dec_value v (c # cs) = (if digit_value c < 10 then dec_value (v * 10 + digit_value c) cs else None)"

definition unsigned_dec :: "string \<Rightarrow> nat option" where
  "unsigned_dec cs = (if cs = [] then None else dec_value 0 cs)"

text \<open>An optional sign and decimal digits, within the range of a 64 bit \<open>int\<close>.\<close>

definition Atoi :: "string \<Rightarrow> int option" where
  "Atoi s =
     (let v = (case s of
                 [] \<Rightarrow> None
               | c # cs \<Rightarrow> if c = CHR ''-'' then map_option (\<lambda>n. - int n) (unsigned_dec cs)
                           else if c = CHR ''+'' then map_option int (unsigned_dec cs)
                           else map_option int (unsigned_dec s))
      in case v of None \<Rightarrow> None
         | Some n \<Rightarrow> if - (2 ^ 63) \<le> n \<and> n < 2 ^ 63 then Some n else None)"

lemma digit_value_dec_digit: "n < 10 \<Longrightarrow> digit_value (dec_digit n) = n"
proof -
  have "\<forall>n<10. digit_value (dec_digit n) = n"
    by (simp add: All_less_Suc numeral_eq_Suc digit_value_def dec_digit_def Let_def)
  then show "n < 10 \<Longrightarrow> ?thesis" by blast
qed

lemma dec_digit_neq:
  "n < 10 \<Longrightarrow> dec_digit n \<noteq> CHR ''-''" "n < 10 \<Longrightarrow> dec_digit n \<noteq> CHR ''+''"
  "n < 10 \<Longrightarrow> dec_digit n \<noteq> CHR ''_''" "n < 10 \<Longrightarrow> dec_digit n \<noteq> CHR '':''"
  "0 < n \<Longrightarrow> n < 10 \<Longrightarrow> dec_digit n \<noteq> CHR ''0''"
  using digit_value_dec_digit[of n] by (auto simp: digit_value_def)

lemma dec_of_nat_digits: "c \<in> set (dec_of_nat n) \<Longrightarrow> \<exists>d<10. c = dec_digit d"
proof (induction n rule: dec_of_nat.induct)
  case (1 n)
  show ?case
  proof (cases "n < 10")
    case True
    then show ?thesis using 1(2) by (auto simp: dec_of_nat.simps[of n])
  next
    case False
    then show ?thesis
      using 1 by (auto simp: dec_of_nat.simps[of n] intro: exI[of _ "n mod 10"])
  qed
qed

lemma dec_of_nat_nonempty [simp]: "dec_of_nat n \<noteq> []"
  by (subst dec_of_nat.simps) simp

lemma dec_of_nat_leading: "0 < n \<Longrightarrow> hd (dec_of_nat n) \<noteq> CHR ''0''"
proof (induction n rule: dec_of_nat.induct)
  case (1 n)
  then show ?case
    by (cases "n < 10") (auto simp: dec_of_nat.simps[of n] dec_digit_neq hd_append)
qed

lemma dec_value_append: "dec_value v (a @ b) = Option.bind (dec_value v a) (\<lambda>m. dec_value m b)"
  by (induction a arbitrary: v) auto

lemma dec_value_dec_of_nat: "dec_value 0 (dec_of_nat n) = Some n"
proof (induction n rule: dec_of_nat.induct)
  case (1 n)
  show ?case
  proof (cases "n < 10")
    case True
    then show ?thesis by (simp add: dec_of_nat.simps[of n] digit_value_dec_digit)
  next
    case False
    then have "dec_value 0 (dec_of_nat (n div 10)) = Some (n div 10)" using 1 by blast
    then show ?thesis
      using False by (simp add: dec_of_nat.simps[of n] dec_value_append digit_value_dec_digit)
  qed
qed

lemma scan_digits_dec:
  assumes "\<And>c. c \<in> set cs \<Longrightarrow> \<exists>d<10. c = dec_digit d" "cs \<noteq> []" "dec_value v cs = Some n"
  shows "scan_digits 10 v cnt prev inval cs = Some (n, cnt + length cs, CHR ''0'', inval)"
  using assms
proof (induction cs arbitrary: v cnt prev)
  case (Cons c cs)
  obtain d where d: "d < 10" "c = dec_digit d" using Cons.prems(1)[of c] by auto
  then have c: "digit_value c = d" "c \<noteq> CHR ''_''" by (simp_all add: digit_value_dec_digit dec_digit_neq)
  show ?case
  proof (cases "cs = []")
    case True
    then show ?thesis using c d(1) Cons.prems(3) by simp
  next
    case False
    then show ?thesis using Cons c d(1) by simp
  qed
qed simp

lemma big_UnmarshalText_dec: "big_UnmarshalText (dec_of_nat n) = Some (int n)"
proof -
  obtain c cs where cs: "dec_of_nat n = c # cs" by (cases "dec_of_nat n") auto
  obtain d where "d < 10" "c = dec_digit d" using dec_of_nat_digits[of c n] cs by auto
  then have c: "c \<noteq> CHR ''-''" "c \<noteq> CHR ''+''" by (simp_all add: dec_digit_neq)
  have "scan_digits 10 0 0 CHR ''.'' False (dec_of_nat n) = Some (n, 0 + length (dec_of_nat n), CHR ''0'', False)"
    by (rule scan_digits_dec) (auto dest: dec_of_nat_digits simp: dec_value_dec_of_nat)
  then have from10: "scan_nat_from 10 CHR ''.'' False (dec_of_nat n) = Some n" by (simp add: scan_nat_from_def)
  have "scan_nat (dec_of_nat n) = Some n"
  proof (cases "n = 0")
    case True
    then show ?thesis using from10 by (simp add: scan_nat_def dec_of_nat.simps[of 0])
  next
    case False
    then have "c \<noteq> CHR ''0''" using dec_of_nat_leading[of n] cs by simp
    then show ?thesis using from10 by (simp add: scan_nat_def cs split: list.splits)
  qed
  then show ?thesis using c by (simp add: big_UnmarshalText_def cs)
qed

lemma Atoi_dec: "int n < 2 ^ 63 \<Longrightarrow> Atoi (dec_of_nat n) = Some (int n)"
proof -
  obtain c cs where cs: "dec_of_nat n = c # cs" by (cases "dec_of_nat n") auto
  obtain d where "d < 10" "c = dec_digit d" using dec_of_nat_digits[of c n] cs by auto
  then have c: "c \<noteq> CHR ''-''" "c \<noteq> CHR ''+''" by (simp_all add: dec_digit_neq)
  have "unsigned_dec (c # cs) = Some n" using dec_value_dec_of_nat[of n] cs by (simp add: unsigned_dec_def)
  then show "int n < 2 ^ 63 \<Longrightarrow> ?thesis" using c by (simp add: Atoi_def cs)
qed

lemma dec_of_nat_no_colon: "CHR '':'' \<notin> set (dec_of_nat n)"
  using dec_of_nat_digits[of "CHR '':''" n] dec_digit_neq(4) by metis

lemma Atoi_range: "Atoi s = Some n \<Longrightarrow> - (2 ^ 63) \<le> n \<and> n < 2 ^ 63"
  by (auto simp: Atoi_def Let_def split: option.splits if_splits)

end
