(* ===== verification/Alien_CustomTx.thy ===== *)
theory Alien_CustomTx
  imports Alien_Apply Hexutil Go_Strconv
begin

text \<open>
  The custom transactions of \<open>consensus/alien/custom_tx.go\<close>: transactions whose data starts with
  \<open>ufo:1:\<close> carry votes, confirmations, proposals, declarations and side chain events, which
  \<open>processCustomTx\<close> collects into the header.  The snapshot of the parent is \<open>None\<close> where the code
  has a nil pointer (block 1).  What the code gets from other packages are parameters: the sender
  and the hash of a transaction, the header of a number (\<open>GetHeaderByNumber\<close>), the decoding of a
  header's extra data (in \<^typ>\<open>env\<close>) and the snapshot of the parent.
\<close>

subsection \<open>Constants\<close>

definition ufoPrefix :: string where "ufoPrefix = ''ufo''"
definition ufoVersion :: string where "ufoVersion = ''1''"
definition ufoCategoryEvent :: string where "ufoCategoryEvent = ''event''"
definition ufoCategorySC :: string where "ufoCategorySC = ''sc''"
definition ufoEventVote :: string where "ufoEventVote = ''vote''"
definition ufoEventConfirm :: string where "ufoEventConfirm = ''confirm''"
definition ufoEventPorposal :: string where "ufoEventPorposal = ''proposal''"
definition ufoEventDeclare :: string where "ufoEventDeclare = ''declare''"
definition ufoEventSetCoinbase :: string where "ufoEventSetCoinbase = ''setcb''"
definition ufoMinSplitLen :: nat where "ufoMinSplitLen = 3"
definition posPrefix :: nat where "posPrefix = 0"
definition posVersion :: nat where "posVersion = 1"
definition posCategory :: nat where "posCategory = 2"
definition posEventVote :: nat where "posEventVote = 3"
definition posEventConfirm :: nat where "posEventConfirm = 3"
definition posEventProposal :: nat where "posEventProposal = 3"
definition posEventDeclare :: nat where "posEventDeclare = 3"
definition posEventSetCoinbase :: nat where "posEventSetCoinbase = 3"
definition posEventConfirmNumber :: nat where "posEventConfirmNumber = 4"
definition maxValidationLoopCnt :: int where "maxValidationLoopCnt = 50000"
definition minValidationLoopCnt :: int where "minValidationLoopCnt = 4"
definition defaultValidationLoopCnt :: u64 where "defaultValidationLoopCnt = 10000"
definition maxProposalDeposit :: int where "maxProposalDeposit = 100000"
definition minSCRentFee :: int where "minSCRentFee = 100"
definition minSCRentLength :: int where "minSCRentLength = 850000"
definition defaultSCRentLength :: int where "defaultSCRentLength = minSCRentLength * 3"
definition maxSCRentLength :: int where "maxSCRentLength = defaultSCRentLength * 4"
definition minSCSetCoinbaseValue :: int where "minSCSetCoinbaseValue = 5 * 10 ^ 18"
definition proposalDeposit :: int where "proposalDeposit = 10 ^ 18 * 10 ^ 4"

lemmas ufo_defs = ufoPrefix_def ufoVersion_def ufoCategoryEvent_def ufoCategorySC_def ufoEventVote_def
  ufoEventConfirm_def ufoEventPorposal_def ufoEventDeclare_def ufoEventSetCoinbase_def ufoMinSplitLen_def
  posPrefix_def posVersion_def posCategory_def posEventVote_def posEventConfirm_def posEventProposal_def
  posEventDeclare_def posEventSetCoinbase_def posEventConfirmNumber_def

lemmas limit_defs = maxValidationLoopCnt_def minValidationLoopCnt_def defaultValidationLoopCnt_def
  maxProposalDeposit_def minSCRentFee_def minSCRentLength_def defaultSCRentLength_def maxSCRentLength_def

subsection \<open>Transactions\<close>

record transaction =
  Tx_Data :: string
  Tx_To :: "address option"
  Tx_Value :: int
  Tx_GasPrice :: int
  Tx_Hash :: hash
  Tx_Sender :: "address res"

record receipt =
  Rc_TxHash :: hash
  Rc_Status :: u64
  Rc_GasUsed :: u64

record refund_pair =
  RP_Sender :: address
  RP_GasPrice :: int

type_synonym refund_hash = "(hash, refund_pair) gomap"
type_synonym refund_gas = "(address, int) gomap"

text \<open>Dereferencing a pointer that may be nil.\<close>

definition deref_ptr :: "'a option \<Rightarrow> 'a res" where
  "deref_ptr p = (case p of None \<Rightarrow> Inl PanicNil | Some x \<Rightarrow> Inr x)"

lemma deref_ptr_simps [simp]: "deref_ptr (Some x) = Inr x" "deref_ptr None = Inl PanicNil"
  by (simp_all add: deref_ptr_def)

lemma deref_ptr_eq_Inr [res_simps]: "deref_ptr p = Inr x \<longleftrightarrow> p = Some x"
  by (cases p) auto

subsection \<open>Side chain events\<close>

definition buildSCEventConfirmData :: "hash \<Rightarrow> int \<Rightarrow> int \<Rightarrow> string \<Rightarrow> string \<Rightarrow> string" where
  "buildSCEventConfirmData scHash headerNumber headerTime lastLoopInfo chargingInfo =
     join '':'' [ufoPrefix, ufoVersion, ufoCategorySC, ufoEventConfirm, Hash_Hex scHash,
       dec_of_nat (unat (Uint64 headerNumber)), dec_of_nat (unat (Uint64 headerTime)),
       lastLoopInfo, chargingInfo]"

definition processSCEventNoticeConfirm ::
  "sc_confirmation list \<Rightarrow> hash \<Rightarrow> u64 \<Rightarrow> string \<Rightarrow> address \<Rightarrow> sc_confirmation list" where
  "processSCEventNoticeConfirm scEventNoticeConfirm h number chargingInfo txSender =
     (if chargingInfo \<noteq> [] then scEventNoticeConfirm @
        [\<lparr>SCC_Hash = h, SCC_Coinbase = txSender, SCC_Number = number, LoopInfo = split_on CHR ''#'' chargingInfo\<rparr>]
      else scEventNoticeConfirm)"

definition processSCEventConfirm ::
  "sc_confirmation list \<Rightarrow> hash \<Rightarrow> u64 \<Rightarrow> string \<Rightarrow> transaction \<Rightarrow> address \<Rightarrow> refund_hash \<Rightarrow>
   sc_confirmation list \<times> refund_hash" where
  "processSCEventConfirm scEventConfirmaions h number loopInfo tx txSender refundHash =
     (scEventConfirmaions @
        [\<lparr>SCC_Hash = h, SCC_Coinbase = txSender, SCC_Number = number, LoopInfo = split_on CHR ''#'' loopInfo\<rparr>],
      gput refundHash (Tx_Hash tx) \<lparr>RP_Sender = txSender, RP_GasPrice = Tx_GasPrice tx\<rparr>)"

definition processSCEventSetCoinbase ::
  "sc_set_coinbase list \<Rightarrow> hash \<Rightarrow> address \<Rightarrow> address \<Rightarrow> sc_set_coinbase list" where
  "processSCEventSetCoinbase scEventSetCoinbases h signer coinbase =
     scEventSetCoinbases @ [\<lparr>SSC_Hash = h, SSC_Signer = signer, SSC_Coinbase = coinbase\<rparr>]"

subsection \<open>Proposals and declarations\<close>

text \<open>
  One key of a proposal.  \<open>None\<close> is the early return of a proposal that is not accepted; an
  address or hash that does not parse leaves the field as it is.
\<close>

definition setProposalField :: "string \<Rightarrow> string \<Rightarrow> proposal \<Rightarrow> proposal option" where
  "setProposalField k v p =
     (let num = (\<lambda>ok upd. case Atoi v of None \<Rightarrow> None
                   | Some n \<Rightarrow> if ok n then Some (upd (word_of_int n :: u64)) else None);
          adr = (case Address_UnmarshalText v of Inr a \<Rightarrow> p\<lparr>TargetAddress := a\<rparr> | Inl _ \<Rightarrow> p)
      in
      if k = ''vlcnt'' then num (\<lambda>n. \<not> (n < minValidationLoopCnt \<or> n > maxValidationLoopCnt))
                              (\<lambda>x. p\<lparr>ValidationLoopCnt := x\<rparr>)
      else if k = ''schash'' then
        Some (case Hash_UnmarshalText v of Inr h \<Rightarrow> p\<lparr>SCHash := h\<rparr> | Inl _ \<Rightarrow> p)
      else if k = ''sccount'' then num (\<lambda>_. True) (\<lambda>x. p\<lparr>SCBlockCountPerPeriod := x\<rparr>)
      else if k = ''screward'' then num (\<lambda>_. True) (\<lambda>x. p\<lparr>SCBlockRewardPerPeriod := x\<rparr>)
      else if k = ''proposal_type'' then num (\<lambda>_. True) (\<lambda>x. p\<lparr>ProposalType := x\<rparr>)
      else if k = ''candidate'' then Some adr
      else if k = ''mrpt'' then num (\<lambda>n. \<not> (n \<le> 0 \<or> n > 1000)) (\<lambda>x. p\<lparr>MinerRewardPerThousand := x\<rparr>)
      else if k = ''mvb'' then num (\<lambda>n. \<not> n \<le> 0) (\<lambda>x. p\<lparr>Prop_MinVoterBalance := x\<rparr>)
      else if k = ''mpd'' then num (\<lambda>n. \<not> (n \<le> 0 \<or> n > maxProposalDeposit)) (\<lambda>x. p\<lparr>ProposalDeposit := x\<rparr>)
      else if k = ''scrt'' then Some adr
      else if k = ''scrf'' then num (\<lambda>n. \<not> n < minSCRentFee) (\<lambda>x. p\<lparr>SCRentFee := x\<rparr>)
      else if k = ''scrr'' then num (\<lambda>n. \<not> n \<le> 0) (\<lambda>x. p\<lparr>SCRentRate := x\<rparr>)
      else if k = ''scrl'' then num (\<lambda>n. \<not> (n < minSCRentLength \<or> n > maxSCRentLength))
                              (\<lambda>x. p\<lparr>SCRentLength := x\<rparr>)
      else Some p)"

fun setProposalFields :: "string list \<Rightarrow> proposal \<Rightarrow> proposal option" where
  "setProposalFields (k # v # rest) p = Option.bind (setProposalField k v p) (setProposalFields rest)"
| "setProposalFields _ p = Some p"

definition defaultProposal :: "transaction \<Rightarrow> address \<Rightarrow> proposal" where
  "defaultProposal tx proposer = \<lparr>Prop_Hash = Tx_Hash tx, ReceivedNumber = 0, CurrentDeposit = proposalDeposit,
     ValidationLoopCnt = defaultValidationLoopCnt, ProposalType = proposalTypeCandidateAdd,
     Proposer = proposer, TargetAddress = 0, MinerRewardPerThousand = minerRewardPerThousand, SCHash = 0,
     SCBlockCountPerPeriod = 1, SCBlockRewardPerPeriod = 0, Declares = [],
     Prop_MinVoterBalance = Uint64 (minVoterBalance div 10 ^ 18),
     ProposalDeposit = Uint64 (proposalDeposit div 10 ^ 18), SCRentFee = 0, SCRentRate = 1,
     SCRentLength = word_of_int defaultSCRentLength\<rparr>"

definition SetBalance :: "balances \<Rightarrow> address \<Rightarrow> int \<Rightarrow> balances" where
  "SetBalance st a x = st(a := x)"

definition processEventProposal ::
  "proposal list \<Rightarrow> string list \<Rightarrow> balances \<Rightarrow> transaction \<Rightarrow> address \<Rightarrow> snapshot option \<Rightarrow>
   (proposal list \<times> balances) res" where
  "processEventProposal ps txDataInfo st tx proposer snap =
     (if length txDataInfo \<le> posEventProposal + 2 then Inr (ps, st)
      else (case setProposalFields (drop (posEventProposal + 1) txDataInfo) (defaultProposal tx proposer) of
         None \<Rightarrow> Inr (ps, st)
       | Some p \<Rightarrow>
           bind_res (if ProposalType p = proposalTypeRentSideChain
                     then bind_res (deref_ptr snap)
                            (\<lambda>s. Inr (isSideChainExist s (SCHash p) \<and> TargetAddress p \<noteq> 0))
                     else Inr True)
             (\<lambda>ok. let pay = proposalDeposit + (if ProposalType p = proposalTypeRentSideChain
                                                then uint (SCRentFee p) * 10 ^ 18 else 0)
                   in if \<not> ok \<or> st proposer < pay then Inr (ps, st)
                      else Inr (ps @ [p], SetBalance st proposer (st proposer - pay)))))"

fun setDeclareFields :: "string list \<Rightarrow> declare_t \<Rightarrow> declare_t option" where
  "setDeclareFields (k # v # rest) d =
     (if k = ''hash'' then
        setDeclareFields rest (case Hash_UnmarshalText v of Inr h \<Rightarrow> d\<lparr>ProposalHash := h\<rparr> | Inl _ \<Rightarrow> d)
      else if k = ''decision'' then
        (if v = ''yes'' then setDeclareFields rest (d\<lparr>Decision := True\<rparr>)
         else if v = ''no'' then setDeclareFields rest (d\<lparr>Decision := False\<rparr>) else None)
      else setDeclareFields rest d)"
| "setDeclareFields _ d = Some d"

definition processEventDeclare :: "declare_t list \<Rightarrow> string list \<Rightarrow> address \<Rightarrow> declare_t list" where
  "processEventDeclare ds txDataInfo declarer =
     (if length txDataInfo \<le> posEventDeclare + 2 then ds
      else (case setDeclareFields (drop (posEventDeclare + 1) txDataInfo)
                   \<lparr>ProposalHash = 0, Declarer = declarer, Decision = True\<rparr> of
              None \<Rightarrow> ds | Some d \<Rightarrow> ds @ [d]))"

subsection \<open>Votes and confirmations\<close>

definition processEventVote :: "vote list \<Rightarrow> balances \<Rightarrow> transaction \<Rightarrow> address \<Rightarrow> vote list res" where
  "processEventVote vs st tx voter =
     bind_res (deref_ptr (Tx_To tx))
       (\<lambda>to. Inr (vs @ [\<lparr>Voter = voter, Candidate = to, Stake = st voter\<rparr>]))"

text \<open>
  A confirmation counts if the block is one of the last \<open>MaxSignerCount\<close> ones and the sender is in
  its signer queue; then the sender's gas is refunded.
\<close>

definition processEventConfirm ::
  "env \<Rightarrow> alien_config \<Rightarrow> (u64 \<Rightarrow> header option) \<Rightarrow> confirmation list \<Rightarrow> string list \<Rightarrow> u64 \<Rightarrow>
   transaction \<Rightarrow> address \<Rightarrow> refund_hash \<Rightarrow> confirmation list \<times> refund_hash" where
  "processEventConfirm env cfg getHeaderByNumber cs txDataInfo number tx confirmer refundHash =
     (if length txDataInfo > posEventConfirmNumber then
        (case big_UnmarshalText (txDataInfo ! posEventConfirmNumber) of
           None \<Rightarrow> (cs, refundHash)
         | Some confirmedBlockNumber \<Rightarrow>
             if number - Uint64 confirmedBlockNumber > MaxSignerCount cfg
                \<or> number - Uint64 confirmedBlockNumber < 0 then (cs, refundHash)
             else (case getHeaderByNumber (Uint64 confirmedBlockNumber) of
                None \<Rightarrow> (cs, refundHash)
              | Some hdr \<Rightarrow>
                  if extraVanity + extraSeal > length (Extra hdr) then (cs, refundHash)
                  else (case decodeHeaderExtra env cfg confirmedBlockNumber
                          (take (length (Extra hdr) - extraSeal - extraVanity) (drop extraVanity (Extra hdr))) of
                     Inl _ \<Rightarrow> (cs, refundHash)
                   | Inr extra \<Rightarrow>
                       if confirmer \<in> set (SignerQueue extra)
                       then (cs @ [\<lparr>Signer = confirmer, BlockNumber = confirmedBlockNumber\<rparr>],
                             gput refundHash (Tx_Hash tx) \<lparr>RP_Sender = confirmer, RP_GasPrice = Tx_GasPrice tx\<rparr>)
                       else (cs, refundHash))))
      else (cs, refundHash))"

definition processPredecessorVoter ::
  "vote list \<Rightarrow> balances \<Rightarrow> transaction \<Rightarrow> address \<Rightarrow> snapshot \<Rightarrow> vote list" where
  "processPredecessorVoter vs st tx voter snap =
     (case Tx_To tx of
        None \<Rightarrow> vs
      | Some to \<Rightarrow>
          if Tx_Value tx > 0 then
            (let vs1 = (if isVoter snap voter
                        then vs @ [\<lparr>Voter = voter, Candidate = 0, Stake = st voter\<rparr>] else vs)
             in if isVoter snap to
                then vs1 @ [\<lparr>Voter = to, Candidate = 0, Stake = st to\<rparr>] else vs1)
          else vs)"

subsection \<open>Processing the transactions of a block\<close>

text \<open>What the loop over the transactions updates; the flag of \<open>customTx\<close> is \<open>continue\<close>.\<close>

record tx_state =
  TS_extra :: header_extra
  TS_balances :: balances
  TS_refund :: refund_hash

text \<open>The conditions of the branches; evaluating them may dereference the snapshot.\<close>

definition isVoteTx :: "snapshot option \<Rightarrow> transaction \<Rightarrow> address \<Rightarrow> balances \<Rightarrow> string list \<Rightarrow> bool res" where
  "isVoteTx snap tx txSender st info =
     (if info ! posEventVote = ufoEventVote then
        bind_res (if candidateNeedPD
                  then bind_res (deref_ptr snap) (\<lambda>s. bind_res (deref_ptr (Tx_To tx))
                         (\<lambda>to. Inr (isCandidate s to)))
                  else Inr True)
          (\<lambda>ok. if ok then bind_res (deref_ptr snap) (\<lambda>s. bind_res (deref_ptr (MinVB s))
                         (\<lambda>m. Inr (st txSender > m)))
                else Inr False)
      else Inr False)"

definition isCandidateTx :: "snapshot option \<Rightarrow> address \<Rightarrow> string list \<Rightarrow> nat \<Rightarrow> string \<Rightarrow> bool res" where
  "isCandidateTx snap txSender info pos ev =
     (if info ! pos = ev then bind_res (deref_ptr snap) (\<lambda>s. Inr (isCandidate s txSender)) else Inr False)"

definition eventTx ::
  "env \<Rightarrow> alien_config \<Rightarrow> (u64 \<Rightarrow> header option) \<Rightarrow> u64 \<Rightarrow> snapshot option \<Rightarrow> transaction \<Rightarrow> address \<Rightarrow>
   string list \<Rightarrow> tx_state \<Rightarrow> tx_state res" where
  "eventTx env cfg getHeaderByNumber number snap tx txSender info ts =
     (let x = TS_extra ts; st = TS_balances ts in
      if length info > ufoMinSplitLen then
        bind_res (isVoteTx snap tx txSender st info) (\<lambda>isVote.
        if isVote then
          bind_res (processEventVote (CurrentBlockVotes x) st tx txSender)
            (\<lambda>vs. Inr (ts\<lparr>TS_extra := x\<lparr>CurrentBlockVotes := vs\<rparr>\<rparr>))
        else bind_res (isCandidateTx snap txSender info posEventConfirm ufoEventConfirm) (\<lambda>isConfirm.
        if isConfirm then
          (case processEventConfirm env cfg getHeaderByNumber (CurrentBlockConfirmations x) info number tx
                  txSender (TS_refund ts) of (cs, r) \<Rightarrow>
             Inr (ts\<lparr>TS_extra := x\<lparr>CurrentBlockConfirmations := cs\<rparr>, TS_refund := r\<rparr>))
        else if info ! posEventProposal = ufoEventPorposal then
          bind_res (processEventProposal (CurrentBlockProposals x) info st tx txSender snap)
            (\<lambda>(ps, st'). Inr (ts\<lparr>TS_extra := x\<lparr>CurrentBlockProposals := ps\<rparr>, TS_balances := st'\<rparr>))
        else bind_res (isCandidateTx snap txSender info posEventDeclare ufoEventDeclare) (\<lambda>isDeclare.
          if isDeclare then
            Inr (ts\<lparr>TS_extra := x\<lparr>CurrentBlockDeclares :=
              processEventDeclare (CurrentBlockDeclares x) info txSender\<rparr>\<rparr>)
          else Inr ts)))
      else Inr ts)"

definition scTx ::
  "snapshot option \<Rightarrow> transaction \<Rightarrow> address \<Rightarrow> string list \<Rightarrow> tx_state \<Rightarrow> (tx_state \<times> bool) res" where
  "scTx snap tx txSender info ts =
     (let x = TS_extra ts in
      if length info > ufoMinSplitLen then
        (if info ! posEventConfirm = ufoEventConfirm then
           (if length info > ufoMinSplitLen + 5 then
              (case big_UnmarshalText (info ! (ufoMinSplitLen + 2)) of
                 None \<Rightarrow> Inr (ts, True)
               | Some number \<Rightarrow>
                   (case big_UnmarshalText (info ! (ufoMinSplitLen + 3)) of
                      None \<Rightarrow> Inr (ts, True)
                    | Some _ \<Rightarrow>
                        let scHash = HexToHash (info ! (ufoMinSplitLen + 1));
                            (cs, r) = processSCEventConfirm (SideChainConfirmations x) scHash (Uint64 number)
                                        (info ! (ufoMinSplitLen + 4)) tx txSender (TS_refund ts)
                        in Inr (ts\<lparr>TS_refund := r, TS_extra := x\<lparr>SideChainConfirmations := cs,
                             SideChainNoticeConfirmed := processSCEventNoticeConfirm (SideChainNoticeConfirmed x)
                               scHash (Uint64 number) (info ! (ufoMinSplitLen + 5)) txSender\<rparr>\<rparr>, False)))
            else Inr (ts, False))
         else bind_res (isCandidateTx snap txSender info posEventSetCoinbase ufoEventSetCoinbase)
           (\<lambda>isSet.
            if isSet \<and> length info > ufoMinSplitLen + 1 \<and> Tx_Value tx \<ge> minSCSetCoinbaseValue
            then bind_res (deref_ptr (Tx_To tx))
              (\<lambda>to. Inr (ts\<lparr>TS_extra := x\<lparr>SideChainSetCoinbases := processSCEventSetCoinbase
                 (SideChainSetCoinbases x) (HexToHash (info ! (ufoMinSplitLen + 1))) txSender to\<rparr>\<rparr>, False))
            else Inr (ts, False)))
      else Inr (ts, False))"

definition customTx ::
  "env \<Rightarrow> alien_config \<Rightarrow> (u64 \<Rightarrow> header option) \<Rightarrow> u64 \<Rightarrow> snapshot option \<Rightarrow> transaction \<Rightarrow> address \<Rightarrow>
   tx_state \<Rightarrow> (tx_state \<times> bool) res" where
  "customTx env cfg getHeaderByNumber number snap tx txSender ts =
     (if length (Tx_Data tx) \<ge> length ufoPrefix then
        (let info = split_on CHR '':'' (Tx_Data tx) in
         if length info \<ge> ufoMinSplitLen \<and> info ! posPrefix = ufoPrefix \<and> info ! posVersion = ufoVersion then
           (if info ! posCategory = ufoCategoryEvent then
              bind_res (eventTx env cfg getHeaderByNumber number snap tx txSender info ts) (\<lambda>ts'. Inr (ts', False))
            else if info ! posCategory = ufoCategorySC then scTx snap tx txSender info ts
            else Inr (ts, False))
         else Inr (ts, False))
      else Inr (ts, False))"

definition processTx ::
  "env \<Rightarrow> alien_config \<Rightarrow> (u64 \<Rightarrow> header option) \<Rightarrow> u64 \<Rightarrow> snapshot option \<Rightarrow> tx_state \<Rightarrow> transaction \<Rightarrow> tx_state res" where
  "processTx env cfg getHeaderByNumber number snap ts tx =
     (case Tx_Sender tx of
        Inl _ \<Rightarrow> Inr ts
      | Inr txSender \<Rightarrow>
          bind_res (customTx env cfg getHeaderByNumber number snap tx txSender ts) (\<lambda>(ts1, skip).
            if skip then Inr ts1
            else if number > 1 then
              bind_res (deref_ptr snap) (\<lambda>s. Inr (ts1\<lparr>TS_extra := (TS_extra ts1)\<lparr>ModifyPredecessorVotes :=
                processPredecessorVoter (ModifyPredecessorVotes (TS_extra ts1)) (TS_balances ts1) tx txSender s\<rparr>\<rparr>))
            else Inr ts1))"

definition refundAddGas :: "refund_gas \<Rightarrow> address \<Rightarrow> int \<Rightarrow> refund_gas" where
  "refundAddGas refundGas a v = gput refundGas a (case gget refundGas a of None \<Rightarrow> v | Some y \<Rightarrow> y + v)"

text \<open>The gas of the refunded transactions that succeeded; every receipt has its own transaction.\<close>

definition refundReceipt :: "refund_hash \<Rightarrow> refund_gas \<Rightarrow> receipt \<Rightarrow> refund_gas" where
  "refundReceipt refundHash refundGas rc =
     (case gget refundHash (Rc_TxHash rc) of
        None \<Rightarrow> refundGas
      | Some pair \<Rightarrow>
          if Rc_Status rc = 1
          then refundAddGas refundGas (RP_Sender pair) (RP_GasPrice pair * go_int (Rc_GasUsed rc))
          else refundGas)"

definition processCustomTx ::
  "env \<Rightarrow> alien_config \<Rightarrow> (u64 \<Rightarrow> header option) \<Rightarrow> (u64 \<Rightarrow> hash \<Rightarrow> snapshot res) \<Rightarrow> header_extra \<Rightarrow> header \<Rightarrow>
   balances \<Rightarrow> transaction list \<Rightarrow> receipt list \<Rightarrow> (header_extra \<times> refund_gas \<times> balances) res" where
  "processCustomTx env cfg getHeaderByNumber snapshotAt headerExtra hdr st txs receipts =
     (let number = Uint64 (Hdr_Number hdr) in
      bind_res (if number > 1 then bind_res (snapshotAt (number - 1) (ParentHash hdr)) (\<lambda>s. Inr (Some s)) else Inr None)
        (\<lambda>snap. bind_res (foldM (processTx env cfg getHeaderByNumber number snap)
              \<lparr>TS_extra = headerExtra, TS_balances = st, TS_refund = []\<rparr> txs)
          (\<lambda>ts. Inr (TS_extra ts, foldl (refundReceipt (TS_refund ts)) [] receipts, TS_balances ts))))"

subsection \<open>Proposals are well formed\<close>

definition proposal_ok :: "proposal \<Rightarrow> bool" where
  "proposal_ok p \<longleftrightarrow>
     Declares p = [] \<and> CurrentDeposit p = proposalDeposit \<and>
     4 \<le> uint (ValidationLoopCnt p) \<and> uint (ValidationLoopCnt p) \<le> 50000 \<and>
     1 \<le> uint (MinerRewardPerThousand p) \<and> uint (MinerRewardPerThousand p) \<le> 1000 \<and>
     850000 \<le> uint (SCRentLength p) \<and> uint (SCRentLength p) \<le> 10200000 \<and>
     (SCRentFee p = 0 \<or> 100 \<le> uint (SCRentFee p))"

definition same_origin :: "proposal \<Rightarrow> proposal \<Rightarrow> bool" where
  "same_origin p q \<longleftrightarrow> Prop_Hash q = Prop_Hash p \<and> Proposer q = Proposer p"

lemma uint_word_of_int_u64: "0 \<le> n \<Longrightarrow> n < 2 ^ 63 \<Longrightarrow> uint (word_of_int n :: u64) = n"
  by (simp add: uint_word_of_int_eq take_bit_int_eq_self)

lemma setProposalField_ok:
  assumes "setProposalField k v p = Some p'" "proposal_ok p"
  shows "proposal_ok p' \<and> same_origin p p'"
proof -
  have r: "n < 2 ^ 63" if "Atoi v = Some n" for n using Atoi_range[OF that] by simp
  show ?thesis
    using assms unfolding setProposalField_def Let_def
    by (auto simp: proposal_ok_def same_origin_def limit_defs uint_word_of_int_u64 dest: r
        split: if_splits option.splits sum.splits)
qed

lemma setProposalFields_ok:
  "setProposalFields kvs p = Some p' \<Longrightarrow> proposal_ok p \<Longrightarrow> proposal_ok p' \<and> same_origin p p'"
proof (induction kvs p rule: setProposalFields.induct)
  case (1 k v rest p)
  then obtain q where q: "setProposalField k v p = Some q" "setProposalFields rest q = Some p'"
    by (auto simp: Option.bind_eq_Some_conv)
  then show ?case
    using 1(1)[OF q] setProposalField_ok[OF q(1) 1(3)] by (auto simp: same_origin_def)
qed (simp_all add: same_origin_def)

lemma defaultProposal_ok: "proposal_ok (defaultProposal tx a)"
  by (simp add: proposal_ok_def defaultProposal_def limit_defs minerRewardPerThousand_def)

lemma processEventProposal_cases:
  assumes "processEventProposal ps info st tx a snap = Inr (ps', st')"
  obtains "ps' = ps" "st' = st"
  | p where "ps' = ps @ [p]" "proposal_ok p" "Prop_Hash p = Tx_Hash tx" "Proposer p = a"
      "st' = st(a := st a - (CurrentDeposit p + rent_of p))" "CurrentDeposit p + rent_of p \<le> st a"
proof (cases "length info \<le> posEventProposal + 2")
  case True
  then show ?thesis using assms that(1) by (simp add: processEventProposal_def)
next
  case long: False
  show ?thesis
  proof (cases "setProposalFields (drop (posEventProposal + 1) info) (defaultProposal tx a)")
    case None
    then show ?thesis using assms long that(1) by (simp add: processEventProposal_def)
  next
    case (Some p)
    note p = setProposalFields_ok[OF Some defaultProposal_ok]
    let ?pay = "proposalDeposit + (if ProposalType p = proposalTypeRentSideChain
                                   then uint (SCRentFee p) * 10 ^ 18 else 0)"
    have pay: "?pay = CurrentDeposit p + rent_of p" using p by (simp add: proposal_ok_def rent_of_def ttc_def)
    obtain ok where "(if \<not> ok \<or> st a < ?pay then Inr (ps, st)
        else Inr (ps @ [p], SetBalance st a (st a - ?pay))) = (Inr (ps', st') :: (proposal list \<times> balances) res)"
      using assms long Some by (auto simp: processEventProposal_def Let_def bind_res_eq_Inr)
    then show ?thesis
      using that p unfolding pay
      by (auto simp: SetBalance_def same_origin_def defaultProposal_def split: if_splits)
  qed
qed

subsection \<open>What the loop over the transactions keeps\<close>

definition tx_state_ok :: "tx_state \<Rightarrow> bool" where
  "tx_state_ok ts \<longleftrightarrow> extra_ok (TS_extra ts) \<and> (\<forall>a. 0 \<le> TS_balances ts a)"

lemma processEventVote_ok:
  "processEventVote vs st tx a = Inr vs' \<Longrightarrow> \<forall>v\<in>set vs. 0 \<le> Stake v \<Longrightarrow> 0 \<le> st a \<Longrightarrow> \<forall>v\<in>set vs'. 0 \<le> Stake v"
  by (auto simp: processEventVote_def res_simps)

lemma processPredecessorVoter_ok:
  "\<forall>v\<in>set vs. 0 \<le> Stake v \<Longrightarrow> \<forall>a. 0 \<le> st a \<Longrightarrow> \<forall>v\<in>set (processPredecessorVoter vs st tx a s). 0 \<le> Stake v"
  by (auto simp: processPredecessorVoter_def Let_def split: option.splits)

lemma processEventProposal_ok:
  assumes "processEventProposal ps info st tx a snap = Inr (ps', st')"
    and "\<forall>p\<in>set ps. distinct (map Declarer (Declares p))" "\<forall>a. 0 \<le> st a"
  shows "(\<forall>p\<in>set ps'. distinct (map Declarer (Declares p))) \<and> (\<forall>a. 0 \<le> st' a)"
  using assms(1)
proof (cases rule: processEventProposal_cases)
  case 1
  then show ?thesis using assms(2,3) by simp
next
  case (2 p)
  then show ?thesis using assms(2,3) by (auto simp: proposal_ok_def)
qed

lemma eventTx_cases:
  assumes "eventTx env cfg gh number snap tx a info ts = Inr ts'"
  obtains "ts' = ts"
  | vs where "processEventVote (CurrentBlockVotes (TS_extra ts)) (TS_balances ts) tx a = Inr vs"
      "ts' = ts\<lparr>TS_extra := (TS_extra ts)\<lparr>CurrentBlockVotes := vs\<rparr>\<rparr>"
  | cs r where "ts' = ts\<lparr>TS_extra := (TS_extra ts)\<lparr>CurrentBlockConfirmations := cs\<rparr>, TS_refund := r\<rparr>"
  | ps st' where "processEventProposal (CurrentBlockProposals (TS_extra ts)) info (TS_balances ts) tx a snap = Inr (ps, st')"
      "ts' = ts\<lparr>TS_extra := (TS_extra ts)\<lparr>CurrentBlockProposals := ps\<rparr>, TS_balances := st'\<rparr>"
  | ds where "ts' = ts\<lparr>TS_extra := (TS_extra ts)\<lparr>CurrentBlockDeclares := ds\<rparr>\<rparr>"
proof (cases "length info > ufoMinSplitLen")
  case False
  then show thesis using assms that(1) by (simp add: eventTx_def)
next
  case True
  note ev = assms[unfolded eventTx_def Let_def if_P[OF True] bind_res_eq_Inr]
  then obtain isVote where v: "isVoteTx snap tx a (TS_balances ts) info = Inr isVote" by blast
  show thesis
  proof (cases isVote)
    case True
    then show thesis using ev v that(2) by (auto simp: bind_res_eq_Inr)
  next
    case False
    then obtain isConfirm where c: "isCandidateTx snap a info posEventConfirm ufoEventConfirm = Inr isConfirm"
      using ev v by (auto simp: bind_res_eq_Inr)
    show thesis
    proof (cases isConfirm)
      case True
      then show thesis using ev v c \<open>\<not> isVote\<close> that(3) by (auto split: prod.splits)
    next
      case False
      then show thesis
        using ev v c \<open>\<not> isVote\<close> that(1,4,5) by (auto simp: bind_res_eq_Inr split: if_splits prod.splits)
    qed
  qed
qed

lemma eventTx_ok:
  assumes "eventTx env cfg gh number snap tx a info ts = Inr ts'" "tx_state_ok ts"
  shows "tx_state_ok ts'"
  using assms(1)
proof (cases rule: eventTx_cases)
  case (2 vs)
  then show ?thesis using assms(2) processEventVote_ok[OF 2(1)] by (simp add: tx_state_ok_def extra_ok_def)
next
  case (4 ps st')
  then show ?thesis
    using assms(2) processEventProposal_ok[OF 4(1)] by (simp add: tx_state_ok_def extra_ok_def)
qed (use assms(2) in \<open>simp_all add: tx_state_ok_def extra_ok_def\<close>)

lemma scTx_ok:
  assumes "scTx snap tx a info ts = Inr (ts', b)" "tx_state_ok ts"
  shows "tx_state_ok ts'"
  using assms unfolding scTx_def Let_def
  by (auto simp: bind_res_eq_Inr tx_state_ok_def extra_ok_def split: if_splits prod.splits option.splits)

lemma customTx_ok:
  assumes "customTx env cfg gh number snap tx a ts = Inr (ts', b)" "tx_state_ok ts"
  shows "tx_state_ok ts'"
  using assms eventTx_ok[of env cfg gh number snap tx a _ ts ts'] scTx_ok[of snap tx a _ ts ts' b]
  unfolding customTx_def Let_def by (auto simp: bind_res_eq_Inr split: if_splits)

lemma processTx_ok:
  assumes "processTx env cfg gh number snap ts tx = Inr ts'" "tx_state_ok ts"
  shows "tx_state_ok ts'"
proof (cases "Tx_Sender tx")
  case (Inl e)
  then show ?thesis using assms by (simp add: processTx_def)
next
  case (Inr a)
  obtain ts1 skip where c: "customTx env cfg gh number snap tx a ts = Inr (ts1, skip)"
    and rest: "(if skip then Inr ts1 else if number > 1 then
        bind_res (deref_ptr snap) (\<lambda>s. Inr (ts1\<lparr>TS_extra := (TS_extra ts1)\<lparr>ModifyPredecessorVotes :=
          processPredecessorVoter (ModifyPredecessorVotes (TS_extra ts1)) (TS_balances ts1) tx a s\<rparr>\<rparr>))
      else Inr ts1) = Inr ts'"
    using assms(1) Inr by (auto simp: processTx_def bind_res_eq_Inr)
  have "tx_state_ok ts1" by (rule customTx_ok[OF c assms(2)])
  then show ?thesis
    using rest processPredecessorVoter_ok[of "ModifyPredecessorVotes (TS_extra ts1)" "TS_balances ts1"]
    by (auto simp: bind_res_eq_Inr tx_state_ok_def extra_ok_def split: if_splits)
qed

subsection \<open>Text of the side chain confirmation\<close>

lemma hex_digit_no_colon: "n < 16 \<Longrightarrow> hex_digit n \<noteq> CHR '':''"
  using fromHexChar_hex_digit[of n] by (auto simp: fromHexChar_def)

lemma EncodeToString_no_colon: "CHR '':'' \<notin> set (EncodeToString b)"
proof (induction b)
  case (Cons x b)
  have "unat x div 16 < 16" "unat x mod 16 < 16" using unat_byte_less[of x] by auto
  then have "hex_digit (unat x div 16) \<noteq> CHR '':''" "hex_digit (unat x mod 16) \<noteq> CHR '':''"
    by (simp_all add: hex_digit_no_colon)
  then show ?case using Cons by (metis EncodeToString.simps(2) set_ConsD)
qed simp

lemma Hash_Hex_no_colon: "CHR '':'' \<notin> set (Hash_Hex h)"
  using EncodeToString_no_colon[of "Hash_Bytes h"]
  by (auto simp: Hash_Hex_def HexToCP_def CustomHexPrefix_def dest: in_set_dropD)

lemma split_buildSCEventConfirmData:
  assumes "CHR '':'' \<notin> set li" "CHR '':'' \<notin> set ch"
  shows "split_on CHR '':'' (buildSCEventConfirmData h n t li ch) =
    [ufoPrefix, ufoVersion, ufoCategorySC, ufoEventConfirm, Hash_Hex h,
     dec_of_nat (unat (Uint64 n)), dec_of_nat (unat (Uint64 t)), li, ch]"
  unfolding buildSCEventConfirmData_def
  by (rule split_join) (use assms Hash_Hex_no_colon dec_of_nat_no_colon in \<open>auto simp: ufo_defs\<close>)

lemma length_buildSCEventConfirmData: "3 \<le> length (buildSCEventConfirmData h n t li ch)"
  by (simp add: buildSCEventConfirmData_def ufo_defs)

lemma Uint64_unat: "Uint64 (int (unat (Uint64 n))) = Uint64 n"
  by (simp add: Uint64_def)

subsection \<open>Properties\<close>

text \<open>
  C30.  What the side chain writes the main chain reads: a transaction with the data that
  \<open>buildSCEventConfirmData\<close> makes adds exactly one confirmation with the same side chain, block
  number and loop information in the sender's name, one notice confirmation if there is charging
  information, and a gas refund for the sender, and it is not skipped.
\<close>

theorem sc_confirm_roundtrip:
  assumes "CHR '':'' \<notin> set li" "CHR '':'' \<notin> set ch"
    and "Tx_Data tx = buildSCEventConfirmData h n t li ch"
  shows "customTx env cfg gh number snap tx a ts =
    Inr (ts\<lparr>TS_refund := gput (TS_refund ts) (Tx_Hash tx) \<lparr>RP_Sender = a, RP_GasPrice = Tx_GasPrice tx\<rparr>,
      TS_extra := (TS_extra ts)\<lparr>
        SideChainConfirmations := SideChainConfirmations (TS_extra ts) @
          [\<lparr>SCC_Hash = h, SCC_Coinbase = a, SCC_Number = Uint64 n, LoopInfo = split_on CHR ''#'' li\<rparr>],
        SideChainNoticeConfirmed := SideChainNoticeConfirmed (TS_extra ts) @ (if ch = [] then []
          else [\<lparr>SCC_Hash = h, SCC_Coinbase = a, SCC_Number = Uint64 n, LoopInfo = split_on CHR ''#'' ch\<rparr>])\<rparr>\<rparr>, False)"
proof -
  have "customTx env cfg gh number snap tx a ts = scTx snap tx a
      [ufoPrefix, ufoVersion, ufoCategorySC, ufoEventConfirm, Hash_Hex h,
       dec_of_nat (unat (Uint64 n)), dec_of_nat (unat (Uint64 t)), li, ch] ts"
    unfolding customTx_def assms(3) split_buildSCEventConfirmData[OF assms(1,2)] Let_def
    using length_buildSCEventConfirmData[of h n t li ch] by (simp add: ufo_defs)
  then show ?thesis
    by (simp add: scTx_def ufo_defs big_UnmarshalText_dec HexToHash_Hex Uint64_unat
        processSCEventConfirm_def processSCEventNoticeConfirm_def numeral_nat Let_def)
qed

text \<open>
  A vote without a recipient: a transaction that creates a contract has no recipient, and
  with the data \<open>ufo:1:event:vote\<close> from a sender above the minimal balance it makes
  \<open>processCustomTx\<close> dereference nil; the whole block then panics.
\<close>

lemma vote_without_recipient_panics:
  assumes "1 < Uint64 (Hdr_Number hdr)" "snapshotAt (Uint64 (Hdr_Number hdr) - 1) (ParentHash hdr) = Inr s"
    and "Tx_Data tx = ''ufo:1:event:vote''" "Tx_To tx = None" "Tx_Sender tx = Inr a"
    and "MinVB s = Some m" "m < st a"
  shows "processCustomTx env cfg gh snapshotAt x hdr st (tx # txs) rs = Inl PanicNil"
proof -
  have "split_on CHR '':'' ''ufo:1:event:vote'' = [''ufo'', ''1'', ''event'', ''vote'']" by simp
  then have "customTx env cfg gh (Uint64 (Hdr_Number hdr)) (Some s) tx a
      \<lparr>TS_extra = x, TS_balances = st, TS_refund = []\<rparr> = Inl PanicNil"
    using assms(3-7)
    by (simp add: customTx_def eventTx_def isVoteTx_def processEventVote_def candidateNeedPD_def ufo_defs)
  then show ?thesis
    using assms(1,2,5) by (simp add: processCustomTx_def processTx_def)
qed

text \<open>
  Proposals made from transactions are well formed, and paid for: \<open>processEventProposal\<close>
  either changes nothing, or adds one proposal of the sender, without declarations, whose
  validation time, miner share, rent length and rent fee are within their limits, and takes exactly
  its deposit and rent from the sender's balance, which covers them.
\<close>

lemma proposal_collected:
  assumes "processEventProposal ps info st tx a snap = Inr (ps', st')"
  shows "ps' = ps \<and> st' = st \<or>
    (\<exists>p. ps' = ps @ [p] \<and> proposal_ok p \<and> Prop_Hash p = Tx_Hash tx \<and> Proposer p = a
      \<and> st' = st(a := st a - (CurrentDeposit p + rent_of p)) \<and> CurrentDeposit p + rent_of p \<le> st a)"
  using assms by (cases rule: processEventProposal_cases) blast+

definition sample_tx :: "string \<Rightarrow> transaction" where
  "sample_tx d = \<lparr>Tx_Data = d, Tx_To = None, Tx_Value = 0, Tx_GasPrice = 2, Tx_Hash = 77, Tx_Sender = Inr 3\<rparr>"

theorem sc_confirm_roundtrip_witness:
  "\<exists>ts. customTx sample_env sample_config (\<lambda>_. None) 5 None
     (sample_tx (buildSCEventConfirmData 4 12 99 ''1#2'' [])) 3
     \<lparr>TS_extra = empty_extra, TS_balances = (\<lambda>_. 0), TS_refund = []\<rparr> = Inr (ts, False)
   \<and> SideChainConfirmations (TS_extra ts) =
       [\<lparr>SCC_Hash = 4, SCC_Coinbase = 3, SCC_Number = Uint64 12, LoopInfo = [''1'', ''2'']\<rparr>]"
  using sc_confirm_roundtrip[of "''1#2''" "[]" "sample_tx (buildSCEventConfirmData 4 12 99 ''1#2'' [])" 4 12 99
      sample_env sample_config "\<lambda>_. None" 5 None 3 "\<lparr>TS_extra = empty_extra, TS_balances = (\<lambda>_. 0), TS_refund = []\<rparr>"]
  by (simp add: sample_tx_def empty_extra_def)

lemma vote_without_recipient_panics_witness:
  "processCustomTx sample_env sample_config (\<lambda>_. None) (\<lambda>_ _. Inr sample_snapshot) empty_extra
     (sample_header\<lparr>Hdr_Number := 7\<rparr>) (\<lambda>_. 500) [sample_tx ''ufo:1:event:vote''] [] = Inl PanicNil"
  by (rule vote_without_recipient_panics[where s = sample_snapshot and a = 3 and m = 100])
    (simp_all add: sample_tx_def sample_defs Uint64_def)

lemma proposal_collected_witness:
  "\<exists>ps st. processEventProposal [] [''ufo'', ''1'', ''event'', ''proposal'', ''mrpt'', ''500''] (\<lambda>_. 10 ^ 23)
      (sample_tx []) 3 None = Inr (ps, st) \<and> (\<forall>p \<in> set ps. proposal_ok p)"
proof -
  have "\<exists>ps st. processEventProposal [] [''ufo'', ''1'', ''event'', ''proposal'', ''mrpt'', ''500''] (\<lambda>_. 10 ^ 23)
      (sample_tx []) 3 None = Inr (ps, st)"
    by (simp add: processEventProposal_def setProposalField_def Atoi_def unsigned_dec_def digit_value_def
        ufo_defs proposalTypeRentSideChain_def proposalTypeCandidateAdd_def defaultProposal_def Let_def)
  then show ?thesis using proposal_collected by fastforce
qed



end
