(* ===== verification/Rlp_Encode.thy ===== *)
theory Rlp_Encode
  imports Common_Types
begin

text \<open>
  The RLP encoder (\<open>rlp/encode.go\<close>).

  The encoder works on Go values by reflection: \<open>makeWriter\<close> builds a writer function for a type.
  A type, with the tags of the struct field it comes from, is an \<open>rtype\<close>, a value an \<open>rval\<close>, and
  \<open>makeWriter\<close> a recursive function from types to writers.  Writers append to an \<open>encbuf\<close>, which
  keeps the list headers apart from the string data, because the size of a list is known only at
  its end; \<open>toBytes\<close> merges the two.  The scratch buffer \<open>sizebuf\<close> holds no state between calls and
  is not modelled.  Types that implement \<open>Encoder\<close> themselves are not part of \<open>rtype\<close>.

  The theory shows that this is the usual recursive definition of RLP (\<open>enc\<close>).
\<close>

subsection \<open>Errors, types and values\<close>

datatype rlperr =
    EOL | ErrExpectedString | ErrExpectedList | ErrCanonInt | ErrCanonSize | ErrElemTooLarge
  | ErrValueTooLarge | ErrMoreThanOneValue | errNotInList | errNotAtEOL | errUintOverflow
  | EOF | ErrUnexpectedEOF
  | DecodeError rlperr           \<comment> \<open>\<open>wrapStreamError\<close>\<close>
  | TooFewElements | StringTooLong | StringTooShort  \<comment> \<open>other \<open>decodeError\<close>s\<close>
  | InvalidBool u64
  | NegativeBigInt
  | NotSerializable              \<comment> \<open>a value that is not of the type\<close>
  | RlpNotTerminating            \<comment> \<open>the loop does not end\<close>

datatype rtype =
    TRaw                         \<comment> \<open>\<open>RawValue\<close>\<close>
  | TBigPtr | TBig               \<comment> \<open>\<open>*big.Int\<close>, \<open>big.Int\<close>\<close>
  | TUint nat                    \<comment> \<open>an unsigned integer type by its bits\<close>
  | TBool | TString
  | TBytes                       \<comment> \<open>\<open>[]byte\<close>\<close>
  | TByteArray nat               \<comment> \<open>\<open>[n]byte\<close>\<close>
  | TSlice rtype bool            \<comment> \<open>a slice, with the tag \<open>tail\<close>\<close>
  | TArray nat rtype
  | TStruct "rtype list"         \<comment> \<open>the types of the exported fields that are not ignored\<close>
  | TPtr rtype bool              \<comment> \<open>a pointer, with the tag \<open>nil\<close>\<close>

datatype rval =
    VBytes "byte list" | VBig int | VUint u64 | VBool bool
  | VList "rval list"            \<comment> \<open>a slice, an array or the fields of a struct\<close>
  | VNil | VPtr rval

text \<open>The zero value of a type, \<open>reflect.Zero\<close>.\<close>

primrec zero_of :: "rtype \<Rightarrow> rval" where
  "zero_of TRaw = VBytes []"
| "zero_of TBigPtr = VNil"
| "zero_of TBig = VBig 0"
| "zero_of (TUint n) = VUint 0"
| "zero_of TBool = VBool False"
| "zero_of TString = VBytes []"
| "zero_of TBytes = VBytes []"
| "zero_of (TByteArray n) = VBytes (replicate n 0)"
| "zero_of (TSlice t b) = VList []"
| "zero_of (TArray n t) = VList (replicate n (zero_of t))"
| "zero_of (TStruct ts) = VList (map zero_of ts)"
| "zero_of (TPtr t b) = VNil"

subsection \<open>Integers and headers\<close>

definition putint :: "u64 \<Rightarrow> byte list" where
  "putint i =
     (if i < 2 ^ 8 then [ucast i]
      else if i < 2 ^ 16 then [ucast (drop_bit 8 i), ucast i]
      else if i < 2 ^ 24 then [ucast (drop_bit 16 i), ucast (drop_bit 8 i), ucast i]
      else if i < 2 ^ 32 then [ucast (drop_bit 24 i), ucast (drop_bit 16 i), ucast (drop_bit 8 i), ucast i]
      else if i < 2 ^ 40 then [ucast (drop_bit 32 i), ucast (drop_bit 24 i), ucast (drop_bit 16 i),
        ucast (drop_bit 8 i), ucast i]
      else if i < 2 ^ 48 then [ucast (drop_bit 40 i), ucast (drop_bit 32 i), ucast (drop_bit 24 i),
        ucast (drop_bit 16 i), ucast (drop_bit 8 i), ucast i]
      else if i < 2 ^ 56 then [ucast (drop_bit 48 i), ucast (drop_bit 40 i), ucast (drop_bit 32 i),
        ucast (drop_bit 24 i), ucast (drop_bit 16 i), ucast (drop_bit 8 i), ucast i]
      else [ucast (drop_bit 56 i), ucast (drop_bit 48 i), ucast (drop_bit 40 i), ucast (drop_bit 32 i),
        ucast (drop_bit 24 i), ucast (drop_bit 16 i), ucast (drop_bit 8 i), ucast i])"

function intsize :: "u64 \<Rightarrow> nat" where
  "intsize i = (if drop_bit 8 i = 0 then 1 else 1 + intsize (drop_bit 8 i))"
  by auto

lemma unat_drop_bit_8: "unat (drop_bit 8 (i :: u64)) = unat i div 256"
  by (simp only: unat_drop_bit_eq) (simp add: drop_bit_eq_div)

termination intsize
proof (relation "measure unat")
  fix i :: u64
  assume "drop_bit 8 i \<noteq> 0"
  then have "0 < unat i" by (cases "i = 0") (auto simp: unat_gt_0)
  then show "(drop_bit 8 i, i) \<in> measure unat" by (simp add: unat_drop_bit_8)
qed simp

declare intsize.simps [simp del]

definition headsize :: "u64 \<Rightarrow> nat" where
  "headsize sz = (if sz < 56 then 1 else 1 + intsize sz)"

definition puthead :: "byte \<Rightarrow> byte \<Rightarrow> u64 \<Rightarrow> byte list" where
  "puthead smalltag largetag sz =
     (if sz < 56 then [smalltag + ucast sz]
      else (let sizebytes = putint sz in (largetag + of_nat (length sizebytes)) # sizebytes))"

subsection \<open>The buffer\<close>

record encbuf =
  Str :: "byte list"
  Lheads :: "(nat \<times> nat) list"   \<comment> \<open>offset and size of the list headers\<close>
  Lhsize :: nat

definition reset_encbuf :: encbuf where
  "reset_encbuf = \<lparr>Str = [], Lheads = [], Lhsize = 0\<rparr>"

definition buf_append :: "encbuf \<Rightarrow> byte list \<Rightarrow> encbuf" where
  "buf_append w b = w\<lparr>Str := Str w @ b\<rparr>"

definition encodeStringHeader :: "nat \<Rightarrow> encbuf \<Rightarrow> encbuf" where
  "encodeStringHeader sz w =
     (if (of_nat sz :: u64) < 56 then buf_append w [0x80 + of_nat sz]
      else (let sizebytes = putint (of_nat sz)
            in buf_append w ((0xB7 + of_nat (length sizebytes)) # sizebytes)))"

definition encodeString :: "byte list \<Rightarrow> encbuf \<Rightarrow> encbuf" where
  "encodeString b w =
     (if length b = 1 \<and> b ! 0 \<le> 0x7F then buf_append w [b ! 0]
      else buf_append (encodeStringHeader (length b) w) b)"

definition buf_size :: "encbuf \<Rightarrow> nat" where
  "buf_size w = length (Str w) + Lhsize w"

text \<open>\<open>list\<close> returns a pointer to the new header: its index.\<close>

definition buf_list :: "encbuf \<Rightarrow> nat \<times> encbuf" where
  "buf_list w = (length (Lheads w), w\<lparr>Lheads := Lheads w @ [(length (Str w), Lhsize w)]\<rparr>)"

definition listEnd :: "nat \<Rightarrow> encbuf \<Rightarrow> encbuf" where
  "listEnd lh w =
     (let (offset, sz0) = Lheads w ! lh; sz = buf_size w - offset - sz0
      in w\<lparr>Lheads := (Lheads w)[lh := (offset, sz)],
           Lhsize := Lhsize w + (if (of_nat sz :: u64) < 56 then 1 else 1 + intsize (of_nat sz))\<rparr>)"

definition listhead_encode :: "nat \<Rightarrow> byte list" where
  "listhead_encode sz = puthead 0xC0 0xF7 (of_nat sz)"

fun mergeHeads :: "byte list \<Rightarrow> nat \<Rightarrow> (nat \<times> nat) list \<Rightarrow> byte list" where
  "mergeHeads str strpos [] = drop strpos str"
| "mergeHeads str strpos ((offset, sz) # heads) =
     take (offset - strpos) (drop strpos str) @ listhead_encode sz
       @ mergeHeads str (strpos + (offset - strpos)) heads"

definition toBytes :: "encbuf \<Rightarrow> byte list" where
  "toBytes w = mergeHeads (Str w) 0 (Lheads w)"

subsection \<open>Writers\<close>

type_synonym writer = "rval \<Rightarrow> encbuf \<Rightarrow> rlperr + encbuf"

text \<open>\<open>(*big.Int).Bytes\<close>: the absolute value, big-endian, without leading zeros.\<close>

fun nat_bytes :: "nat \<Rightarrow> byte list" where
  "nat_bytes n = (if n = 0 then [] else nat_bytes (n div 256) @ [of_nat (n mod 256)])"

declare nat_bytes.simps [simp del]

definition big_Bytes :: "int \<Rightarrow> byte list" where
  "big_Bytes i = nat_bytes (nat \<bar>i\<bar>)"

definition writeUint :: "u64 \<Rightarrow> encbuf \<Rightarrow> encbuf" where
  "writeUint i w =
     (if i = 0 then buf_append w [0x80]
      else if i < 128 then buf_append w [ucast i]
      else (let s = putint i in buf_append w ((0x80 + of_nat (length s)) # s)))"

definition writeBool :: "bool \<Rightarrow> encbuf \<Rightarrow> encbuf" where
  "writeBool b w = buf_append w [if b then 0x01 else 0x80]"

definition writeBigInt :: "int \<Rightarrow> encbuf \<Rightarrow> rlperr + encbuf" where
  "writeBigInt i w =
     (if i < 0 then Inl NegativeBigInt
      else if i = 0 then Inr (buf_append w [0x80])
      else Inr (encodeString (big_Bytes i) w))"

text \<open>The closures that \<open>makeSliceWriter\<close>, \<open>makeStructWriter\<close> and \<open>makePtrWriter\<close> return.\<close>

fun writeElems :: "writer \<Rightarrow> rval list \<Rightarrow> encbuf \<Rightarrow> rlperr + encbuf" where
  "writeElems wr [] w = Inr w"
| "writeElems wr (v # vs) w = bind_res (wr v w) (writeElems wr vs)"

definition sliceWriter :: "writer \<Rightarrow> bool \<Rightarrow> rval list \<Rightarrow> encbuf \<Rightarrow> rlperr + encbuf" where
  "sliceWriter wr tail vs w =
     (if tail then writeElems wr vs w
      else (let (lh, w1) = buf_list w
            in bind_res (writeElems wr vs w1) (\<lambda>w2. Inr (listEnd lh w2))))"

fun writeFields :: "writer list \<Rightarrow> rval list \<Rightarrow> encbuf \<Rightarrow> rlperr + encbuf" where
  "writeFields [] [] w = Inr w"
| "writeFields (wr # wrs) (v # vs) w = bind_res (wr v w) (writeFields wrs vs)"
| "writeFields _ _ w = Inl NotSerializable"

definition structWriter :: "writer list \<Rightarrow> rval list \<Rightarrow> encbuf \<Rightarrow> rlperr + encbuf" where
  "structWriter wrs vs w =
     (let (lh, w1) = buf_list w
      in bind_res (writeFields wrs vs w1) (\<lambda>w2. Inr (listEnd lh w2)))"

definition ptrNil :: "rtype \<Rightarrow> writer \<Rightarrow> encbuf \<Rightarrow> rlperr + encbuf" where
  "ptrNil t wr w =
     (case t of
        TByteArray n \<Rightarrow> Inr (buf_append w [0x80])
      | TStruct ts \<Rightarrow> (let (lh, w1) = buf_list w in Inr (listEnd lh w1))
      | TArray n t' \<Rightarrow> (let (lh, w1) = buf_list w in Inr (listEnd lh w1))
      | _ \<Rightarrow> wr (zero_of t) w)"

primrec makeWriter :: "rtype \<Rightarrow> writer" where
  "makeWriter TRaw = (\<lambda>v w. case v of VBytes b \<Rightarrow> Inr (buf_append w b) | _ \<Rightarrow> Inl NotSerializable)"
| "makeWriter TBigPtr = (\<lambda>v w. case v of VNil \<Rightarrow> Inr (buf_append w [0x80]) | VBig i \<Rightarrow> writeBigInt i w
     | _ \<Rightarrow> Inl NotSerializable)"
| "makeWriter TBig = (\<lambda>v w. case v of VBig i \<Rightarrow> writeBigInt i w | _ \<Rightarrow> Inl NotSerializable)"
| "makeWriter (TUint n) = (\<lambda>v w. case v of VUint i \<Rightarrow> Inr (writeUint i w) | _ \<Rightarrow> Inl NotSerializable)"
| "makeWriter TBool = (\<lambda>v w. case v of VBool b \<Rightarrow> Inr (writeBool b w) | _ \<Rightarrow> Inl NotSerializable)"
| "makeWriter TString = (\<lambda>v w. case v of VBytes b \<Rightarrow> Inr (encodeString b w) | _ \<Rightarrow> Inl NotSerializable)"
| "makeWriter TBytes = (\<lambda>v w. case v of VBytes b \<Rightarrow> Inr (encodeString b w) | _ \<Rightarrow> Inl NotSerializable)"
| "makeWriter (TByteArray n) = (\<lambda>v w. case v of VBytes b \<Rightarrow> Inr (encodeString b w) | _ \<Rightarrow> Inl NotSerializable)"
| "makeWriter (TSlice t tail) = (\<lambda>v w. case v of VList vs \<Rightarrow> sliceWriter (makeWriter t) tail vs w
     | _ \<Rightarrow> Inl NotSerializable)"
| "makeWriter (TArray n t) = (\<lambda>v w. case v of VList vs \<Rightarrow> sliceWriter (makeWriter t) False vs w
     | _ \<Rightarrow> Inl NotSerializable)"
| "makeWriter (TStruct ts) = (\<lambda>v w. case v of VList vs \<Rightarrow> structWriter (map makeWriter ts) vs w
     | _ \<Rightarrow> Inl NotSerializable)"
| "makeWriter (TPtr t nilOK) = (\<lambda>v w. case v of VNil \<Rightarrow> ptrNil t (makeWriter t) w
     | VPtr v' \<Rightarrow> makeWriter t v' w | _ \<Rightarrow> Inl NotSerializable)"

definition EncodeToBytes :: "rtype \<Rightarrow> rval \<Rightarrow> rlperr + byte list" where
  "EncodeToBytes t v = bind_res (makeWriter t v reset_encbuf) (\<lambda>w. Inr (toBytes w))"

subsection \<open>The reference\<close>

definition enc_string :: "byte list \<Rightarrow> byte list" where
  "enc_string b =
     (if length b = 1 \<and> b ! 0 \<le> 0x7F then b else puthead 0x80 0xB7 (of_nat (length b)) @ b)"

definition enc_list :: "byte list \<Rightarrow> byte list" where
  "enc_list payload = puthead 0xC0 0xF7 (of_nat (length payload)) @ payload"

fun concat_enc :: "(rval \<Rightarrow> rlperr + byte list) \<Rightarrow> rval list \<Rightarrow> rlperr + byte list" where
  "concat_enc e [] = Inr []"
| "concat_enc e (v # vs) = bind_res (e v) (\<lambda>b. bind_res (concat_enc e vs) (\<lambda>bs. Inr (b @ bs)))"

fun concat_fields :: "(rval \<Rightarrow> rlperr + byte list) list \<Rightarrow> rval list \<Rightarrow> rlperr + byte list" where
  "concat_fields [] [] = Inr []"
| "concat_fields (e # es) (v # vs) = bind_res (e v) (\<lambda>b. bind_res (concat_fields es vs) (\<lambda>bs. Inr (b @ bs)))"
| "concat_fields _ _ = Inl NotSerializable"

definition enc_nat :: "nat \<Rightarrow> byte list" where
  "enc_nat n = enc_string (nat_bytes n)"

definition enc_big :: "int \<Rightarrow> rlperr + byte list" where
  "enc_big i = (if i < 0 then Inl NegativeBigInt else Inr (enc_nat (nat i)))"

definition enc_nil :: "rtype \<Rightarrow> (rval \<Rightarrow> rlperr + byte list) \<Rightarrow> rlperr + byte list" where
  "enc_nil t e = (case t of TByteArray n \<Rightarrow> Inr [0x80] | TStruct ts \<Rightarrow> Inr [0xC0] | TArray n t' \<Rightarrow> Inr [0xC0]
     | _ \<Rightarrow> e (zero_of t))"

primrec enc :: "rtype \<Rightarrow> rval \<Rightarrow> rlperr + byte list" where
  "enc TRaw = (\<lambda>v. case v of VBytes b \<Rightarrow> Inr b | _ \<Rightarrow> Inl NotSerializable)"
| "enc TBigPtr = (\<lambda>v. case v of VNil \<Rightarrow> Inr [0x80] | VBig i \<Rightarrow> enc_big i | _ \<Rightarrow> Inl NotSerializable)"
| "enc TBig = (\<lambda>v. case v of VBig i \<Rightarrow> enc_big i | _ \<Rightarrow> Inl NotSerializable)"
| "enc (TUint n) = (\<lambda>v. case v of VUint i \<Rightarrow> Inr (enc_nat (unat i)) | _ \<Rightarrow> Inl NotSerializable)"
| "enc TBool = (\<lambda>v. case v of VBool b \<Rightarrow> Inr (enc_nat (if b then 1 else 0)) | _ \<Rightarrow> Inl NotSerializable)"
| "enc TString = (\<lambda>v. case v of VBytes b \<Rightarrow> Inr (enc_string b) | _ \<Rightarrow> Inl NotSerializable)"
| "enc TBytes = (\<lambda>v. case v of VBytes b \<Rightarrow> Inr (enc_string b) | _ \<Rightarrow> Inl NotSerializable)"
| "enc (TByteArray n) = (\<lambda>v. case v of VBytes b \<Rightarrow> Inr (enc_string b) | _ \<Rightarrow> Inl NotSerializable)"
| "enc (TSlice t tail) = (\<lambda>v. case v of VList vs \<Rightarrow> bind_res (concat_enc (enc t) vs)
     (\<lambda>p. Inr (if tail then p else enc_list p)) | _ \<Rightarrow> Inl NotSerializable)"
| "enc (TArray n t) = (\<lambda>v. case v of VList vs \<Rightarrow> bind_res (concat_enc (enc t) vs) (\<lambda>p. Inr (enc_list p))
     | _ \<Rightarrow> Inl NotSerializable)"
| "enc (TStruct ts) = (\<lambda>v. case v of VList vs \<Rightarrow> bind_res (concat_fields (map enc ts) vs) (\<lambda>p. Inr (enc_list p))
     | _ \<Rightarrow> Inl NotSerializable)"
| "enc (TPtr t nilOK) = (\<lambda>v. case v of VNil \<Rightarrow> enc_nil t (enc t) | VPtr v' \<Rightarrow> enc t v' | _ \<Rightarrow> Inl NotSerializable)"

subsection \<open>Integers\<close>

lemma byte_of_shift: "ucast (drop_bit k (i :: u64)) = (of_nat (unat i div 2 ^ k mod 256) :: byte)"
proof -
  have "unat (ucast (drop_bit k i) :: byte) = unat i div 2 ^ k mod 2 ^ 8"
    by (simp only: unsigned_ucast_eq unat_drop_bit_eq) (simp add: drop_bit_eq_div take_bit_eq_mod)
  then show ?thesis by (simp add: word_unat_eq_iff unat_of_nat)
qed

lemma byte_of_low: "ucast (i :: u64) = (of_nat (unat i mod 256) :: byte)"
  using byte_of_shift[of 0 i] by simp

lemma intsize_bounds:
  "1 \<le> intsize i \<and> unat i < 256 ^ intsize i \<and> (i \<noteq> 0 \<longrightarrow> 256 ^ (intsize i - 1) \<le> unat i)"
proof (induction i rule: intsize.induct)
  case (1 i)
  show ?case
  proof (cases "drop_bit 8 i = 0")
    case True
    then have "unat i div 256 = 0" using unat_drop_bit_8[of i] by simp
    moreover have "i \<noteq> 0 \<longrightarrow> 1 \<le> unat i" by (simp add: Suc_le_eq unat_gt_0)
    ultimately show ?thesis using True by (simp add: intsize.simps[of i])
  next
    case False
    let ?k = "intsize (drop_bit 8 i)"
    have IH: "1 \<le> ?k" "unat i div 256 < 256 ^ ?k" "256 ^ (?k - 1) \<le> unat i div 256"
      using 1[OF False] False by (simp_all add: unat_drop_bit_8)
    have "unat i < 256 ^ Suc ?k" using IH(2) by (simp add: div_less_iff_less_mult mult.commute)
    moreover have "256 ^ ?k \<le> unat i"
    proof -
      have "256 * 256 ^ (?k - 1) \<le> 256 * (unat i div 256)" using IH(3) by simp
      also have "\<dots> \<le> unat i" by simp
      finally show ?thesis using IH(1) by (cases ?k) auto
    qed
    ultimately show ?thesis using False by (simp add: intsize.simps[of i])
  qed
qed

lemma intsize_unique:
  assumes "256 ^ k \<le> unat i" "unat i < 256 ^ Suc k"
  shows "intsize i = Suc k"
proof -
  have "i \<noteq> 0" using assms(1) by auto
  then have b: "unat i < 256 ^ intsize i" "256 ^ (intsize i - 1) \<le> unat i" "1 \<le> intsize i"
    using intsize_bounds[of i] by auto
  have "(256 :: nat) ^ k < 256 ^ intsize i" "(256 :: nat) ^ (intsize i - 1) < 256 ^ Suc k"
    using assms b by linarith+
  then have "k < intsize i" "intsize i - 1 < Suc k" by (simp_all only: power_strict_increasing_iff numeral_One)
  then show ?thesis by linarith
qed

lemma nat_bytes_0 [simp]: "nat_bytes 0 = []"
  by (simp add: nat_bytes.simps)

lemma nat_bytes_be: "n < 256 ^ Suc k \<Longrightarrow> 256 ^ k \<le> n \<Longrightarrow> nat_bytes n = be_bytes (Suc k) n"
proof (induction k arbitrary: n)
  case 0
  then show ?case by (simp add: nat_bytes.simps[of n])
next
  case (Suc k)
  have "n div 256 < 256 ^ Suc k" using Suc.prems(1) by (simp add: less_mult_imp_div_less mult.commute)
  moreover have "256 ^ k \<le> n div 256" using Suc.prems(2) by (simp add: less_eq_div_iff_mult_less_eq mult.commute)
  ultimately have "nat_bytes (n div 256) = be_bytes (Suc k) (n div 256)" by (rule Suc.IH)
  moreover have "(0 :: nat) < 256 ^ Suc k" by simp
  then have "n \<noteq> 0" using Suc.prems(2) by linarith
  ultimately show ?case by (simp add: nat_bytes.simps[of n])
qed

lemma be_nat_nat_bytes [simp]: "be_nat (nat_bytes n) = n"
proof (induction n rule: nat_bytes.induct)
  case (1 n)
  then show ?case by (cases "n = 0") (simp_all add: nat_bytes.simps[of n] be_nat_def[of "[]"] unat_of_nat_byte)
qed

lemma nat_bytes_hd: "n \<noteq> 0 \<Longrightarrow> nat_bytes n \<noteq> [] \<and> nat_bytes n ! 0 \<noteq> 0"
proof (induction n rule: nat_bytes.induct)
  case (1 n)
  show ?case
  proof (cases "n div 256 = 0")
    case True
    then have "n < 256" by simp
    then have "(of_nat n :: byte) \<noteq> 0" using 1(2) unat_of_nat_byte[of n] by (metis unat_0)
    then show ?thesis using 1(2) True \<open>n < 256\<close> by (simp add: nat_bytes.simps[of n])
  next
    case False
    then show ?thesis using 1 by (simp add: nat_bytes.simps[of n] nth_append)
  qed
qed

lemma be_bytes_digits: "be_bytes n x = map (\<lambda>j. of_nat (x div 256 ^ j mod 256)) (rev [0..<n])"
proof (induction n arbitrary: x)
  case (Suc n)
  have "rev [0..<Suc n] = map Suc (rev [0..<n]) @ [0]"
    by (simp add: upt_conv_Cons rev_map map_Suc_upt[symmetric] del: upt_Suc)
  moreover have "x div 256 div 256 ^ j = x div 256 ^ Suc j" for j by (simp only: power_Suc div_mult2_eq)
  ultimately show ?case by (simp add: Suc.IH o_def del: upt_Suc power_Suc)
qed simp

lemma word_less_pow:
  assumes "k < 64"
  shows "(i :: u64) < 2 ^ k \<longleftrightarrow> unat i < 2 ^ k"
proof -
  have "(2 :: nat) ^ k < 2 ^ 64" using assms by (rule power_strict_increasing) simp
  then have "unat (of_nat (2 ^ k) :: u64) = 2 ^ k" by (rule unat_of_nat_u64)
  then have "unat ((2 :: u64) ^ k) = 2 ^ k" by (simp only: of_nat_power of_nat_numeral)
  then show ?thesis by (simp only: word_less_nat_alt)
qed

lemma putint_be:
  "putint i =
    (if unat i < 2 ^ 8 then be_bytes 1 (unat i) else if unat i < 2 ^ 16 then be_bytes 2 (unat i)
     else if unat i < 2 ^ 24 then be_bytes 3 (unat i) else if unat i < 2 ^ 32 then be_bytes 4 (unat i)
     else if unat i < 2 ^ 40 then be_bytes 5 (unat i) else if unat i < 2 ^ 48 then be_bytes 6 (unat i)
     else if unat i < 2 ^ 56 then be_bytes 7 (unat i) else be_bytes 8 (unat i))"
proof -
  have l: "[0..<1] = [0]" "[0..<2] = [0, 1]" "[0..<3] = [0, 1, 2]" "[0..<4] = [0, 1, 2, 3]"
    "[0..<5] = [0, 1, 2, 3, 4]" "[0..<6] = [0, 1, 2, 3, 4, 5]" "[0..<7] = [0, 1, 2, 3, 4, 5, 6]"
    "[0..<8] = [0, 1, 2, 3, 4, 5, 6, 7]"
    by (simp_all add: upt_rec)
  have p: "(2 :: nat) ^ 8 = 256 ^ 1" "(2 :: nat) ^ 16 = 256 ^ 2" "(2 :: nat) ^ 24 = 256 ^ 3" "(2 :: nat) ^ 32 = 256 ^ 4"
    "(2 :: nat) ^ 40 = 256 ^ 5" "(2 :: nat) ^ 48 = 256 ^ 6" "(2 :: nat) ^ 56 = 256 ^ 7" by simp_all
  have w: "(i < 2 ^ 8) = (unat i < 2 ^ 8)" "(i < 2 ^ 16) = (unat i < 2 ^ 16)" "(i < 2 ^ 24) = (unat i < 2 ^ 24)"
    "(i < 2 ^ 32) = (unat i < 2 ^ 32)" "(i < 2 ^ 40) = (unat i < 2 ^ 40)" "(i < 2 ^ 48) = (unat i < 2 ^ 48)"
    "(i < 2 ^ 56) = (unat i < 2 ^ 56)" by (rule word_less_pow, simp)+
  have z: "of_nat (unat i mod 256) = (of_nat (unat i div 256 ^ 0 mod 256) :: byte)" by simp
  show ?thesis
    unfolding putint_def byte_of_shift byte_of_low[of i] w be_bytes_digits l rev.simps append.simps list.map p z
    by simp
qed

lemma intsize_cases:
  "intsize i =
    (if unat i < 2 ^ 8 then 1 else if unat i < 2 ^ 16 then 2 else if unat i < 2 ^ 24 then 3
     else if unat i < 2 ^ 32 then 4 else if unat i < 2 ^ 40 then 5 else if unat i < 2 ^ 48 then 6
     else if unat i < 2 ^ 56 then 7 else 8)"
proof (cases "unat i < 2 ^ 8")
  case True
  then have "drop_bit 8 i = 0" using unat_drop_bit_8[of i] by (simp add: word_unat_eq_iff)
  then show ?thesis using True by (simp add: intsize.simps[of i])
next
  case False
  have "unat i < 2 ^ 64" using unsigned_less[of i] by simp
  then show ?thesis
    using False intsize_unique[of 1 i] intsize_unique[of 2 i] intsize_unique[of 3 i] intsize_unique[of 4 i]
      intsize_unique[of 5 i] intsize_unique[of 6 i] intsize_unique[of 7 i] by simp
qed

lemma putint_eq: "putint i = be_bytes (intsize i) (unat i)"
  unfolding putint_be intsize_cases by simp

lemma length_putint [simp]: "length (putint i) = intsize i"
  by (simp add: putint_eq)

lemma be_nat_putint [simp]: "be_nat (putint i) = unat i"
  using intsize_bounds[of i] by (simp add: putint_eq be_nat_be_bytes)

lemma putint_nat_bytes: "i \<noteq> 0 \<Longrightarrow> putint i = nat_bytes (unat i)"
  using intsize_bounds[of i] nat_bytes_be[of "unat i" "intsize i - 1"] by (simp add: putint_eq)

lemma intsize_le_8: "1 \<le> intsize i \<and> intsize i \<le> 8"
  by (simp add: intsize_cases)

lemma length_puthead: "length (puthead s l sz) = headsize sz"
  by (simp add: puthead_def headsize_def Let_def)

lemma byte_of_u64_nat: "ucast (of_nat n :: u64) = (of_nat n :: byte)"
  by (simp only: word_unat_eq_iff unsigned_ucast_eq unat_of_nat take_bit_eq_mod)
    (simp add: mod_mod_cancel)

subsection \<open>The buffer implements the reference\<close>

text \<open>
  \<open>render off s H\<close>: the bytes of the string data \<open>s\<close>, which begins at offset \<open>off\<close>, with the
  headers \<open>H\<close> put in; \<open>heads_ok off s H\<close>: their offsets are in order and within \<open>s\<close>.
\<close>

fun render :: "nat \<Rightarrow> byte list \<Rightarrow> (nat \<times> nat) list \<Rightarrow> byte list" where
  "render off s [] = s"
| "render off s ((o', z) # H) = take (o' - off) s @ listhead_encode z @ render o' (drop (o' - off) s) H"

fun heads_ok :: "nat \<Rightarrow> byte list \<Rightarrow> (nat \<times> nat) list \<Rightarrow> bool" where
  "heads_ok off s [] = True"
| "heads_ok off s ((o', z) # H) \<longleftrightarrow> off \<le> o' \<and> o' - off \<le> length s \<and> heads_ok o' (drop (o' - off) s) H"

definition heads_size :: "(nat \<times> nat) list \<Rightarrow> nat" where
  "heads_size H = sum_list (map (\<lambda>h. headsize (of_nat (snd h))) H)"

lemma heads_size_simps [simp]:
  "heads_size [] = 0" "heads_size (h # H) = headsize (of_nat (snd h)) + heads_size H"
  "heads_size (H @ H') = heads_size H + heads_size H'"
  by (simp_all add: heads_size_def)

lemma length_render: "heads_ok off s H \<Longrightarrow> length (render off s H) = length s + heads_size H"
  by (induction off s H rule: render.induct) (auto simp: listhead_encode_def length_puthead)

lemma render_append:
  "heads_ok off s1 H1 \<Longrightarrow> heads_ok (off + length s1) s2 H2 \<Longrightarrow>
    render off (s1 @ s2) (H1 @ H2) = render off s1 H1 @ render (off + length s1) s2 H2
    \<and> heads_ok off (s1 @ s2) (H1 @ H2)"
proof (induction off s1 H1 rule: render.induct)
  case (1 off s)
  then show ?case by (cases H2) (auto simp: diff_diff_eq)
next
  case (2 off s o' z H)
  then show ?case by (auto simp: add.commute)
qed

lemma mergeHeads_render:
  "heads_ok off (drop off str) H \<Longrightarrow> off \<le> length str \<Longrightarrow> mergeHeads str off H = render off (drop off str) H"
  by (induction str off H rule: mergeHeads.induct) auto

text \<open>\<open>w'\<close> is \<open>w\<close> with the encoding \<open>b\<close> written behind it.\<close>

definition wrote :: "encbuf \<Rightarrow> byte list \<Rightarrow> encbuf \<Rightarrow> bool" where
  "wrote w b w' \<longleftrightarrow> (\<exists>s H. Str w' = Str w @ s \<and> Lheads w' = Lheads w @ H \<and> Lhsize w' = Lhsize w + heads_size H
     \<and> heads_ok (length (Str w)) s H \<and> render (length (Str w)) s H = b)"

lemma wrote_refl: "wrote w [] w"
  by (simp add: wrote_def)

lemma wrote_append: "wrote w b (buf_append w b)"
  by (auto simp: wrote_def buf_append_def)

lemma wrote_trans:
  assumes "wrote w b w1" "wrote w1 c w2"
  shows "wrote w (b @ c) w2"
proof -
  obtain s H where 1: "Str w1 = Str w @ s" "Lheads w1 = Lheads w @ H" "Lhsize w1 = Lhsize w + heads_size H"
    "heads_ok (length (Str w)) s H" "render (length (Str w)) s H = b" using assms(1) unfolding wrote_def by blast
  obtain t J where 2: "Str w2 = Str w1 @ t" "Lheads w2 = Lheads w1 @ J" "Lhsize w2 = Lhsize w1 + heads_size J"
    "heads_ok (length (Str w1)) t J" "render (length (Str w1)) t J = c" using assms(2) unfolding wrote_def by blast
  have "heads_ok (length (Str w) + length s) t J" using 2(4) 1(1) by simp
  from render_append[OF 1(4) this] 1 2 show ?thesis
    unfolding wrote_def by (intro exI[of _ "s @ t"] exI[of _ "H @ J"]) simp
qed

lemma wrote_list:
  assumes "buf_list w = (lh, w1)" "wrote w1 p w2"
  shows "wrote w (enc_list p) (listEnd lh w2)"
proof -
  have w1: "lh = length (Lheads w)" "w1 = w\<lparr>Lheads := Lheads w @ [(length (Str w), Lhsize w)]\<rparr>"
    using assms(1) by (auto simp: buf_list_def)
  obtain s H where 2: "Str w2 = Str w @ s" "Lheads w2 = Lheads w @ (length (Str w), Lhsize w) # H"
    "Lhsize w2 = Lhsize w + heads_size H" "heads_ok (length (Str w)) s H" "render (length (Str w)) s H = p"
    using assms(2) by (auto simp: wrote_def w1)
  have len: "length p = length s + heads_size H" using length_render[OF 2(4)] 2(5) by simp
  have "listEnd lh w2 = w2\<lparr>Lheads := Lheads w @ (length (Str w), length p) # H,
      Lhsize := Lhsize w2 + headsize (of_nat (length p))\<rparr>"
    by (simp add: listEnd_def w1(1) 2(1-3) buf_size_def len headsize_def nth_append list_update_append)
  then show ?thesis
    unfolding wrote_def
    by (intro exI[of _ s] exI[of _ "(length (Str w), length p) # H"])
      (simp add: 2 enc_list_def listhead_encode_def)
qed

lemma toBytes_wrote: "wrote reset_encbuf b w \<Longrightarrow> toBytes w = b"
  using mergeHeads_render[of 0 "Str w" "Lheads w"] by (auto simp: wrote_def reset_encbuf_def toBytes_def)

definition outcome :: "rlperr + encbuf \<Rightarrow> encbuf \<Rightarrow> rlperr + byte list \<Rightarrow> bool" where
  "outcome r w e \<longleftrightarrow> (case e of Inl x \<Rightarrow> r = Inl x | Inr b \<Rightarrow> \<exists>w'. r = Inr w' \<and> wrote w b w')"

definition writes :: "writer \<Rightarrow> (rval \<Rightarrow> rlperr + byte list) \<Rightarrow> bool" where
  "writes wr e \<longleftrightarrow> (\<forall>v w. outcome (wr v w) w (e v))"

lemma outcome_Inr: "wrote w b w' \<Longrightarrow> outcome (Inr w') w (Inr b)"
  by (simp add: outcome_def)

lemma outcome_Inl [simp]: "outcome (Inl e) w (Inl e)"
  by (simp add: outcome_def)

lemma outcome_bind:
  assumes "outcome r w e" "\<And>b w'. e = Inr b \<Longrightarrow> wrote w b w' \<Longrightarrow> outcome (f w') w (g b)"
  shows "outcome (bind_res r f) w (bind_res e g)"
proof (cases e)
  case (Inl x)
  then show ?thesis using assms(1) by (simp add: outcome_def)
next
  case (Inr b)
  then obtain w' where "r = Inr w'" "wrote w b w'" using assms(1) by (auto simp: outcome_def)
  then show ?thesis using assms(2)[OF Inr] Inr by simp
qed

lemma outcome_after:
  assumes "wrote w b w1" "outcome r w1 e"
  shows "outcome r w (bind_res e (\<lambda>c. Inr (b @ c)))"
  using assms by (cases e) (auto simp: outcome_def intro: wrote_trans)

lemma writeElems_outcome: "writes wr e \<Longrightarrow> outcome (writeElems wr vs w) w (concat_enc e vs)"
proof (induction vs arbitrary: w)
  case Nil
  then show ?case by (simp add: outcome_Inr wrote_refl)
next
  case (Cons v vs)
  show ?case
    unfolding writeElems.simps concat_enc.simps
  proof (rule outcome_bind)
    show "outcome (wr v w) w (e v)" using Cons.prems by (simp add: writes_def)
    fix b w' assume "wrote w b w'"
    then show "outcome (writeElems wr vs w') w (bind_res (concat_enc e vs) (\<lambda>bs. Inr (b @ bs)))"
      using Cons by (intro outcome_after) auto
  qed
qed

lemma writeFields_outcome:
  "list_all2 writes wrs es \<Longrightarrow> outcome (writeFields wrs vs w) w (concat_fields es vs)"
proof (induction wrs es arbitrary: vs w rule: list_all2_induct)
  case Nil
  then show ?case by (cases vs) (simp_all add: outcome_Inr wrote_refl)
next
  case (Cons wr wrs e es)
  show ?case
  proof (cases vs)
    case (Cons v vs')
    show ?thesis
      unfolding Cons writeFields.simps concat_fields.simps
    proof (rule outcome_bind)
      show "outcome (wr v w) w (e v)" using \<open>writes wr e\<close> by (simp add: writes_def)
      fix b w' assume "wrote w b w'"
      then show "outcome (writeFields wrs vs' w') w (bind_res (concat_fields es vs') (\<lambda>bs. Inr (b @ bs)))"
        by (rule outcome_after) (rule Cons.IH)
    qed
  qed simp
qed

lemma outcome_list:
  assumes "buf_list w = (lh, w1)" "outcome r w1 e"
  shows "outcome (bind_res r (\<lambda>w2. Inr (listEnd lh w2))) w (bind_res e (\<lambda>p. Inr (enc_list p)))"
  using assms by (cases e) (auto simp: outcome_def intro: wrote_list)

lemma sliceWriter_outcome:
  assumes "writes wr e"
  shows "outcome (sliceWriter wr tail vs w) w
    (bind_res (concat_enc e vs) (\<lambda>p. Inr (if tail then p else enc_list p)))"
proof (cases tail)
  case True
  then show ?thesis using writeElems_outcome[OF assms, of vs w]
    by (cases "concat_enc e vs") (simp_all add: sliceWriter_def)
next
  case False
  obtain lh w1 where l: "buf_list w = (lh, w1)" by (cases "buf_list w")
  show ?thesis using outcome_list[OF l writeElems_outcome[OF assms, of vs w1]] False l
    by (simp add: sliceWriter_def)
qed

lemma structWriter_outcome:
  assumes "list_all2 writes wrs es"
  shows "outcome (structWriter wrs vs w) w (bind_res (concat_fields es vs) (\<lambda>p. Inr (enc_list p)))"
proof -
  obtain lh w1 where l: "buf_list w = (lh, w1)" by (cases "buf_list w")
  show ?thesis using outcome_list[OF l writeFields_outcome[OF assms, of vs w1]] l
    by (simp add: structWriter_def)
qed

lemma wrote_empty_list: "buf_list w = (lh, w1) \<Longrightarrow> wrote w [0xC0] (listEnd lh w1)"
  using wrote_list[of w lh w1 "[]" w1] wrote_refl[of w1] by (simp add: enc_list_def puthead_def)

lemma encodeString_wrote: "wrote w (enc_string b) (encodeString b w)"
proof (cases "length b = 1 \<and> b ! 0 \<le> 0x7F")
  case True
  then have "[b ! 0] = b" by (cases b) auto
  then show ?thesis using True wrote_append[of w b] by (simp add: encodeString_def enc_string_def)
next
  case False
  have "encodeStringHeader (length b) w = buf_append w (puthead 0x80 0xB7 (of_nat (length b)))"
    by (simp add: encodeStringHeader_def puthead_def byte_of_u64_nat)
  then have "encodeString b w = buf_append (buf_append w (puthead 0x80 0xB7 (of_nat (length b)))) b"
    by (simp only: encodeString_def False if_False)
  moreover have "enc_string b = puthead 0x80 0xB7 (of_nat (length b)) @ b"
    by (simp only: enc_string_def False if_False)
  ultimately show ?thesis
    using wrote_trans[OF wrote_append wrote_append] by (simp only:)
qed

lemma writeUint_wrote: "wrote w (enc_nat (unat i)) (writeUint i w)"
proof -
  consider "i = 0" | "i \<noteq> 0" "i < 128" | "128 \<le> i" by force
  then show ?thesis
  proof cases
    case 1
    then show ?thesis using wrote_append[of w "[0x80]"]
      by (simp add: writeUint_def enc_nat_def enc_string_def puthead_def)
  next
    case 2
    then have u: "unat i < 128" "unat i \<noteq> 0" by (simp_all add: word_less_nat_alt unat_gt_0)
    then have b: "nat_bytes (unat i) = [ucast i]" by (simp add: nat_bytes.simps[of "unat i"])
    have "unat (ucast i :: byte) = unat i" using u by (simp only: unsigned_ucast_eq take_bit_eq_mod) simp
    then have "(ucast i :: byte) \<le> 0x7F" using u by (simp add: word_le_nat_alt)
    then show ?thesis using wrote_append[of w "[ucast i]"] 2 b by (simp add: writeUint_def enc_nat_def enc_string_def)
  next
    case 3
    then have i: "i \<noteq> 0" "\<not> i < 128" "128 \<le> unat i" by (auto simp: word_le_nat_alt word_less_nat_alt)
    have nb: "nat_bytes (unat i) = putint i" using putint_nat_bytes[OF i(1)] by simp
    have neg: "\<not> (length (putint i) = 1 \<and> putint i ! 0 \<le> 0x7F)"
    proof
      assume a: "length (putint i) = 1 \<and> putint i ! 0 \<le> 0x7F"
      then obtain x where x: "putint i = [x]" by (cases "putint i") auto
      then have "unat i = unat x" using be_nat_putint[of i] by (simp add: be_nat_def)
      then show False using a x i(3) by (simp add: word_le_nat_alt)
    qed
    have e: "enc_string (putint i) = puthead 0x80 0xB7 (of_nat (intsize i)) @ putint i"
      using neg by (simp only: enc_string_def if_False length_putint)
    have "(of_nat (intsize i) :: u64) < 56 \<and> ucast (of_nat (intsize i) :: u64) = (of_nat (intsize i) :: byte)"
      using intsize_le_8[of i] byte_of_u64_nat[of "intsize i"] unat_of_nat_u64[of "intsize i"]
      by (simp add: word_less_nat_alt)
    then show ?thesis
      using i wrote_append[of w "(0x80 + of_nat (intsize i)) # putint i"]
      by (simp add: writeUint_def enc_nat_def nb e puthead_def)
  qed
qed

lemma writeBool_wrote: "wrote w (enc_nat (if b then 1 else 0)) (writeBool b w)"
  using wrote_append[of w "[1]"] wrote_append[of w "[0x80]"]
  by (simp add: writeBool_def enc_nat_def enc_string_def nat_bytes.simps[of "Suc 0"] puthead_def)

lemma writeBigInt_outcome: "outcome (writeBigInt i w) w (enc_big i)"
proof -
  have "wrote w [0x80] (buf_append w [0x80])" by (rule wrote_append)
  then show ?thesis
    using encodeString_wrote[of w "nat_bytes (nat i)"]
    by (auto simp: writeBigInt_def enc_big_def enc_nat_def big_Bytes_def enc_string_def[of "[]"] puthead_def
        intro: outcome_Inr)
qed

lemma ptrNil_outcome:
  assumes "writes wr e"
  shows "outcome (ptrNil t wr w) w (enc_nil t e)"
proof -
  obtain lh w1 where l: "buf_list w = (lh, w1)" by (cases "buf_list w")
  have "wrote w [0xC0] (listEnd lh w1)" using l by (rule wrote_empty_list)
  moreover have "outcome (wr v w) w (e v)" for v using assms by (simp add: writes_def)
  ultimately show ?thesis
    using wrote_append[of w "[0x80]"] by (auto simp: ptrNil_def enc_nil_def l outcome_Inr split: rtype.split)
qed

lemma makeWriter_writes: "writes (makeWriter t) (enc t)"
proof (induction t)
  case (TStruct ts)
  then have "list_all2 writes (map makeWriter ts) (map enc ts)"
    by (simp add: list_all2_conv_all_nth)
  then show ?case using structWriter_outcome by (auto simp: writes_def split: rval.split)
next
  case (TPtr t b)
  then show ?case using ptrNil_outcome[OF TPtr] by (auto simp: writes_def split: rval.split)
next
  case (TSlice t b)
  then show ?case using sliceWriter_outcome[OF TSlice] by (auto simp: writes_def split: rval.split)
next
  case (TArray n t)
  then show ?case using sliceWriter_outcome[OF TArray, of False] by (auto simp: writes_def split: rval.split)
qed (auto simp: writes_def wrote_append encodeString_wrote writeUint_wrote
    writeBool_wrote[of _ True, simplified] writeBool_wrote[of _ False, simplified] writeBigInt_outcome intro!: outcome_Inr split: rval.split)

lemma EncodeToBytes_eq: "EncodeToBytes t v = enc t v"
proof (cases "enc t v")
  case (Inl x)
  then show ?thesis using makeWriter_writes[of t]
    by (auto simp: EncodeToBytes_def writes_def outcome_def split: sum.splits)
next
  case (Inr b)
  then obtain w where "makeWriter t v reset_encbuf = Inr w" "wrote reset_encbuf b w"
    using makeWriter_writes[of t] by (fastforce simp: writes_def outcome_def split: sum.splits)
  then show ?thesis using Inr by (simp add: EncodeToBytes_def toBytes_wrote)
qed

end
