(* ===== verification/Go_State.thy ===== *)
theory Go_State
  imports Prelude
begin

text \<open>
  Methods that change their receiver and may fail: a function from the state before to the result
  or error and the state after, which is there in both cases.
\<close>

type_synonym ('s, 'e, 'a) sm = "'s \<Rightarrow> ('e + 'a) \<times> 's"

definition return_sm :: "'a \<Rightarrow> ('s, 'e, 'a) sm" where
  "return_sm x s = (Inr x, s)"

definition fail_sm :: "'e \<Rightarrow> ('s, 'e, 'a) sm" where
  "fail_sm e s = (Inl e, s)"

definition bind_sm :: "('s, 'e, 'a) sm \<Rightarrow> ('a \<Rightarrow> ('s, 'e, 'b) sm) \<Rightarrow> ('s, 'e, 'b) sm" where
  "bind_sm m f s = (case m s of (Inl e, s') \<Rightarrow> (Inl e, s') | (Inr x, s') \<Rightarrow> f x s')"

lemma return_sm_simp [simp]: "return_sm x s = (Inr x, s)"
  by (simp add: return_sm_def)

lemma fail_sm_simp [simp]: "fail_sm e s = (Inl e, s)"
  by (simp add: fail_sm_def)

lemma bind_sm_eq_Inr [res_simps]:
  "bind_sm m f s = (Inr y, s') \<longleftrightarrow> (\<exists>x t. m s = (Inr x, t) \<and> f x t = (Inr y, s'))"
  by (auto simp: bind_sm_def split: prod.splits sum.splits)

lemma bind_sm_eq_Inl [res_simps]:
  "bind_sm m f s = (Inl e, s') \<longleftrightarrow> m s = (Inl e, s') \<or> (\<exists>x t. m s = (Inr x, t) \<and> f x t = (Inl e, s'))"
  by (auto simp: bind_sm_def split: prod.splits sum.splits)

lemma bind_sm_Inr: "m s = (Inr x, t) \<Longrightarrow> bind_sm m f s = f x t"
  by (simp add: bind_sm_def)

lemma bind_sm_Inl: "m s = (Inl e, t) \<Longrightarrow> bind_sm m f s = (Inl e, t)"
  by (simp add: bind_sm_def)

text \<open>Changing the error, not the state.\<close>

definition map_error :: "('e \<Rightarrow> 'f) \<Rightarrow> ('s, 'e, 'a) sm \<Rightarrow> ('s, 'f, 'a) sm" where
  "map_error g m s = (case m s of (Inl e, s') \<Rightarrow> (Inl (g e), s') | (Inr x, s') \<Rightarrow> (Inr x, s'))"

lemma map_error_eq_Inr [res_simps]: "map_error g m s = (Inr y, s') \<longleftrightarrow> m s = (Inr y, s')"
  by (auto simp: map_error_def split: prod.splits sum.splits)

lemma map_error_eq_Inl [res_simps]: "map_error g m s = (Inl f, s') \<longleftrightarrow> (\<exists>e. m s = (Inl e, s') \<and> f = g e)"
  by (auto simp: map_error_def split: prod.splits sum.splits)

text \<open>A step that does not touch the state, and the state itself.\<close>

definition lift_sm :: "'e + 'a \<Rightarrow> ('s, 'e, 'a) sm" where
  "lift_sm r s = (r, s)"

definition get_sm :: "('s, 'e, 's) sm" where
  "get_sm s = (Inr s, s)"

definition modify_sm :: "('s \<Rightarrow> 's) \<Rightarrow> ('s, 'e, unit) sm" where
  "modify_sm f s = (Inr (), f s)"

lemma lift_sm_eq [res_simps]: "lift_sm r s = (x, s') \<longleftrightarrow> r = x \<and> s' = s"
  by (auto simp: lift_sm_def)

lemma get_sm_eq [res_simps]: "get_sm s = (x, s') \<longleftrightarrow> x = Inr s \<and> s' = s"
  by (auto simp: get_sm_def)

lemma modify_sm_eq [res_simps]: "modify_sm f s = (x, s') \<longleftrightarrow> x = Inr () \<and> s' = f s"
  by (auto simp: modify_sm_def)

text \<open>
  A step keeps a property of the state if the property holds afterwards whether the step succeeds or
  fails.
\<close>

definition keeps_sm :: "('s \<Rightarrow> bool) \<Rightarrow> ('s, 'e, 'a) sm \<Rightarrow> bool" where
  "keeps_sm I m \<longleftrightarrow> (\<forall>s r s'. I s \<longrightarrow> m s = (r, s') \<longrightarrow> I s')"

lemma keeps_smI: "(\<And>s r s'. I s \<Longrightarrow> m s = (r, s') \<Longrightarrow> I s') \<Longrightarrow> keeps_sm I m"
  by (simp add: keeps_sm_def)

lemma keeps_smD: "keeps_sm I m \<Longrightarrow> I s \<Longrightarrow> m s = (r, s') \<Longrightarrow> I s'"
  by (simp add: keeps_sm_def)

lemma keeps_sm_bind: "keeps_sm I m \<Longrightarrow> (\<And>x. keeps_sm I (f x)) \<Longrightarrow> keeps_sm I (bind_sm m f)"
  by (rule keeps_smI) (auto simp: bind_sm_def split: prod.splits sum.splits dest: keeps_smD)

lemma keeps_sm_basic [intro]: "keeps_sm I (lift_sm r)" "keeps_sm I (return_sm x)" "keeps_sm I (fail_sm e)"
    "keeps_sm I get_sm"
  by (simp_all add: keeps_sm_def lift_sm_def return_sm_def fail_sm_def get_sm_def)

lemma keeps_sm_modify: "(\<And>s. I s \<Longrightarrow> I (f s)) \<Longrightarrow> keeps_sm I (modify_sm f)"
  by (simp add: keeps_sm_def modify_sm_def)

end
