(* ===== verification/Rlp_Decode.thy ===== *)
theory Rlp_Decode
  imports Rlp_Encode Go_State
begin

text \<open>
  The RLP decoder (\<open>rlp/decode.go\<close>): the \<open>Stream\<close>, its reading operations, and the decoders that
  \<open>makeDecoder\<close> builds for a type.  The input is a \<open>bytes.Reader\<close>, as in \<open>DecodeBytes\<close>: the list of
  the bytes not read yet.  The scratch buffer \<open>uintbuf\<close> holds no state between calls and is not
  modelled.  A kind of \<open>-1\<close> is \<open>None\<close>.

  Decoders return the decoded value, as they store into a zero value.  The loop over the elements
  of a slice ends only when an element decoder meets the end of the list, so it has fuel; the
  theory shows that the length of the input is enough fuel, except for \<open>[1]byte\<close> elements.

  The theory shows that decoding inverts encoding, and that the decoder accepts nothing but the
  encoding of the value it returns.
\<close>

subsection \<open>The stream\<close>

datatype rkind = KByte | KString | KList

record stream =
  R :: "byte list"                \<comment> \<open>what the reader has left\<close>
  remaining :: u64
  limited :: bool
  kind :: "rkind option"
  ssize :: u64
  byteval :: byte
  kinderr :: "rlperr option"
  stack :: "(u64 \<times> u64) list"     \<comment> \<open>\<open>listpos\<close>: position and size, innermost first\<close>

type_synonym 'a reader = "(stream, rlperr, 'a) sm"

text \<open>\<open>NewStream\<close> on a \<open>bytes.Reader\<close>, which always sets a limit.\<close>

definition NewStream :: "byte list \<Rightarrow> u64 \<Rightarrow> stream" where
  "NewStream r inputLimit =
     \<lparr>R = r, remaining = (if inputLimit > 0 then inputLimit else of_nat (length r)), limited = True,
      kind = None, ssize = 0, byteval = 0, kinderr = None, stack = []\<rparr>"

definition NewListStream :: "byte list \<Rightarrow> u64 \<Rightarrow> stream" where
  "NewListStream r len = (NewStream r len)\<lparr>kind := Some KList, ssize := len\<rparr>"

definition willRead :: "u64 \<Rightarrow> unit reader" where
  "willRead n s =
     (let s0 = s\<lparr>kind := None\<rparr>;
          limit = (\<lambda>s. if limited s
            then (if n > remaining s then (Inl ErrValueTooLarge, s)
                  else (Inr (), s\<lparr>remaining := remaining s - n\<rparr>))
            else (Inr (), s))
      in case stack s0 of
           [] \<Rightarrow> limit s0
         | (pos, sz) # st \<Rightarrow>
             if n > sz - pos then (Inl ErrElemTooLarge, s0)
             else limit (s0\<lparr>stack := (pos + n, sz) # st\<rparr>))"

definition readByte :: "byte reader" where
  "readByte = bind_sm (willRead 1) (\<lambda>_ s.
     case R s of [] \<Rightarrow> (Inl ErrUnexpectedEOF, s) | b # bs \<Rightarrow> (Inr b, s\<lparr>R := bs\<rparr>))"

definition readFull :: "u64 \<Rightarrow> byte list reader" where
  "readFull n = bind_sm (willRead n) (\<lambda>_ s.
     if unat n \<le> length (R s) then (Inr (take (unat n) (R s)), s\<lparr>R := drop (unat n) (R s)\<rparr>)
     else (Inl ErrUnexpectedEOF, s\<lparr>R := []\<rparr>))"

text \<open>The callers pass at most eight bytes.\<close>

definition readUint :: "nat \<Rightarrow> u64 reader" where
  "readUint n =
     (if n = 0 then (\<lambda>s. (Inr 0, s\<lparr>kind := None\<rparr>))
      else if n = 1 then bind_sm readByte (\<lambda>b. return_sm (ucast b))
      else bind_sm (readFull (of_nat n)) (\<lambda>bs.
        if bs ! 0 = 0 then fail_sm ErrCanonSize else return_sm (of_nat (be_nat bs))))"

text \<open>The kind and size are returned also with an error.\<close>

definition readLong :: "rkind \<Rightarrow> nat \<Rightarrow> stream \<Rightarrow> (rkind \<times> u64 \<times> rlperr option) \<times> stream" where
  "readLong k n s =
     (case readUint n s of
        (Inl e, s') \<Rightarrow> ((k, 0, Some e), s')
      | (Inr z, s') \<Rightarrow> ((k, z, if z < 56 then Some ErrCanonSize else None), s'))"

definition readKind :: "stream \<Rightarrow> (rkind \<times> u64 \<times> rlperr option) \<times> stream" where
  "readKind s =
     (case readByte s of
        (Inl err, s') \<Rightarrow>
          ((KByte, 0, Some (if stack s' = [] \<and> (err = ErrUnexpectedEOF \<or> err = ErrValueTooLarge) then EOF else err)), s')
      | (Inr b, s1) \<Rightarrow>
          let s' = s1\<lparr>byteval := 0\<rparr> in
          if b < 0x80 then ((KByte, 0, None), s'\<lparr>byteval := b\<rparr>)
          else if b < 0xB8 then ((KString, ucast (b - 0x80), None), s')
          else if b < 0xC0 then readLong KString (unat (b - 0xB7)) s'
          else if b < 0xF8 then ((KList, ucast (b - 0xC0), None), s')
          else readLong KList (unat (b - 0xF7)) s')"

definition checkFits :: "u64 \<Rightarrow> stream \<Rightarrow> rlperr option" where
  "checkFits z s =
     (case stack s of
        [] \<Rightarrow> if limited s \<and> z > remaining s then Some ErrValueTooLarge else None
      | (pos, sz) # _ \<Rightarrow> if z > sz - pos then Some ErrElemTooLarge else None)"

definition atEnd :: "stream \<Rightarrow> bool" where
  "atEnd s = (case stack s of [] \<Rightarrow> False | (pos, sz) # _ \<Rightarrow> pos = sz)"

definition Kind :: "(rkind \<times> u64) reader" where
  "Kind s =
     (case kind s of
        Some k \<Rightarrow> ((case kinderr s of None \<Rightarrow> Inr (k, ssize s) | Some e \<Rightarrow> Inl e), s)
      | None \<Rightarrow>
          let s0 = s\<lparr>kinderr := None\<rparr> in
          if atEnd s0 then (Inl EOL, s0)
          else let ((k, z, err), s1) = readKind s0;
                   err' = (case err of None \<Rightarrow> checkFits z s1 | Some e \<Rightarrow> Some e)
               in ((case err' of None \<Rightarrow> Inr (k, z) | Some e \<Rightarrow> Inl e),
                   s1\<lparr>kind := Some k, ssize := z, kinderr := err'\<rparr>))"

definition rearm :: "unit reader" where
  "rearm s = (Inr (), s\<lparr>kind := None\<rparr>)"

definition Bytes :: "byte list reader" where
  "Bytes = bind_sm Kind (\<lambda>(k, z). case k of
       KByte \<Rightarrow> bind_sm rearm (\<lambda>_ s. (Inr [byteval s], s))
     | KString \<Rightarrow> bind_sm (readFull z) (\<lambda>b. if z = 1 \<and> b ! 0 < 128 then fail_sm ErrCanonSize else return_sm b)
     | KList \<Rightarrow> fail_sm ErrExpectedString)"

definition Raw :: "byte list reader" where
  "Raw = bind_sm Kind (\<lambda>(k, z). case k of
       KByte \<Rightarrow> bind_sm rearm (\<lambda>_ s. (Inr [byteval s], s))
     | KString \<Rightarrow> bind_sm (readFull z) (\<lambda>b. return_sm (puthead 0x80 0xB7 z @ b))
     | KList \<Rightarrow> bind_sm (readFull z) (\<lambda>b. return_sm (puthead 0xC0 0xF7 z @ b)))"

definition uint_stream :: "nat \<Rightarrow> u64 reader" where
  "uint_stream maxbits = bind_sm Kind (\<lambda>(k, z). case k of
       KByte \<Rightarrow> (\<lambda>s. if byteval s = 0 then (Inl ErrCanonInt, s) else (Inr (ucast (byteval s)), s\<lparr>kind := None\<rparr>))
     | KString \<Rightarrow>
         if z > of_nat (maxbits div 8) then fail_sm errUintOverflow
         else bind_sm (map_error (\<lambda>e. if e = ErrCanonSize then ErrCanonInt else e) (readUint (unat z)))
           (\<lambda>v. if z > 0 \<and> v < 128 then fail_sm ErrCanonSize else return_sm v)
     | KList \<Rightarrow> fail_sm ErrExpectedString)"

definition Bool :: "bool reader" where
  "Bool = bind_sm (uint_stream 8) (\<lambda>num.
     if num = 0 then return_sm False else if num = 1 then return_sm True else fail_sm (InvalidBool num))"

definition List :: "u64 reader" where
  "List = bind_sm Kind (\<lambda>(k, z) s.
     if k \<noteq> KList then (Inl ErrExpectedList, s)
     else (Inr z, s\<lparr>stack := (0, z) # stack s, kind := None, ssize := 0\<rparr>))"

definition ListEnd :: "unit reader" where
  "ListEnd s =
     (case stack s of
        [] \<Rightarrow> (Inl errNotInList, s)
      | (pos, sz) # st \<Rightarrow>
          if pos \<noteq> sz then (Inl errNotAtEOL, s)
          else (Inr (), s\<lparr>stack := (case st of [] \<Rightarrow> [] | (p, z) # st' \<Rightarrow> (p + sz, z) # st'),
                         kind := None, ssize := 0\<rparr>))"

subsection \<open>Decoders\<close>

definition wrapStreamError :: "rlperr \<Rightarrow> rlperr" where
  "wrapStreamError err =
     (if err \<in> {ErrCanonInt, ErrCanonSize, ErrExpectedList, ErrExpectedString, errUintOverflow, errNotAtEOL}
      then DecodeError err else err)"

definition decodeRawValue :: "rval reader" where
  "decodeRawValue = bind_sm Raw (\<lambda>r. return_sm (VBytes r))"

definition decodeUint :: "nat \<Rightarrow> rval reader" where
  "decodeUint bits = bind_sm (map_error wrapStreamError (uint_stream bits)) (\<lambda>num. return_sm (VUint num))"

definition decodeBool :: "rval reader" where
  "decodeBool = bind_sm (map_error wrapStreamError Bool) (\<lambda>b. return_sm (VBool b))"

definition decodeString :: "rval reader" where
  "decodeString = bind_sm (map_error wrapStreamError Bytes) (\<lambda>b. return_sm (VBytes b))"

definition decodeBigInt :: "rval reader" where
  "decodeBigInt = bind_sm (map_error wrapStreamError Bytes) (\<lambda>b.
     if length b > 0 \<and> b ! 0 = 0 then fail_sm (wrapStreamError ErrCanonInt)
     else return_sm (VBig (int (be_nat b))))"

primrec decodeSliceElems :: "nat \<Rightarrow> rval reader \<Rightarrow> rval list reader" where
  "decodeSliceElems 0 elemdec = fail_sm RlpNotTerminating"
| "decodeSliceElems (Suc n) elemdec = (\<lambda>s.
     case elemdec s of
       (Inl err, s') \<Rightarrow> if err = EOL then (Inr [], s') else (Inl err, s')
     | (Inr v, s') \<Rightarrow> bind_sm (decodeSliceElems n elemdec) (\<lambda>vs. return_sm (v # vs)) s')"

definition decodeListSlice :: "nat \<Rightarrow> rval reader \<Rightarrow> rval reader" where
  "decodeListSlice fuel elemdec = bind_sm (map_error wrapStreamError List) (\<lambda>sz.
     if sz = 0 then bind_sm ListEnd (\<lambda>_. return_sm (VList []))
     else bind_sm (decodeSliceElems fuel elemdec) (\<lambda>vs. bind_sm ListEnd (\<lambda>_. return_sm (VList vs))))"

primrec decodeArrayElems :: "nat \<Rightarrow> rval reader \<Rightarrow> rval list reader" where
  "decodeArrayElems 0 elemdec = return_sm []"
| "decodeArrayElems (Suc n) elemdec =
     bind_sm (map_error (\<lambda>e. if e = EOL then TooFewElements else e) elemdec)
       (\<lambda>v. bind_sm (decodeArrayElems n elemdec) (\<lambda>vs. return_sm (v # vs)))"

definition decodeListArray :: "nat \<Rightarrow> rval reader \<Rightarrow> rval reader" where
  "decodeListArray vlen elemdec = bind_sm (map_error wrapStreamError List) (\<lambda>_.
     bind_sm (decodeArrayElems vlen elemdec) (\<lambda>vs.
     bind_sm (map_error wrapStreamError ListEnd) (\<lambda>_. return_sm (VList vs))))"

text \<open>On a single byte the error of \<open>Uint\<close> is dropped.\<close>

definition decodeByteArray :: "nat \<Rightarrow> rval reader" where
  "decodeByteArray vlen = bind_sm Kind (\<lambda>(k, z). case k of
       KByte \<Rightarrow>
         if vlen = 0 then fail_sm StringTooLong
         else if vlen > 1 then fail_sm StringTooShort
         else (\<lambda>s. case uint_stream 64 s of
                 (Inl _, s') \<Rightarrow> (Inr (VBytes [0]), s') | (Inr bv, s') \<Rightarrow> (Inr (VBytes [ucast bv]), s'))
     | KString \<Rightarrow>
         if of_nat vlen < z then fail_sm StringTooLong
         else if of_nat vlen > z then fail_sm StringTooShort
         else bind_sm (readFull z) (\<lambda>b.
           if z = 1 \<and> b ! 0 < 128 then fail_sm (wrapStreamError ErrCanonSize) else return_sm (VBytes b))
     | KList \<Rightarrow> fail_sm (wrapStreamError ErrExpectedString))"

fun decodeFields :: "rval reader list \<Rightarrow> rval list reader" where
  "decodeFields [] = return_sm []"
| "decodeFields (dec # decs) =
     bind_sm (map_error (\<lambda>e. if e = EOL then TooFewElements else e) dec)
       (\<lambda>v. bind_sm (decodeFields decs) (\<lambda>vs. return_sm (v # vs)))"

definition structDecoder :: "rval reader list \<Rightarrow> rval reader" where
  "structDecoder decs = bind_sm (map_error wrapStreamError List) (\<lambda>_.
     bind_sm (decodeFields decs) (\<lambda>vs.
     bind_sm (map_error wrapStreamError ListEnd) (\<lambda>_. return_sm (VList vs))))"

definition ptrDecoder :: "rval reader \<Rightarrow> rval reader" where
  "ptrDecoder dec = bind_sm dec (\<lambda>v. return_sm (VPtr v))"

definition optionalPtrDecoder :: "rval reader \<Rightarrow> rval reader" where
  "optionalPtrDecoder dec s =
     (case Kind s of
        (Inl err, s') \<Rightarrow> (Inl err, s'\<lparr>kind := None\<rparr>)
      | (Inr (k, z), s') \<Rightarrow>
          if z = 0 \<and> k \<noteq> KByte then (Inr VNil, s'\<lparr>kind := None\<rparr>) else ptrDecoder dec s')"

primrec makeDecoder :: "nat \<Rightarrow> rtype \<Rightarrow> rval reader" where
  "makeDecoder N TRaw = decodeRawValue"
| "makeDecoder N TBigPtr = decodeBigInt"
| "makeDecoder N TBig = decodeBigInt"
| "makeDecoder N (TUint bits) = decodeUint bits"
| "makeDecoder N TBool = decodeBool"
| "makeDecoder N TString = decodeString"
| "makeDecoder N TBytes = decodeString"
| "makeDecoder N (TByteArray n) = decodeByteArray n"
| "makeDecoder N (TSlice t tail) =
     (if tail then bind_sm (decodeSliceElems N (makeDecoder N t)) (\<lambda>vs. return_sm (VList vs))
      else decodeListSlice N (makeDecoder N t))"
| "makeDecoder N (TArray n t) = decodeListArray n (makeDecoder N t)"
| "makeDecoder N (TStruct ts) = structDecoder (map (makeDecoder N) ts)"
| "makeDecoder N (TPtr t nilOK) =
     (if nilOK then optionalPtrDecoder (makeDecoder N t) else ptrDecoder (makeDecoder N t))"

definition DecodeBytes :: "rtype \<Rightarrow> byte list \<Rightarrow> rlperr + rval" where
  "DecodeBytes t b =
     (case makeDecoder (length b + 1) t (NewStream b (of_nat (length b))) of
        (Inl err, s) \<Rightarrow> Inl err
      | (Inr v, s) \<Rightarrow> if length (R s) > 0 then Inl ErrMoreThanOneValue else Inr v)"

subsection \<open>Reading bytes\<close>

text \<open>
  \<open>consumed s b s'\<close>: between \<open>s\<close> and \<open>s'\<close> exactly the bytes \<open>b\<close> were read, within the limit and
  the innermost list.  \<open>room s n\<close>: there is room for \<open>n\<close> more.
\<close>

definition good :: "stream \<Rightarrow> bool" where
  "good s \<longleftrightarrow> (\<forall>(p, z) \<in> set (stack s). p \<le> z)"

definition consumed :: "stream \<Rightarrow> byte list \<Rightarrow> stream \<Rightarrow> bool" where
  "consumed s b s' \<longleftrightarrow> R s = b @ R s' \<and> limited s' = limited s
     \<and> (limited s \<longrightarrow> unat (remaining s) = length b + unat (remaining s'))
     \<and> (case stack s of [] \<Rightarrow> stack s' = []
        | (p, z) # st \<Rightarrow> \<exists>p'. stack s' = (p', z) # st \<and> unat p' = unat p + length b \<and> p' \<le> z)"

definition room :: "stream \<Rightarrow> nat \<Rightarrow> bool" where
  "room s n \<longleftrightarrow> (limited s \<longrightarrow> n \<le> unat (remaining s))
     \<and> (case stack s of [] \<Rightarrow> True | (p, z) # _ \<Rightarrow> unat p + n \<le> unat z)"

lemma consumed_good: "consumed s b s' \<Longrightarrow> good s \<Longrightarrow> good s'"
  by (auto simp: consumed_def good_def split: list.splits)

lemma consumed_refl: "good s \<Longrightarrow> consumed s [] s"
  by (auto simp: consumed_def good_def split: list.splits)

lemma consumed_trans: "consumed s b t \<Longrightarrow> consumed t c u \<Longrightarrow> consumed s (b @ c) u"
  by (auto simp: consumed_def split: list.splits)

lemma consumed_room: "consumed s b t \<Longrightarrow> room s (length b + n) \<Longrightarrow> room t n"
  by (auto simp: consumed_def room_def split: list.splits)

lemma consumed_upd [simp]:
  "consumed s b (t\<lparr>kind := k\<rparr>) = consumed s b t" "consumed s b (t\<lparr>ssize := z\<rparr>) = consumed s b t"
  "consumed s b (t\<lparr>byteval := v\<rparr>) = consumed s b t" "consumed s b (t\<lparr>kinderr := e\<rparr>) = consumed s b t"
  "consumed (s\<lparr>kind := k\<rparr>) b t = consumed s b t" "consumed (s\<lparr>kinderr := e\<rparr>) b t = consumed s b t"
  "consumed (s\<lparr>byteval := v\<rparr>) b t = consumed s b t"
  by (simp_all add: consumed_def split: list.split)

lemma good_upd [simp]:
  "good (s\<lparr>kind := k\<rparr>) = good s" "good (s\<lparr>kinderr := e\<rparr>) = good s" "good (s\<lparr>byteval := v\<rparr>) = good s"
  "good (s\<lparr>ssize := z\<rparr>) = good s"
  by (simp_all add: good_def)

lemma room_upd [simp]:
  "room (s\<lparr>kind := k\<rparr>) n = room s n" "room (s\<lparr>kinderr := e\<rparr>) n = room s n" "room (s\<lparr>byteval := v\<rparr>) n = room s n"
  "room (s\<lparr>ssize := z\<rparr>) n = room s n"
  by (simp_all add: room_def)

lemma u64_fits: "p \<le> z \<Longrightarrow> n \<le> z - p \<longleftrightarrow> unat p + unat n \<le> unat (z :: u64)"
  by (auto simp: word_le_nat_alt unat_sub)

lemma unat_plus_fits: "unat (p :: u64) + unat n \<le> unat (z :: u64) \<Longrightarrow> unat (p + n) = unat p + unat n"
proof -
  assume a: "unat p + unat n \<le> unat z"
  have "unat p + unat n < 2 ^ LENGTH(64)" by (rule order.strict_trans1[OF a unsigned_less])
  then show ?thesis by (simp only: unat_word_ariths(1) mod_less)
qed

lemma willRead_ok:
  assumes "good s" "willRead n s = (Inr u, s')"
  shows "room s (unat n) \<and> kind s' = None \<and> R s' = R s
    \<and> (\<forall>b rest. R s = b @ rest \<longrightarrow> length b = unat n \<longrightarrow> consumed s b (s'\<lparr>R := rest\<rparr>))"
proof (cases "stack s")
  case Nil
  then show ?thesis
    using assms(2) by (auto simp: willRead_def Let_def room_def consumed_def word_le_nat_alt unat_sub not_less split: if_splits)
next
  case (Cons pz st)
  obtain p z where pz: "pz = (p, z)" by (cases pz)
  have pz_le: "p \<le> z" using assms(1) Cons pz by (simp add: good_def)
  have n: "n \<le> z - p" using assms(2) Cons pz by (auto simp: willRead_def Let_def split: if_splits)
  then have f: "unat p + unat n \<le> unat z" using u64_fits[OF pz_le] by simp
  show ?thesis
    using assms(2) Cons pz n f unat_plus_fits[OF f]
    by (auto simp: willRead_def Let_def room_def consumed_def word_le_nat_alt unat_sub not_less split: if_splits)
qed

lemma willRead_room:
  assumes "good s" "room s (unat n)"
  shows "\<exists>s'. willRead n s = (Inr (), s')"
proof (cases "stack s")
  case Nil
  then show ?thesis using assms(2) by (auto simp: willRead_def Let_def room_def word_less_nat_alt)
next
  case (Cons pz st)
  obtain p z where pz: "pz = (p, z)" by (cases pz)
  have "p \<le> z" using assms(1) Cons pz by (simp add: good_def)
  then have "n \<le> z - p" using assms(2) Cons pz by (simp add: u64_fits room_def)
  then have "\<not> z - p < n" by simp
  moreover have "limited s \<Longrightarrow> \<not> remaining s < n" using assms(2) by (simp add: room_def word_less_nat_alt)
  ultimately show ?thesis using Cons pz by (auto simp: willRead_def Let_def)
qed

lemma readByte_ok:
  assumes "good s" "readByte s = (Inr b, s')"
  shows "consumed s [b] s' \<and> kind s' = None"
proof -
  obtain t bs where t: "willRead 1 s = (Inr (), t)" "R t = b # bs" "s' = t\<lparr>R := bs\<rparr>"
    using assms(2) by (fastforce simp: readByte_def res_simps neq_Nil_conv split: list.splits)
  then show ?thesis using willRead_ok[OF assms(1) t(1)] by simp
qed

lemma readByte_room:
  assumes "good s" "R s = b # rest" "room s 1"
  shows "\<exists>s'. readByte s = (Inr b, s') \<and> consumed s [b] s' \<and> kind s' = None"
proof -
  obtain t where t: "willRead 1 s = (Inr (), t)" using willRead_room[OF assms(1), of 1] assms(3) by auto
  then have "readByte s = (Inr b, t\<lparr>R := rest\<rparr>)"
    using willRead_ok[OF assms(1) t] assms(2) by (simp add: readByte_def bind_sm_def)
  then show ?thesis using readByte_ok[OF assms(1)] by blast
qed

lemma readFull_ok:
  assumes "good s" "readFull n s = (Inr b, s')"
  shows "consumed s b s' \<and> kind s' = None \<and> length b = unat n"
proof -
  obtain t where t: "willRead n s = (Inr (), t)" "unat n \<le> length (R t)" "b = take (unat n) (R t)"
    "s' = t\<lparr>R := drop (unat n) (R t)\<rparr>"
    using assms(2) by (auto simp: readFull_def res_simps split: if_splits)
  then show ?thesis using willRead_ok[OF assms(1) t(1)] by simp
qed

lemma readFull_room:
  assumes "good s" "R s = b @ rest" "room s (unat n)" "length b = unat n"
  shows "\<exists>s'. readFull n s = (Inr b, s') \<and> consumed s b s' \<and> kind s' = None"
proof -
  obtain t where t: "willRead n s = (Inr (), t)" using willRead_room[OF assms(1,3)] by auto
  then have "readFull n s = (Inr b, t\<lparr>R := rest\<rparr>)"
    using willRead_ok[OF assms(1) t] assms(2,4) by (simp add: readFull_def bind_sm_def)
  then show ?thesis using readFull_ok[OF assms(1)] by blast
qed

subsection \<open>Headers\<close>

fun headbytes :: "rkind \<Rightarrow> u64 \<Rightarrow> byte list" where
  "headbytes KString z = puthead 0x80 0xB7 z"
| "headbytes KList z = puthead 0xC0 0xF7 z"
| "headbytes KByte z = []"

definition fits :: "stream \<Rightarrow> u64 \<Rightarrow> bool" where
  "fits s z \<longleftrightarrow> (case stack s of [] \<Rightarrow> limited s \<longrightarrow> z \<le> remaining s | (p, sz) # _ \<Rightarrow> unat p + unat z \<le> unat sz)"

lemma fits_upd [simp]:
  "fits (s\<lparr>kind := k\<rparr>) n = fits s n" "fits (s\<lparr>kinderr := e\<rparr>) n = fits s n" "fits (s\<lparr>ssize := z\<rparr>) n = fits s n"
  by (simp_all add: fits_def split: list.split)

lemma checkFits_None: "good s \<Longrightarrow> checkFits z s = None \<longleftrightarrow> fits s z"
  by (auto simp: checkFits_def fits_def good_def not_less u64_fits[symmetric] split: list.splits)

lemma room_fits: "room s (unat z) \<Longrightarrow> fits s z"
  by (auto simp: room_def fits_def word_le_nat_alt split: list.splits)

lemma nat_bytes_be_nat: "bs = [] \<or> bs ! 0 \<noteq> 0 \<Longrightarrow> nat_bytes (be_nat bs) = bs"
proof (induction bs rule: rev_induct)
  case Nil
  then show ?case by (simp add: be_nat_def)
next
  case (snoc b bs)
  have d: "(be_nat bs * 256 + unat b) div 256 = be_nat bs" "(be_nat bs * 256 + unat b) mod 256 = unat b"
    using unat_byte_less[of b] by simp_all
  have "be_nat bs * 256 + unat b \<noteq> 0"
  proof (cases bs)
    case Nil
    then show ?thesis using snoc.prems by (simp add: unat_eq_0)
  next
    case (Cons c cs)
    then have "nat_bytes (be_nat bs) = bs" using snoc by (auto simp: nth_append)
    then show ?thesis using Cons by (cases "be_nat bs = 0") auto
  qed
  moreover have "nat_bytes (be_nat bs) = bs" using snoc by (cases bs) (auto simp: nth_append)
  ultimately show ?case using d by (simp add: nat_bytes.simps[of "be_nat bs * 256 + unat b"])
qed

lemma be_nat_u64:
  assumes "length bs \<le> 8"
  shows "unat (of_nat (be_nat bs) :: u64) = be_nat bs"
proof -
  have "be_nat bs < 256 ^ length bs" by (rule be_nat_less)
  also have "(256 :: nat) ^ length bs \<le> 256 ^ 8" using assms by (rule power_increasing) simp
  also have "(256 :: nat) ^ 8 = 2 ^ 64" by simp
  finally show ?thesis by (rule unat_of_nat_u64)
qed

lemma unat_ucast_byte [simp]: "unat (ucast (b :: byte) :: u64) = unat b"
  by (simp add: unsigned_ucast_eq take_bit_nat_eq_self unsigned_less[THEN order.strict_trans2])

lemma ucast_ucast_byte [simp]: "ucast (ucast (b :: byte) :: u64) = b"
  using unat_byte_less[of b] by (simp only: word_unat_eq_iff unsigned_ucast_eq[of "ucast b :: u64"] unat_ucast_byte) (simp add: take_bit_eq_mod)

lemma readUint_ok:
  assumes "good s" "readUint n s = (Inr v, s')" "1 \<le> n" "n \<le> 8"
  shows "\<exists>bs. consumed s bs s' \<and> kind s' = None \<and> length bs = n \<and> unat v = be_nat bs \<and> (n = 1 \<or> bs ! 0 \<noteq> 0)"
proof (cases "n = 1")
  case True
  then obtain b where b: "readByte s = (Inr b, s')" "v = ucast b"
    using assms(2) by (auto simp: readUint_def res_simps)
  then show ?thesis using readByte_ok[OF assms(1) b(1)] True by (intro exI[of _ "[b]"]) (simp add: be_nat_def)
next
  case False
  then obtain bs where b: "readFull (of_nat n) s = (Inr bs, s')" "bs ! 0 \<noteq> 0" "v = of_nat (be_nat bs)"
    using assms(2,3) by (auto simp: readUint_def res_simps split: if_splits)
  moreover have "unat (of_nat n :: u64) = n" using assms(4) by (intro unat_of_nat_u64) simp
  ultimately show ?thesis using readFull_ok[OF assms(1) b(1)] assms(4) be_nat_u64[of bs] by auto
qed

lemma readUint_room:
  assumes "good s" "R s = bs @ rest" "room s (length bs)" "1 \<le> length bs" "length bs \<le> 8"
    and "length bs = 1 \<or> bs ! 0 \<noteq> 0"
  shows "\<exists>s'. readUint (length bs) s = (Inr (of_nat (be_nat bs)), s') \<and> consumed s bs s' \<and> kind s' = None"
proof (cases "length bs = 1")
  case True
  then obtain b where b: "bs = [b]" by (cases bs) auto
  then obtain s' where "readByte s = (Inr b, s')" "consumed s [b] s'" "kind s' = None"
    using readByte_room[of s b rest] assms by auto
  then show ?thesis by (simp add: b readUint_def bind_sm_def be_nat_def)
next
  case False
  have n: "unat (of_nat (length bs) :: u64) = length bs" using assms(5) by (intro unat_of_nat_u64) simp
  then obtain s' where "readFull (of_nat (length bs)) s = (Inr bs, s')" "consumed s bs s'" "kind s' = None"
    using readFull_room[of s bs rest "of_nat (length bs)"] assms by auto
  then show ?thesis using False assms(4,6) by (auto simp: readUint_def bind_sm_def)
qed

lemma putint_bytes:
  assumes "bs ! 0 \<noteq> 0" "bs \<noteq> []" "unat z = be_nat bs"
  shows "putint z = bs"
proof -
  have n: "nat_bytes (unat z) = bs" using assms nat_bytes_be_nat[of bs] by simp
  then have "z \<noteq> 0" using assms(2) by (intro notI) simp
  then show ?thesis using n putint_nat_bytes by simp
qed

lemma readLong_ok:
  assumes "good s" "readLong k n s = ((k', z, None), s')" "1 \<le> n" "n \<le> 8"
  shows "k' = k \<and> 56 \<le> z \<and> consumed s (putint z) s' \<and> length (putint z) = n \<and> kind s' = None"
proof -
  have r: "readUint n s = (Inr z, s')" "k' = k" "56 \<le> z"
    using assms(2) by (auto simp: readLong_def not_less split: prod.splits sum.splits if_splits)
  obtain bs where bs: "consumed s bs s'" "kind s' = None" "length bs = n" "unat z = be_nat bs" "n = 1 \<or> bs ! 0 \<noteq> 0"
    using readUint_ok[OF assms(1) r(1) assms(3,4)] by blast
  have "bs ! 0 \<noteq> 0"
  proof
    assume "bs ! 0 = 0"
    then have "n = 1" using bs(5) by simp
    then have "bs = [0]" using \<open>bs ! 0 = 0\<close> bs(3) by (cases bs) auto
    then show False using bs(4) r(3) by (simp add: be_nat_def word_le_nat_alt)
  qed
  then have "putint z = bs" using bs(3,4) assms(3) by (intro putint_bytes) auto
  then show ?thesis using r bs by simp
qed

text \<open>A short header is one byte that holds the size.\<close>

lemma short_head:
  assumes "t \<le> b" "b < t + 56" "unat t \<le> 192"
  shows "(ucast (b - t) :: u64) < 56 \<and> puthead t l (ucast (b - t)) = [b]"
proof -
  have "unat (t + 56) = unat t + 56" using assms(3) by (simp add: unat_word_ariths)
  then have "unat b - unat t < 56" using assms(1,2) by (simp add: word_less_nat_alt word_le_nat_alt)
  then have "(ucast (b - t) :: u64) < 56" using assms(1) by (simp add: word_less_nat_alt unat_sub)
  then show ?thesis by (simp add: puthead_def)
qed

lemma long_head:
  assumes "l < b" "b \<le> l + 8" "unat l \<le> 247"
  shows "1 \<le> unat (b - l) \<and> unat (b - l) \<le> 8
    \<and> (56 \<le> z \<longrightarrow> length (putint z) = unat (b - l) \<longrightarrow> puthead t l z = b # putint z)"
proof -
  have "unat (l + 8) = unat l + 8" using assms(3) by (simp add: unat_word_ariths)
  then have d: "1 \<le> unat (b - l) \<and> unat (b - l) \<le> 8" using assms(1,2)
    by (simp add: word_less_nat_alt word_le_nat_alt unat_sub) linarith
  have "puthead t l z = b # putint z" if "56 \<le> z" "length (putint z) = unat (b - l)"
    using that by (simp add: puthead_def Let_def not_less[symmetric])
  then show ?thesis using d by blast
qed

lemma readKind_ok:
  assumes "good s" "readKind s = ((k, z, None), s')"
  shows "kind s' = None \<and> (if k = KByte then z = 0 \<and> byteval s' < 0x80 \<and> consumed s [byteval s'] s'
    else consumed s (headbytes k z) s')"
proof -
  obtain b t where b: "readByte s = (Inr b, t)"
    using assms(2) by (auto simp: readKind_def split: prod.splits sum.splits)
  then have t: "consumed s [b] t" "kind t = None" using readByte_ok[OF assms(1)] by auto
  let ?t = "t\<lparr>byteval := 0\<rparr>"
  have good: "good ?t" using consumed_good[OF t(1) assms(1)] by simp
  have long: "consumed s (headbytes k z) s' \<and> kind s' = None \<and> k \<noteq> KByte"
    if r: "readLong kk (unat (b - l)) ?t = ((k, z, None), s')" and l: "l < b" "b \<le> l + 8" "unat l \<le> 247"
      and h: "\<And>z. headbytes kk z = puthead tg l z" and kk: "kk \<noteq> KByte" for kk l tg
    using readLong_ok[OF good r] long_head[OF l, of z tg] consumed_trans[OF t(1), of "putint z" s'] h kk by auto
  consider "b < 0x80" | "0x80 \<le> b" "b < 0xB8" | "0xB7 < b" "b \<le> 0xBF" | "0xC0 \<le> b" "b < 0xF8" | "0xF7 < b"
    by (auto simp: word_less_nat_alt word_le_nat_alt) linarith
  then show ?thesis
  proof cases
    case 1
    then show ?thesis using assms(2) b t by (auto simp: readKind_def Let_def)
  next
    case 2
    then have "\<not> b < 0x80" by simp
    then show ?thesis using assms(2) b t 2 short_head[of "0x80" b "0xB7"] by (auto simp: readKind_def Let_def)
  next
    case 3
    then have "\<not> b < 0x80" "\<not> b < 0xB8" "b < 0xC0" by (simp_all add: word_less_nat_alt word_le_nat_alt)
    then have "readLong KString (unat (b - 0xB7)) ?t = ((k, z, None), s')"
      using assms(2) b by (simp add: readKind_def Let_def)
    then show ?thesis using long[of KString "0xB7" "0x80"] 3 by simp
  next
    case 4
    then have "\<not> b < 0x80" "\<not> b < 0xB8" "\<not> b < 0xC0" by (simp_all add: word_less_nat_alt word_le_nat_alt)
    then show ?thesis using assms(2) b t 4 short_head[of "0xC0" b "0xF7"] by (auto simp: readKind_def Let_def)
  next
    case 5
    then have "\<not> b < 0x80" "\<not> b < 0xB8" "\<not> b < 0xC0" "\<not> b < 0xF8"
      by (simp_all add: word_less_nat_alt word_le_nat_alt)
    then have "readLong KList (unat (b - 0xF7)) ?t = ((k, z, None), s')"
      using assms(2) b by (simp add: readKind_def Let_def)
    moreover have "b \<le> 0xF7 + 8" using unat_byte_less[of b] by (simp add: word_le_nat_alt)
    ultimately show ?thesis using long[of KList "0xF7" "0xC0"] 5 by simp
  qed
qed

lemma readKind_byte:
  assumes "good s" "R s = b # rest" "b < 0x80" "room s 1"
  shows "\<exists>s'. readKind s = ((KByte, 0, None), s') \<and> byteval s' = b \<and> consumed s [b] s'"
proof -
  obtain t where "readByte s = (Inr b, t)" "consumed s [b] t" using readByte_room[OF assms(1,2,4)] by blast
  then show ?thesis using assms(3) by (simp add: readKind_def)
qed

lemma readLong_room:
  assumes "good s" "R s = putint z @ rest" "room s (length (putint z))" "56 \<le> z"
  shows "\<exists>s'. readLong k (length (putint z)) s = ((k, z, None), s') \<and> consumed s (putint z) s'"
proof -
  have "z \<noteq> 0" using assms(4) by auto
  then have "putint z ! 0 \<noteq> 0" using putint_nat_bytes[of z] nat_bytes_hd[of "unat z"] by (simp add: unat_eq_0)
  then obtain s' where "readUint (length (putint z)) s = (Inr (of_nat (be_nat (putint z))), s')" "consumed s (putint z) s'"
    using readUint_room[OF assms(1-3)] intsize_le_8[of z] by auto
  then show ?thesis using assms(4) by (simp add: readLong_def)
qed

lemma readKind_room:
  assumes "good s" "R s = headbytes k z @ rest" "room s (length (headbytes k z))" "k \<noteq> KByte"
  shows "\<exists>s'. readKind s = ((k, z, None), s') \<and> consumed s (headbytes k z) s'"
proof -
  obtain t l where tl: "headbytes k z = puthead t l z" "k = KString \<and> t = 0x80 \<and> l = 0xB7 \<or> k = KList \<and> t = 0xC0 \<and> l = 0xF7"
    using assms(4) by (cases k) auto
  show ?thesis
  proof (cases "z < 56")
    case True
    let ?b = "t + ucast z"
    have u: "unat (ucast z :: byte) = unat z" "unat z < 56"
      using True by (simp_all add: word_less_nat_alt unsigned_ucast_eq take_bit_eq_mod)
    have b: "unat ?b = unat t + unat z" using tl(2) u by (auto simp: unat_word_ariths)
    have bk: "ucast (?b - t) = z" using u by (simp add: word_unat_eq_iff)
    have h: "headbytes k z = [?b]" using True by (simp add: tl(1) puthead_def)
    then obtain s' where "readByte s = (Inr ?b, s')" "consumed s [?b] s'"
      using readByte_room[OF assms(1), of ?b rest] assms(2,3) by auto
    then show ?thesis
      using tl(2) h b u bk by (auto simp: readKind_def Let_def word_less_nat_alt)
  next
    case False
    let ?n = "length (putint z)" let ?b = "l + of_nat ?n"
    have n: "1 \<le> ?n" "?n \<le> 8" using intsize_le_8[of z] by auto
    have u: "unat (of_nat ?n :: byte) = ?n" using n by (intro unat_of_nat_byte) simp
    have b: "unat ?b = unat l + ?n" using tl(2) u n by (auto simp: unat_word_ariths)
    have h: "headbytes k z = ?b # putint z" using False by (simp add: tl(1) puthead_def)
    then obtain s1 where s1: "readByte s = (Inr ?b, s1)" "consumed s [?b] s1"
      using readByte_room[OF assms(1), of ?b "putint z @ rest"] assms(2,3) by (auto simp: room_def split: list.splits)
    let ?s = "s1\<lparr>byteval := 0\<rparr>"
    have "good ?s" "R ?s = putint z @ rest" "room ?s ?n"
      using consumed_good[OF s1(2) assms(1)] consumed_room[OF s1(2), of ?n] s1(2) assms(2,3) h
      by (simp_all add: consumed_def)
    then obtain s2 where s2: "readLong k ?n ?s = ((k, z, None), s2)" "consumed ?s (putint z) s2"
      using readLong_room[of ?s z rest k] False by (auto simp: not_less)
    have "consumed s (headbytes k z) s2"
      using consumed_trans[OF s1(2)] s2(2) h by (simp del: length_putint)
    moreover have "readKind s = readLong k (unat (?b - l)) ?s"
      using tl(2) s1(1) b n by (auto simp: readKind_def Let_def word_less_nat_alt simp del: length_putint)
    ultimately show ?thesis using s2(1) u by auto
  qed
qed

lemma readByte_not_EOL [simp]: "readByte s \<noteq> (Inl EOL, s')"
  by (auto simp: readByte_def willRead_def res_simps Let_def split: list.splits if_splits)

lemma readFull_not_EOL [simp]: "readFull n s \<noteq> (Inl EOL, s')"
  by (auto simp: readFull_def willRead_def res_simps Let_def split: list.splits if_splits)

lemma readUint_not_EOL [simp]: "readUint n s \<noteq> (Inl EOL, s')"
  by (auto simp: readUint_def res_simps split: if_splits)

lemma readKind_not_EOL [simp]: "readKind s \<noteq> ((k, z, Some EOL), s')"
  using readByte_not_EOL[of s] by (auto simp: readKind_def readLong_def Let_def split: prod.splits sum.splits if_splits)

lemma checkFits_not_EOL [simp]: "checkFits z s \<noteq> Some EOL"
  by (auto simp: checkFits_def split: list.splits if_splits)

lemma Kind_ok:
  assumes "kind s = None" "good s" "Kind s = (Inr (k, z), s')"
  shows "kind s' = Some k \<and> kinderr s' = None \<and> ssize s' = z \<and> good s' \<and>
    (if k = KByte then z = 0 \<and> byteval s' < 0x80 \<and> consumed s [byteval s'] s'
     else consumed s (headbytes k z) s' \<and> fits s' z)"
proof -
  obtain s1 where r: "readKind (s\<lparr>kinderr := None\<rparr>) = ((k, z, None), s1)" "checkFits z s1 = None"
    "s' = s1\<lparr>kind := Some k, ssize := z, kinderr := None\<rparr>"
    using assms(1,3) by (auto simp: Kind_def Let_def split: prod.splits option.splits if_splits)
  have ok: "if k = KByte then z = 0 \<and> byteval s1 < 0x80 \<and> consumed s [byteval s1] s1
      else consumed s (headbytes k z) s1"
    using readKind_ok[OF _ r(1)] assms(2) by (auto split: if_splits)
  then have "good s1" using consumed_good[OF _ assms(2)] by (auto split: if_splits)
  then show ?thesis using ok r(2,3) checkFits_None[of s1 z] by auto
qed

lemma Kind_EOL:
  assumes "kind s = None" "Kind s = (Inl EOL, s')"
  shows "s' = s\<lparr>kinderr := None\<rparr> \<and> atEnd s"
  using assms by (auto simp: Kind_def Let_def atEnd_def split: prod.splits option.splits if_splits)

lemma Kind_atEnd: "kind s = None \<Longrightarrow> atEnd s \<Longrightarrow> Kind s = (Inl EOL, s\<lparr>kinderr := None\<rparr>)"
  by (simp add: Kind_def atEnd_def)

lemma atEnd_upd [simp]:
  "atEnd (s\<lparr>kinderr := e\<rparr>) = atEnd s" "atEnd (s\<lparr>kind := k\<rparr>) = atEnd s"
  by (simp_all add: atEnd_def)

lemma room_not_atEnd: "room s n \<Longrightarrow> 0 < n \<Longrightarrow> \<not> atEnd s"
  by (auto simp: room_def atEnd_def split: list.splits)

lemma Kind_byte:
  assumes "kind s = None" "good s" "R s = b # rest" "b < 0x80" "room s 1"
  shows "\<exists>s'. Kind s = (Inr (KByte, 0), s') \<and> kind s' = Some KByte \<and> kinderr s' = None \<and> byteval s' = b
    \<and> consumed s [b] s'"
proof -
  let ?s = "s\<lparr>kinderr := None\<rparr>"
  obtain t where t: "readKind ?s = ((KByte, 0, None), t)" "byteval t = b" "consumed ?s [b] t"
    using readKind_byte[of ?s b rest] assms by auto
  have "good t" using consumed_good[OF t(3)] assms(2) by simp
  then have "checkFits 0 t = None" by (auto simp: checkFits_def split: list.splits)
  then show ?thesis using t assms(1) room_not_atEnd[OF assms(5)] by (simp add: Kind_def)
qed

lemma Kind_room:
  assumes "kind s = None" "good s" "R s = headbytes k z @ rest" "room s (length (headbytes k z) + unat z)" "k \<noteq> KByte"
  shows "\<exists>s'. Kind s = (Inr (k, z), s') \<and> kind s' = Some k \<and> kinderr s' = None \<and> ssize s' = z
    \<and> consumed s (headbytes k z) s'"
proof -
  let ?s = "s\<lparr>kinderr := None\<rparr>"
  have l: "0 < length (headbytes k z)" using assms(5) by (cases k) (simp_all add: length_puthead headsize_def)
  have "room ?s (length (headbytes k z))" using assms(4) by (auto simp: room_def split: list.splits)
  then obtain t where t: "readKind ?s = ((k, z, None), t)" "consumed ?s (headbytes k z) t"
    using readKind_room[of ?s k z rest] assms by auto
  have "good t" using consumed_good[OF t(2)] assms(2) by simp
  moreover have "room t (unat z)" using consumed_room[OF t(2)] assms(4) by simp
  ultimately have "checkFits z t = None" using checkFits_None room_fits by blast
  then show ?thesis using t assms(1) room_not_atEnd[OF assms(4)] l by (simp add: Kind_def)
qed

subsection \<open>Strings and integers\<close>

lemma Bytes_ok:
  assumes "kind s = None" "good s" "Bytes s = (Inr b, s')"
  shows "consumed s (enc_string b) s' \<and> kind s' = None"
proof -
  obtain k z t where t: "Kind s = (Inr (k, z), t)"
    and c: "(case k of KByte \<Rightarrow> bind_sm rearm (\<lambda>_ s. (Inr [byteval s], s))
     | KString \<Rightarrow> bind_sm (readFull z) (\<lambda>b. if z = 1 \<and> b ! 0 < 128 then fail_sm ErrCanonSize else return_sm b)
     | KList \<Rightarrow> fail_sm ErrExpectedString) t = (Inr b, s')"
    using assms(3) by (auto simp: Bytes_def res_simps)
  note K = Kind_ok[OF assms(1,2) t]
  show ?thesis
  proof (cases k)
    case KByte
    then have "byteval t \<le> 0x7F" using K by (simp add: word_less_nat_alt word_le_nat_alt)
    then show ?thesis using K c KByte by (auto simp: rearm_def bind_sm_def enc_string_def)
  next
    case KString
    then have r: "readFull z t = (Inr b, s')" "\<not> (z = 1 \<and> b ! 0 < 128)"
      using c by (auto simp: res_simps split: if_splits)
    have f: "consumed t b s'" "kind s' = None" "length b = unat z"
      using readFull_ok[OF _ r(1)] K by auto
    then have z: "of_nat (length b) = z" by simp
    have "length b = 1 \<Longrightarrow> z = 1" using z by (metis of_nat_1)
    then have "\<not> (length b = 1 \<and> b ! 0 \<le> 0x7F)" using r(2) by (auto simp: word_less_nat_alt word_le_nat_alt)
    then have "enc_string b = headbytes KString z @ b" unfolding enc_string_def z by (simp only: if_False headbytes.simps)
    then show ?thesis using consumed_trans[OF _ f(1)] K KString f(2) by auto
  qed (use c in simp)
qed

lemma Bytes_room:
  assumes "kind s = None" "good s" "R s = enc_string b @ rest" "room s (length (enc_string b))" "length b < 2 ^ 64"
  shows "\<exists>s'. Bytes s = (Inr b, s') \<and> consumed s (enc_string b) s' \<and> kind s' = None"
proof (cases "length b = 1 \<and> b ! 0 \<le> 0x7F")
  case True
  then obtain x where x: "b = [x]" "x \<le> 0x7F" by (cases b) auto
  then have e: "enc_string b = [x]" "x < 0x80" by (simp_all add: enc_string_def word_less_nat_alt word_le_nat_alt)
  then obtain t where "Kind s = (Inr (KByte, 0), t)" "byteval t = x" "consumed s [x] t"
    using Kind_byte[OF assms(1,2), of x rest] assms(3,4) by auto
  then show ?thesis using e x(1) by (simp add: Bytes_def bind_sm_def rearm_def)
next
  case False
  let ?z = "of_nat (length b) :: u64"
  have z: "unat ?z = length b" using assms(5) by (rule unat_of_nat_u64)
  have e: "enc_string b = headbytes KString ?z @ b" unfolding enc_string_def by (simp only: False if_False headbytes.simps)
  then obtain t where t: "Kind s = (Inr (KString, ?z), t)" "consumed s (headbytes KString ?z) t"
    using Kind_room[OF assms(1,2), of KString ?z "b @ rest"] assms(3,4) z by auto
  have "good t" "R t = b @ rest" "room t (length b)"
    using consumed_good[OF t(2) assms(2)] t(2) assms(3) e consumed_room[OF t(2), of "length b"] assms(4)
    by (simp_all add: consumed_def)
  then obtain s' where s': "readFull ?z t = (Inr b, s')" "consumed t b s'" "kind s' = None"
    using readFull_room[of t b rest ?z] z by auto
  have "\<not> (?z = 1 \<and> b ! 0 < 128)"
  proof
    assume a: "?z = 1 \<and> b ! 0 < 128"
    then have "length b = 1" using z by (metis unat_1)
    then show False using False a by (simp add: word_less_nat_alt word_le_nat_alt)
  qed
  then have "Bytes s = (Inr b, s')" using t(1) s'(1) by (auto simp: Bytes_def bind_sm_def)
  then show ?thesis using consumed_trans[OF t(2) s'(2)] e s'(3) by auto
qed

lemma enc_string_head:
  assumes "\<not> (length b = 1 \<and> b ! 0 \<le> 0x7F)"
  shows "enc_string b = headbytes KString (of_nat (length b)) @ b"
  unfolding enc_string_def by (simp only: assms if_False headbytes.simps)

lemma enc_nat_0: "enc_nat 0 = headbytes KString 0"
  by (simp add: enc_nat_def enc_string_def)

lemma nat_bytes_small: "0 < n \<Longrightarrow> n < 256 \<Longrightarrow> nat_bytes n = [of_nat n]"
  by (simp add: nat_bytes.simps[of n])

lemma enc_nat_byte:
  assumes "b \<noteq> 0" "b < 0x80"
  shows "enc_nat (unat (b :: byte)) = [b]"
proof -
  have "nat_bytes (unat b) = [b]" using assms unat_byte_less[of b] by (subst nat_bytes_small) (auto simp: unat_gt_0)
  then show ?thesis using assms(2) by (simp add: enc_nat_def enc_string_def word_less_nat_alt word_le_nat_alt)
qed

lemma enc_nat_long:
  assumes "128 \<le> n" "nat_bytes n = bs"
  shows "enc_nat n = headbytes KString (of_nat (length bs)) @ bs"
proof -
  have n: "be_nat bs = n" using assms(2) by auto
  have "\<not> (length bs = 1 \<and> bs ! 0 \<le> 0x7F)"
  proof
    assume a: "length bs = 1 \<and> bs ! 0 \<le> 0x7F"
    then obtain x where "bs = [x]" by (cases bs) auto
    then show False using a n assms(1) by (simp add: be_nat_def word_le_nat_alt)
  qed
  then show ?thesis using enc_string_head assms(2) by (simp only: enc_nat_def)
qed

lemma uint_ok:
  assumes "kind s = None" "good s" "uint_stream bits s = (Inr v, s')" "bits \<le> 64"
  shows "consumed s (enc_nat (unat v)) s' \<and> kind s' = None"
proof -
  obtain k z t where t: "Kind s = (Inr (k, z), t)"
    using assms(3) by (auto simp: uint_stream_def res_simps)
  have c: "k = KByte \<and> byteval t \<noteq> 0 \<and> v = ucast (byteval t) \<and> s' = t\<lparr>kind := None\<rparr> \<or>
      k = KString \<and> z \<le> of_nat (bits div 8) \<and> readUint (unat z) t = (Inr v, s') \<and> \<not> (z > 0 \<and> v < 128)"
    using assms(3)
    by (cases k) (auto simp: uint_stream_def bind_sm_Inr[where m = Kind, OF t] res_simps not_less split: if_splits)
  note K = Kind_ok[OF assms(1,2) t]
  from c show ?thesis
  proof
    assume b: "k = KByte \<and> byteval t \<noteq> 0 \<and> v = ucast (byteval t) \<and> s' = t\<lparr>kind := None\<rparr>"
    then show ?thesis using K enc_nat_byte[of "byteval t"] by simp
  next
    assume b: "k = KString \<and> z \<le> of_nat (bits div 8) \<and> readUint (unat z) t = (Inr v, s') \<and> \<not> (z > 0 \<and> v < 128)"
    have "bits div 8 \<le> 8" using assms(4) by linarith
    then have "unat (of_nat (bits div 8) :: u64) \<le> 8" using unat_of_nat_u64[of "bits div 8"] by simp
    then have z8: "unat z \<le> 8" using b by (simp add: word_le_nat_alt)
    show ?thesis
    proof (cases "z = 0")
      case True
      then have "v = 0 \<and> s' = t\<lparr>kind := None\<rparr>" using b by (simp add: readUint_def)
      then show ?thesis using K b True by (simp add: enc_nat_0)
    next
      case False
      then have z1: "1 \<le> unat z" by (simp add: Suc_le_eq unat_gt_0)
      have v: "128 \<le> unat v" using False b by (auto simp: word_le_nat_alt not_less word_gt_0)
      have r: "readUint (unat z) t = (Inr v, s')" and gt: "good t" using b K by auto
      obtain bs where bs: "consumed t bs s'" "kind s' = None" "length bs = unat z" "unat v = be_nat bs"
        "unat z = 1 \<or> bs ! 0 \<noteq> 0"
        using readUint_ok[OF gt r z1 z8] by blast
      have "bs ! 0 \<noteq> 0"
      proof
        assume "bs ! 0 = 0"
        then have "bs = [0]" using bs(3,5) by (cases bs) auto
        then show False using bs(4) v by (simp add: be_nat_def)
      qed
      then have "nat_bytes (unat v) = bs" using nat_bytes_be_nat bs(4) by simp
      then have "enc_nat (unat v) = headbytes KString z @ bs" using enc_nat_long[OF v] bs(3) by simp
      then show ?thesis using consumed_trans[OF _ bs(1)] K b bs(2) by auto
    qed
  qed
qed

lemma length_nat_bytes: "length (nat_bytes n) \<le> k \<longleftrightarrow> n < 256 ^ k"
proof
  assume l: "length (nat_bytes n) \<le> k"
  have "n < 256 ^ length (nat_bytes n)" using be_nat_less[of "nat_bytes n"] by simp
  also have "(256 :: nat) ^ length (nat_bytes n) \<le> 256 ^ k" using l by (rule power_increasing) simp
  finally show "n < 256 ^ k" .
next
  show "n < 256 ^ k \<Longrightarrow> length (nat_bytes n) \<le> k"
  proof (induction k arbitrary: n)
    case (Suc k)
    have "n div 256 < 256 ^ k" using Suc.prems by (simp add: less_mult_imp_div_less mult.commute)
    then show ?case using Suc.IH by (simp add: nat_bytes.simps[of n])
  qed simp
qed

lemma uint_room:
  assumes "kind s = None" "good s" "R s = enc_nat (unat v) @ rest" "room s (length (enc_nat (unat v)))"
    and "unat v < 256 ^ (bits div 8)" "8 \<le> bits" "bits \<le> 64"
  shows "\<exists>s'. uint_stream bits s = (Inr v, s') \<and> consumed s (enc_nat (unat v)) s' \<and> kind s' = None"
proof -
  consider "v = 0" | "v \<noteq> 0" "unat v < 128" | "128 \<le> unat v" by force
  then have "\<exists>s'. uint_stream bits s = (Inr v, s')"
  proof cases
    case 1
    then obtain t where "Kind s = (Inr (KString, 0), t)"
      using Kind_room[OF assms(1,2), of KString 0 rest] assms(3,4) by (auto simp: enc_nat_0)
    then show ?thesis using 1 by (simp add: uint_stream_def bind_sm_def map_error_def readUint_def)
  next
    case 2
    let ?b = "ucast v :: byte"
    have b: "unat ?b = unat v" using 2 by (simp add: unsigned_ucast_eq take_bit_eq_mod)
    then have nb: "?b \<noteq> 0" "?b < 0x80" using 2 by (auto simp: word_less_nat_alt unat_eq_0 simp flip: unat_eq_0)
    then have "enc_nat (unat v) = [?b]" using enc_nat_byte[of ?b] b by simp
    then obtain t where "Kind s = (Inr (KByte, 0), t)" "byteval t = ?b"
      using Kind_byte[OF assms(1,2), of ?b rest] assms(3,4) nb by auto
    moreover have "ucast ?b = v" using b by (simp add: word_unat_eq_iff)
    ultimately show ?thesis using nb by (simp add: uint_stream_def bind_sm_def)
  next
    case 3
    let ?bs = "nat_bytes (unat v)" let ?z = "of_nat (length ?bs) :: u64"
    have l: "length ?bs \<le> bits div 8" using assms(5) length_nat_bytes by blast
    have l8: "length ?bs \<le> 8" using l assms(7) by linarith
    have z: "unat ?z = length ?bs" "unat (of_nat (bits div 8) :: u64) = bits div 8"
      using l assms(7) by (intro unat_of_nat_u64, simp)+
    have hd: "?bs \<noteq> []" "?bs ! 0 \<noteq> 0" using nat_bytes_hd[of "unat v"] 3 by auto
    have e: "enc_nat (unat v) = headbytes KString ?z @ ?bs" using enc_nat_long[OF 3] by simp
    then obtain t where t: "Kind s = (Inr (KString, ?z), t)" "consumed s (headbytes KString ?z) t"
      using Kind_room[OF assms(1,2), of KString ?z "?bs @ rest"] assms(3,4) z by auto
    have "good t" "R t = ?bs @ rest" "room t (length ?bs)"
      using consumed_good[OF t(2) assms(2)] t(2) assms(3) e consumed_room[OF t(2), of "length ?bs"] assms(4)
      by (simp_all add: consumed_def)
    then obtain s' where s': "readUint (length ?bs) t = (Inr v, s')"
      using readUint_room[of t ?bs rest] hd l8 by (auto simp: Suc_le_eq)
    have "\<not> ?z > of_nat (bits div 8)" "\<not> v < 128" using l z 3 by (simp_all add: word_less_nat_alt)
    then show ?thesis using t(1) s' z by (simp add: uint_stream_def bind_sm_def map_error_def)
  qed
  then show ?thesis using uint_ok[OF assms(1,2) _ assms(7)] by blast
qed

subsection \<open>What a decoder promises\<close>

text \<open>
  \<open>decodes dec e\<close>: a value that \<open>dec\<close> returns was read from exactly its encoding \<open>e v\<close>, and \<open>dec\<close>
  reports the end of the list only there.  \<open>reads_back N dec e W\<close>: in front of the encoding of a
  value in \<open>W\<close> that is shorter than \<open>N\<close>, \<open>dec\<close> returns the value, and it reports the end of the list.
\<close>

definition decodes :: "rval reader \<Rightarrow> (rval \<Rightarrow> rlperr + byte list) \<Rightarrow> bool" where
  "decodes dec e \<longleftrightarrow>
     (\<forall>s v s'. kind s = None \<longrightarrow> good s \<longrightarrow> dec s = (Inr v, s') \<longrightarrow>
        (\<exists>b. e v = Inr b \<and> b \<noteq> [] \<and> consumed s b s' \<and> kind s' = None)) \<and>
     (\<forall>s s'. kind s = None \<longrightarrow> good s \<longrightarrow> dec s = (Inl EOL, s') \<longrightarrow> consumed s [] s' \<and> kind s' = None \<and> atEnd s')"

definition reads_back :: "nat \<Rightarrow> rval reader \<Rightarrow> (rval \<Rightarrow> rlperr + byte list) \<Rightarrow> (rval \<Rightarrow> bool) \<Rightarrow> bool" where
  "reads_back N dec e W \<longleftrightarrow>
     (\<forall>s v b rest. kind s = None \<longrightarrow> good s \<longrightarrow> e v = Inr b \<longrightarrow> W v \<longrightarrow> R s = b @ rest \<longrightarrow> room s (length b) \<longrightarrow>
        length b < N \<longrightarrow> length b < 2 ^ 64 \<longrightarrow>
        b \<noteq> [] \<and> (\<exists>s'. dec s = (Inr v, s') \<and> consumed s b s' \<and> kind s' = None)) \<and>
     (\<forall>s. kind s = None \<longrightarrow> good s \<longrightarrow> atEnd s \<longrightarrow> (\<exists>s'. dec s = (Inl EOL, s') \<and> consumed s [] s' \<and> kind s' = None))"

lemma enc_string_nonempty [simp]: "enc_string b \<noteq> []"
  by (auto simp: enc_string_def puthead_def Let_def)

lemma enc_nat_nonempty [simp]: "enc_nat n \<noteq> []"
  by (simp add: enc_nat_def)

lemma enc_list_nonempty [simp]: "enc_list p \<noteq> []"
  by (simp add: enc_list_def puthead_def Let_def)

lemma wrap_EOL [simp]: "wrapStreamError e = EOL \<longleftrightarrow> e = EOL"
  by (auto simp: wrapStreamError_def)

lemma wrap_EOL' [simp]: "EOL = wrapStreamError e \<longleftrightarrow> e = EOL"
  using wrap_EOL by metis

text \<open>The end of the list is noticed by \<open>Kind\<close>.\<close>

lemma Kind_EOL_ok:
  assumes "kind s = None" "good s" "bind_sm Kind f s = (Inl EOL, s')" "\<And>k z t. f (k, z) t \<noteq> (Inl EOL, s')"
  shows "consumed s [] s' \<and> kind s' = None \<and> atEnd s'"
proof -
  have "Kind s = (Inl EOL, s')" using assms(3,4) by (auto simp: res_simps)
  then show ?thesis using Kind_EOL[OF assms(1)] assms(1,2) consumed_refl by auto
qed

lemma Kind_atEnd_EOL:
  assumes "kind s = None" "good s" "atEnd s"
  shows "\<exists>s'. bind_sm Kind f s = (Inl EOL, s') \<and> consumed s [] s' \<and> kind s' = None"
  using Kind_atEnd[OF assms(1,3)] assms(1,2) consumed_refl by (simp add: bind_sm_def)

lemma Bytes_EOL:
  "kind s = None \<Longrightarrow> good s \<Longrightarrow> Bytes s = (Inl EOL, s') \<Longrightarrow> consumed s [] s' \<and> kind s' = None \<and> atEnd s'"
  unfolding Bytes_def by (rule Kind_EOL_ok, assumption, assumption, assumption) (auto simp: res_simps rearm_def split: rkind.splits if_splits)

lemma uint_EOL:
  "kind s = None \<Longrightarrow> good s \<Longrightarrow> uint_stream n s = (Inl EOL, s') \<Longrightarrow> consumed s [] s' \<and> kind s' = None \<and> atEnd s'"
  unfolding uint_stream_def by (rule Kind_EOL_ok, assumption, assumption, assumption) (auto simp: res_simps split: rkind.splits if_splits)

lemma List_EOL:
  "kind s = None \<Longrightarrow> good s \<Longrightarrow> List s = (Inl EOL, s') \<Longrightarrow> consumed s [] s' \<and> kind s' = None \<and> atEnd s'"
  unfolding List_def by (rule Kind_EOL_ok, assumption, assumption, assumption) auto

lemma atEnd_reads:
  assumes "kind s = None" "good s" "atEnd s"
  shows "\<exists>s'. Bytes s = (Inl EOL, s') \<and> consumed s [] s' \<and> kind s' = None"
    "\<exists>s'. uint_stream n s = (Inl EOL, s') \<and> consumed s [] s' \<and> kind s' = None"
    "\<exists>s'. List s = (Inl EOL, s') \<and> consumed s [] s' \<and> kind s' = None"
    "\<exists>s'. Raw s = (Inl EOL, s') \<and> consumed s [] s' \<and> kind s' = None"
    "\<exists>s'. decodeByteArray m s = (Inl EOL, s') \<and> consumed s [] s' \<and> kind s' = None"
  unfolding Bytes_def uint_stream_def List_def Raw_def decodeByteArray_def by (rule Kind_atEnd_EOL[OF assms])+

lemma map_error_Inl: "m s = (Inl e, t) \<Longrightarrow> map_error g m s = (Inl (g e), t)"
  by (simp add: map_error_def)

lemma map_error_Inr: "m s = (Inr x, t) \<Longrightarrow> map_error g m s = (Inr x, t)"
  by (simp add: map_error_def)

lemma wrap_EOL_eq [simp]: "wrapStreamError EOL = EOL"
  by (simp add: wrapStreamError_def)

lemma decodesI:
  assumes "\<And>s v s'. kind s = None \<Longrightarrow> good s \<Longrightarrow> dec s = (Inr v, s') \<Longrightarrow>
      \<exists>b. e v = Inr b \<and> b \<noteq> [] \<and> consumed s b s' \<and> kind s' = None"
    and "\<And>s s'. kind s = None \<Longrightarrow> good s \<Longrightarrow> dec s = (Inl EOL, s') \<Longrightarrow>
      consumed s [] s' \<and> kind s' = None \<and> atEnd s'"
  shows "decodes dec e"
  using assms unfolding decodes_def by blast

lemma reads_backI:
  assumes "\<And>s v b rest. kind s = None \<Longrightarrow> good s \<Longrightarrow> e v = Inr b \<Longrightarrow> W v \<Longrightarrow> R s = b @ rest \<Longrightarrow>
      room s (length b) \<Longrightarrow> length b < N \<Longrightarrow> length b < 2 ^ 64 \<Longrightarrow>
      b \<noteq> [] \<and> (\<exists>s'. dec s = (Inr v, s') \<and> consumed s b s' \<and> kind s' = None)"
    and "\<And>s. kind s = None \<Longrightarrow> good s \<Longrightarrow> atEnd s \<Longrightarrow>
      \<exists>s'. dec s = (Inl EOL, s') \<and> consumed s [] s' \<and> kind s' = None"
  shows "reads_back N dec e W"
  using assms unfolding reads_back_def by (intro conjI allI impI) blast+

text \<open>A reader \<open>r\<close> of values with encoding \<open>E x\<close> makes a decoder.\<close>

definition reads :: "'a reader \<Rightarrow> ('a \<Rightarrow> byte list) \<Rightarrow> bool" where
  "reads r E \<longleftrightarrow>
     (\<forall>s x s'. kind s = None \<longrightarrow> good s \<longrightarrow> r s = (Inr x, s') \<longrightarrow> consumed s (E x) s' \<and> kind s' = None) \<and>
     (\<forall>s s'. kind s = None \<longrightarrow> good s \<longrightarrow> r s = (Inl EOL, s') \<longrightarrow> consumed s [] s' \<and> kind s' = None \<and> atEnd s') \<and>
     (\<forall>s. kind s = None \<longrightarrow> good s \<longrightarrow> atEnd s \<longrightarrow> (\<exists>s'. r s = (Inl EOL, s') \<and> consumed s [] s' \<and> kind s' = None))"

lemma decodes_wrapped:
  assumes r: "reads r E" and f: "\<And>x s. f x s = (h x, s)" "\<And>x. h x \<noteq> Inl EOL"
    and e: "\<And>x v. h x = Inr v \<Longrightarrow> e v = Inr (E x) \<and> E x \<noteq> []"
  shows "decodes (bind_sm (map_error wrapStreamError r) f) e"
proof (rule decodesI)
  fix s v s' assume a: "kind s = None" "good s" "bind_sm (map_error wrapStreamError r) f s = (Inr v, s')"
  then obtain x where "r s = (Inr x, s')" "h x = Inr v" by (auto simp: res_simps f)
  then show "\<exists>b. e v = Inr b \<and> b \<noteq> [] \<and> consumed s b s' \<and> kind s' = None"
    using r e a(1,2) unfolding reads_def by blast
next
  fix s s' assume a: "kind s = None" "good s" "bind_sm (map_error wrapStreamError r) f s = (Inl EOL, s')"
  then have "r s = (Inl EOL, s')" using f(2) by (auto simp: res_simps f(1))
  then show "consumed s [] s' \<and> kind s' = None \<and> atEnd s'" using r a(1,2) unfolding reads_def by blast
qed

lemma reads_back_wrapped:
  assumes r: "reads r E" and f: "\<And>x s. f x s = (h x, s)"
    and room: "\<And>s x rest. kind s = None \<Longrightarrow> good s \<Longrightarrow> R s = E x @ rest \<Longrightarrow> room s (length (E x)) \<Longrightarrow>
      length (E x) < 2 ^ 64 \<Longrightarrow> Q x \<Longrightarrow> \<exists>s'. r s = (Inr x, s')"
    and e: "\<And>v b. e v = Inr b \<Longrightarrow> W v \<Longrightarrow> b \<noteq> [] \<and> (\<exists>x. b = E x \<and> Q x \<and> h x = Inr v)"
  shows "reads_back N (bind_sm (map_error wrapStreamError r) f) e W"
proof (rule reads_backI)
  fix s v b rest
  assume a: "kind s = None" "good s" "e v = Inr b" "W v" "R s = b @ rest" "room s (length b)" "length b < 2 ^ 64"
  then obtain x where x: "b = E x" "Q x" "h x = Inr v" "b \<noteq> []" using e by blast
  then obtain s' where s': "r s = (Inr x, s')" using room[OF a(1,2), of x rest] a(5-7) by auto
  then have "consumed s b s' \<and> kind s' = None" using r a(1,2) x(1) unfolding reads_def by blast
  then show "b \<noteq> [] \<and> (\<exists>s'. bind_sm (map_error wrapStreamError r) f s = (Inr v, s') \<and> consumed s b s' \<and> kind s' = None)"
    using s' x by (auto simp: bind_sm_def map_error_def f)
next
  fix s assume a: "kind s = None" "good s" "atEnd s"
  then obtain s' where "r s = (Inl EOL, s')" "consumed s [] s'" "kind s' = None" using r unfolding reads_def by blast
  then show "\<exists>s'. bind_sm (map_error wrapStreamError r) f s = (Inl EOL, s') \<and> consumed s [] s' \<and> kind s' = None"
    by (auto simp: bind_sm_def map_error_def)
qed

lemma reads_Bytes: "reads Bytes enc_string"
  unfolding reads_def using Bytes_ok Bytes_EOL atEnd_reads(1) by blast

lemma reads_uint: "bits \<le> 64 \<Longrightarrow> reads (uint_stream bits) (\<lambda>v. enc_nat (unat v))"
  unfolding reads_def using uint_ok uint_EOL atEnd_reads(2) by blast

lemma length_enc_string: "length b \<le> length (enc_string b)"
  by (simp add: enc_string_def)

lemma Bytes_reads_back:
  "kind s = None \<Longrightarrow> good s \<Longrightarrow> R s = enc_string x @ rest \<Longrightarrow> room s (length (enc_string x)) \<Longrightarrow>
    length (enc_string x) < 2 ^ 64 \<Longrightarrow> \<exists>s'. Bytes s = (Inr x, s')"
  using Bytes_room[of s x rest] length_enc_string[of x] by auto

lemma decodes_string: "decodes decodeString (enc TString)"
  unfolding decodeString_def by (rule decodes_wrapped[OF reads_Bytes, where h = "\<lambda>b. Inr (VBytes b)"]) auto

lemma reads_back_string: "reads_back N decodeString (enc TString) (\<lambda>v. True)"
  unfolding decodeString_def
  by (rule reads_back_wrapped[OF reads_Bytes, where h = "\<lambda>b. Inr (VBytes b)" and Q = "\<lambda>_. True"])
    (auto dest: Bytes_reads_back split: rval.splits)

lemma decodes_big: "decodes decodeBigInt (enc TBig)"
  unfolding decodeBigInt_def
  by (rule decodes_wrapped[OF reads_Bytes, where h = "\<lambda>b. if length b > 0 \<and> b ! 0 = 0 then Inl (wrapStreamError ErrCanonInt)
      else Inr (VBig (int (be_nat b)))"])
    (auto simp: enc_big_def enc_nat_def nat_bytes_be_nat split: if_splits)

lemma reads_back_big: "reads_back N decodeBigInt (enc TBig) (\<lambda>v. True)"
  unfolding decodeBigInt_def
proof (rule reads_back_wrapped[OF reads_Bytes, where Q = "\<lambda>_. True" and
      h = "\<lambda>b. if length b > 0 \<and> b ! 0 = 0 then Inl (wrapStreamError ErrCanonInt) else Inr (VBig (int (be_nat b)))"])
  fix v b assume "enc TBig v = Inr b"
  then obtain i where "v = VBig i" "0 \<le> i" "b = enc_string (nat_bytes (nat i))"
    by (auto simp: enc_big_def enc_nat_def split: rval.splits if_splits)
  then show "b \<noteq> [] \<and> (\<exists>x. b = enc_string x \<and> True \<and>
      (if length x > 0 \<and> x ! 0 = 0 then Inl (wrapStreamError ErrCanonInt) else Inr (VBig (int (be_nat x)))) = Inr v)"
    using nat_bytes_hd[of "nat i"] by (cases "i = 0") (auto simp: be_nat_def[of "[]"] intro!: exI[of _ "nat_bytes (nat i)"])
qed (auto dest: Bytes_reads_back)

lemma decodes_uint: "bits \<le> 64 \<Longrightarrow> decodes (decodeUint bits) (enc (TUint bits))"
  unfolding decodeUint_def by (rule decodes_wrapped[OF reads_uint, where h = "\<lambda>b. Inr (VUint b)"]) auto

lemma reads_back_uint:
  assumes "8 \<le> bits" "bits \<le> 64"
  shows "reads_back N (decodeUint bits) (enc (TUint bits)) (\<lambda>v. \<forall>i. v = VUint i \<longrightarrow> unat i < 256 ^ (bits div 8))"
  unfolding decodeUint_def
  by (rule reads_back_wrapped[OF reads_uint[OF assms(2)], where h = "\<lambda>b. Inr (VUint b)" and
        Q = "\<lambda>i. unat i < 256 ^ (bits div 8)"])
    (auto dest: uint_room[OF _ _ _ _ _ assms] split: rval.splits)

lemma Bool_eq: "Bool s = (Inr b, s') \<longleftrightarrow> uint_stream 8 s = (Inr (if b then 1 else 0), s')"
  by (auto simp: Bool_def res_simps split: if_splits intro: exI[of _ 0])

lemma Bool_EOL: "Bool s = (Inl EOL, s') \<longleftrightarrow> uint_stream 8 s = (Inl EOL, s')"
  by (auto simp: Bool_def res_simps split: if_splits)

lemma reads_Bool: "reads Bool (\<lambda>b. enc_nat (if b then 1 else 0))"
  unfolding reads_def Bool_eq Bool_EOL
proof (intro conjI allI impI)
  fix s :: stream and b :: bool and s' :: stream
  assume a: "kind s = None" "good s" "uint_stream 8 s = (Inr (if b then 1 else 0), s')"
  then show "consumed s (enc_nat (if b then 1 else 0)) s'" "kind s' = None"
    using uint_ok[OF a] by (cases b; simp)+
qed (use uint_EOL atEnd_reads(2) in blast)+

lemma decodes_bool: "decodes decodeBool (enc TBool)"
  unfolding decodeBool_def by (rule decodes_wrapped[OF reads_Bool, where h = "\<lambda>b. Inr (VBool b)"]) auto

lemma reads_back_bool: "reads_back N decodeBool (enc TBool) (\<lambda>v. True)"
  unfolding decodeBool_def
proof (rule reads_back_wrapped[OF reads_Bool, where h = "\<lambda>b. Inr (VBool b)" and Q = "\<lambda>_. True"])
  fix s x rest
  assume "kind s = None" "good s" "R s = enc_nat (if x then 1 else 0) @ rest" "room s (length (enc_nat (if x then 1 else 0)))"
  then show "\<exists>s'. Bool s = (Inr x, s')"
    using uint_room[of s "if x then 1 else 0" rest 8] by (cases x) (auto simp: Bool_eq)
next
  fix v b assume "enc TBool v = Inr b"
  then obtain x where "v = VBool x" "b = enc_nat (if x then 1 else 0)" by (cases v) auto
  then show "b \<noteq> [] \<and> (\<exists>x. b = enc_nat (if x then 1 else 0) \<and> True \<and> Inr (VBool x) = Inr v)"
    by (intro conjI exI[of _ x]) simp_all
qed simp

text \<open>Raw values: one header and its content, or one byte.\<close>

definition raw_ok :: "byte list \<Rightarrow> bool" where
  "raw_ok b \<longleftrightarrow> (\<exists>x < 0x80. b = [x]) \<or> (\<exists>k c. k \<noteq> KByte \<and> b = headbytes k (of_nat (length c)) @ c)"

lemma decodes_raw: "decodes decodeRawValue (enc TRaw)"
proof (rule decodesI)
  fix s v s' assume a: "kind s = None" "good s" "decodeRawValue s = (Inr v, s')"
  then obtain r where r: "Raw s = (Inr r, s')" "v = VBytes r" by (auto simp: decodeRawValue_def res_simps)
  obtain k z t where t: "Kind s = (Inr (k, z), t)" using r(1) by (auto simp: Raw_def res_simps)
  note K = Kind_ok[OF a(1,2) t]
  have "consumed s r s' \<and> kind s' = None \<and> r \<noteq> []"
  proof (cases "k = KByte")
    case True
    then show ?thesis using r(1) K t by (auto simp: Raw_def bind_sm_def rearm_def)
  next
    case False
    then obtain b where b: "readFull z t = (Inr b, s')" "r = headbytes k z @ b"
      using r(1) by (cases k) (auto simp: Raw_def bind_sm_Inr[where m = Kind, OF t] res_simps)
    have "headbytes k z \<noteq> []" using False by (cases k) (auto simp: puthead_def Let_def)
    then show ?thesis using readFull_ok[OF _ b(1)] K False b(2) consumed_trans by auto
  qed
  then show "\<exists>b. enc TRaw v = Inr b \<and> b \<noteq> [] \<and> consumed s b s' \<and> kind s' = None" using r(2) by simp
next
  fix s s' assume a: "kind s = None" "good s" "decodeRawValue s = (Inl EOL, s')"
  then have "Raw s = (Inl EOL, s')" by (auto simp: decodeRawValue_def res_simps)
  then show "consumed s [] s' \<and> kind s' = None \<and> atEnd s'"
    unfolding Raw_def by (rule Kind_EOL_ok[OF a(1,2)]) (auto simp: res_simps rearm_def split: rkind.splits)
qed

lemma read_content:
  assumes "kind s = None" "good s" "R s = headbytes k (of_nat (length c)) @ c @ rest" "k \<noteq> KByte"
    and "room s (length (headbytes k (of_nat (length c)) @ c))" "length c < 2 ^ 64"
  shows "\<exists>t s'. Kind s = (Inr (k, of_nat (length c)), t) \<and> readFull (of_nat (length c)) t = (Inr c, s')
    \<and> consumed s (headbytes k (of_nat (length c)) @ c) s' \<and> kind s' = None"
proof -
  let ?z = "of_nat (length c) :: u64"
  have z: "unat ?z = length c" using assms(6) by (rule unat_of_nat_u64)
  obtain t where t: "Kind s = (Inr (k, ?z), t)" "consumed s (headbytes k ?z) t"
    using Kind_room[OF assms(1,2), of k ?z "c @ rest"] assms(3-5) z by auto
  have "good t" "R t = c @ rest" "room t (length c)"
    using consumed_good[OF t(2) assms(2)] t(2) assms(3) consumed_room[OF t(2), of "length c"] assms(5)
    by (simp_all add: consumed_def)
  then obtain s' where "readFull ?z t = (Inr c, s')" "consumed t c s'" "kind s' = None"
    using readFull_room[of t c rest ?z] z by auto
  then show ?thesis using t consumed_trans[OF t(2)] by blast
qed

lemma reads_back_raw: "reads_back N decodeRawValue (enc TRaw) (\<lambda>v. \<forall>b. v = VBytes b \<longrightarrow> raw_ok b)"
proof (rule reads_backI)
  fix s v b rest
  assume a: "kind s = None" "good s" "enc TRaw v = Inr b" "\<forall>b. v = VBytes b \<longrightarrow> raw_ok b" "R s = b @ rest"
    "room s (length b)" "length b < 2 ^ 64"
  then have v: "v = VBytes b" "raw_ok b" by (cases v; simp)+
  from v(2) have "b \<noteq> [] \<and> (\<exists>s'. Raw s = (Inr b, s') \<and> consumed s b s' \<and> kind s' = None)"
    unfolding raw_ok_def
  proof (elim disjE exE conjE)
    fix x assume x: "x < 0x80" "b = [x]"
    then obtain t where "Kind s = (Inr (KByte, 0), t)" "byteval t = x" "consumed s [x] t"
      using Kind_byte[OF a(1,2), of x rest] a(5,6) by auto
    then show ?thesis using x by (simp add: Raw_def bind_sm_def rearm_def)
  next
    fix k c assume k: "k \<noteq> KByte" "b = headbytes k (of_nat (length c)) @ c"
    then have "length c < 2 ^ 64" using a(7) by simp
    with k obtain t s' where "Kind s = (Inr (k, of_nat (length c)), t)" "readFull (of_nat (length c)) t = (Inr c, s')"
      "consumed s b s'" "kind s' = None"
      using read_content[OF a(1,2), of k c rest] a(5,6) by auto
    moreover have "b \<noteq> []" using k by (cases k) (auto simp: puthead_def Let_def)
    ultimately show ?thesis using k by (cases k) (simp_all add: Raw_def bind_sm_def)
  qed
  then show "b \<noteq> [] \<and> (\<exists>s'. decodeRawValue s = (Inr v, s') \<and> consumed s b s' \<and> kind s' = None)"
    using v(1) by (auto simp: decodeRawValue_def bind_sm_def)
next
  fix s assume "kind s = None" "good s" "atEnd s"
  from atEnd_reads(4)[OF this] show "\<exists>s'. decodeRawValue s = (Inl EOL, s') \<and> consumed s [] s' \<and> kind s' = None"
    by (auto simp: decodeRawValue_def bind_sm_def)
qed

text \<open>Byte arrays of any length but one.\<close>

lemma decodes_array:
  assumes "n \<noteq> 1"
  shows "decodes (decodeByteArray n) (enc (TByteArray n))"
proof (rule decodesI)
  fix s v s' assume a: "kind s = None" "good s" "decodeByteArray n s = (Inr v, s')"
  then obtain k z t where t: "Kind s = (Inr (k, z), t)" by (auto simp: decodeByteArray_def res_simps)
  note K = Kind_ok[OF a(1,2) t]
  have k: "k = KString" using a(3) assms
    by (cases k) (auto simp: decodeByteArray_def bind_sm_Inr[where m = Kind, OF t] split: if_splits)
  obtain b where b: "readFull z t = (Inr b, s')" "v = VBytes b" "\<not> (z = 1 \<and> b ! 0 < 128)"
    using a(3) k by (auto simp: decodeByteArray_def bind_sm_Inr[where m = Kind, OF t] res_simps split: if_splits)
  have f: "consumed t b s'" "kind s' = None" "length b = unat z" using readFull_ok[OF _ b(1)] K by auto
  have z: "of_nat (length b) = z" using f(3) by simp
  have "length b = 1 \<Longrightarrow> z = 1" using z by (metis of_nat_1)
  then have "\<not> (length b = 1 \<and> b ! 0 \<le> 0x7F)" using b(3) by (auto simp: word_less_nat_alt word_le_nat_alt)
  from enc_string_head[OF this] show "\<exists>b. enc (TByteArray n) v = Inr b \<and> b \<noteq> [] \<and> consumed s b s' \<and> kind s' = None"
    using consumed_trans[OF _ f(1)] K k b(2) f(2) z by auto
next
  fix s s' assume a: "kind s = None" "good s" "decodeByteArray n s = (Inl EOL, s')"
  then show "consumed s [] s' \<and> kind s' = None \<and> atEnd s'"
    unfolding decodeByteArray_def
    by (elim Kind_EOL_ok[rotated 2]) (auto simp: res_simps split: rkind.splits if_splits prod.splits sum.splits)
qed

lemma reads_back_array:
  assumes "n \<noteq> 1"
  shows "reads_back N (decodeByteArray n) (enc (TByteArray n)) (\<lambda>v. \<forall>b. v = VBytes b \<longrightarrow> length b = n)"
proof (rule reads_backI)
  fix s v b rest
  assume a: "kind s = None" "good s" "enc (TByteArray n) v = Inr b" "\<forall>b. v = VBytes b \<longrightarrow> length b = n"
    "R s = b @ rest" "room s (length b)" "length b < 2 ^ 64"
  then obtain c where c: "v = VBytes c" "b = enc_string c" "length c = n" by (cases v) auto
  have e: "b = headbytes KString (of_nat (length c)) @ c" using enc_string_head[of c] c assms by simp
  then have l: "length c < 2 ^ 64" using a(7) by simp
  then obtain t s' where "Kind s = (Inr (KString, of_nat n), t)" "readFull (of_nat n) t = (Inr c, s')"
      "consumed s b s'" "kind s' = None"
      using read_content[OF a(1,2), of KString c rest] a(5,6) e c(3) by auto
  moreover have "(of_nat n :: u64) \<noteq> 1" using l assms c(3) unat_of_nat_u64[of n] by (metis unat_1)
  ultimately show "b \<noteq> [] \<and> (\<exists>s'. decodeByteArray n s = (Inr v, s') \<and> consumed s b s' \<and> kind s' = None)"
    using c by (auto simp: decodeByteArray_def bind_sm_def)
qed (rule atEnd_reads(5))

subsection \<open>Lists\<close>

lemma List_ok:
  assumes "kind s = None" "good s" "List s = (Inr z, t)"
  shows "\<exists>u. consumed s (headbytes KList z) u \<and> fits u z \<and> good u \<and> t = u\<lparr>stack := (0, z) # stack u, kind := None, ssize := 0\<rparr>"
proof -
  obtain u where u: "Kind s = (Inr (KList, z), u)" "t = u\<lparr>stack := (0, z) # stack u, kind := None, ssize := 0\<rparr>"
    using assms(3) by (auto simp: List_def res_simps split: if_splits)
  then show ?thesis using Kind_ok[OF assms(1,2) u(1)] by auto
qed

text \<open>What was read between \<open>List\<close> and \<open>ListEnd\<close> is the payload.\<close>

lemma list_ok:
  assumes u: "consumed s (headbytes KList z) u" "fits u z" "good u"
    and p: "consumed (u\<lparr>stack := (0, z) # stack u, kind := None, ssize := 0\<rparr>) p v"
    and e: "ListEnd v = (Inr (), s')"
  shows "consumed s (enc_list p) s' \<and> kind s' = None"
proof -
  have v: "stack v = (z, z) # stack u" "length p = unat z" "R u = p @ R v" "limited v = limited u"
    "limited u \<longrightarrow> unat (remaining u) = length p + unat (remaining v)"
    using p e by (auto simp: consumed_def ListEnd_def split: if_splits)
  have z: "of_nat (length p) = z" using v(2) by simp
  have s': "R s' = R v" "limited s' = limited v" "remaining s' = remaining v" "kind s' = None"
    "stack s' = (case stack u of [] \<Rightarrow> [] | (a, b) # st \<Rightarrow> (a + z, b) # st)"
    using e v(1) by (auto simp: ListEnd_def split: if_splits)
  have "consumed u p s'"
  proof (cases "stack u")
    case Nil
    then show ?thesis using v s' by (simp add: consumed_def)
  next
    case (Cons ab st)
    obtain a b where ab: "ab = (a, b)" by (cases ab)
    have f: "unat a + unat z \<le> unat b" using u(2) Cons ab by (simp add: fits_def)
    then show ?thesis using v s' Cons ab unat_plus_fits[OF f] by (simp add: consumed_def word_le_nat_alt)
  qed
  moreover have "enc_list p = headbytes KList z @ p" by (simp add: enc_list_def z)
  ultimately show ?thesis using consumed_trans[OF u(1)] s'(4) by simp
qed

lemma list_room:
  assumes "kind s = None" "good s" "R s = enc_list p @ rest" "room s (length (enc_list p))" "length p < 2 ^ 64"
  shows "\<exists>t. List s = (Inr (of_nat (length p)), t) \<and> kind t = None \<and> good t \<and> R t = p @ rest \<and> room t (length p)
    \<and> (\<forall>v. consumed t p v \<longrightarrow> atEnd v \<and> (\<exists>s'. ListEnd v = (Inr (), s') \<and> consumed s (enc_list p) s' \<and> kind s' = None))"
proof -
  let ?z = "of_nat (length p) :: u64"
  have z: "unat ?z = length p" using assms(5) by (rule unat_of_nat_u64)
  have e: "enc_list p = headbytes KList ?z @ p" by (simp add: enc_list_def)
  obtain u where u: "Kind s = (Inr (KList, ?z), u)" "consumed s (headbytes KList ?z) u"
    using Kind_room[OF assms(1,2), of KList ?z "p @ rest"] assms(3,4) e z by auto
  let ?t = "u\<lparr>stack := (0, ?z) # stack u, kind := None, ssize := 0\<rparr>"
  have l: "List s = (Inr ?z, ?t)" using u(1) by (simp add: List_def bind_sm_def)
  have g: "good u" "fits u ?z" using Kind_ok[OF assms(1,2) u(1)] by auto
  have "room u (length p)" using consumed_room[OF u(2)] assms(4) e by simp
  then have t: "good ?t" "R ?t = p @ rest" "room ?t (length p)"
    using g(1) u(2) assms(3) e z by (auto simp: good_def consumed_def room_def)
  have "atEnd v \<and> (\<exists>s'. ListEnd v = (Inr (), s') \<and> consumed s (enc_list p) s' \<and> kind s' = None)"
    if v: "consumed ?t p v" for v
  proof -
    obtain q where q: "stack v = (q, ?z) # stack u" "unat q = length p" using v by (auto simp: consumed_def)
    then have "q = ?z" using z by (simp add: word_unat_eq_iff)
    then have "atEnd v" and "\<exists>s'. ListEnd v = (Inr (), s')" using q by (simp_all add: atEnd_def ListEnd_def)
    then show ?thesis using list_ok[OF u(2) g(2,1) v] by blast
  qed
  then show ?thesis using l t by auto
qed

subsection \<open>Slices, arrays and structs\<close>

lemma decodes_ok:
  assumes "decodes dec e" "kind s = None" "good s" "dec s = (Inr v, s')"
  obtains b where "e v = Inr b" "b \<noteq> []" "consumed s b s'" "kind s' = None" "good s'"
  using assms consumed_good unfolding decodes_def by blast

lemma decodes_EOL:
  assumes "decodes dec e" "kind s = None" "good s" "dec s = (Inl EOL, s')"
  shows "consumed s [] s' \<and> kind s' = None \<and> atEnd s'"
  using assms unfolding decodes_def by blast

lemma elems_ok:
  assumes "decodes dec e"
  shows "kind s = None \<Longrightarrow> good s \<Longrightarrow> decodeSliceElems n dec s = (Inr vs, s') \<Longrightarrow>
    \<exists>p. concat_enc e vs = Inr p \<and> consumed s p s' \<and> kind s' = None"
proof (induction n arbitrary: s vs)
  case (Suc n)
  show ?case
  proof (cases "dec s")
    case (Pair r t)
    show ?thesis
    proof (cases r)
      case (Inl err)
      then have "err = EOL" "vs = []" "s' = t" using Suc.prems(3) Pair by (auto split: if_splits)
      then show ?thesis using decodes_EOL[OF assms Suc.prems(1,2), of t] Pair Inl by simp
    next
      case (Inr v)
      then have d: "dec s = (Inr v, t)" using Pair by simp
      then obtain ws where ws: "decodeSliceElems n dec t = (Inr ws, s')" "vs = v # ws"
        using Suc.prems(3) by (auto simp: res_simps)
      obtain b where b: "e v = Inr b" "consumed s b t" "kind t = None" "good t"
        by (rule decodes_ok[OF assms Suc.prems(1,2) d])
      obtain p where "concat_enc e ws = Inr p" "consumed t p s'" "kind s' = None" using Suc.IH[OF b(3,4) ws(1)] by blast
      then show ?thesis using b ws(2) consumed_trans[OF b(2)] by simp
    qed
  qed
qed simp

lemma array_ok:
  assumes "decodes dec e"
  shows "kind s = None \<Longrightarrow> good s \<Longrightarrow> decodeArrayElems n dec s = (Inr vs, s') \<Longrightarrow>
    \<exists>p. concat_enc e vs = Inr p \<and> consumed s p s' \<and> kind s' = None"
proof (induction n arbitrary: s vs)
  case 0
  then show ?case using consumed_refl by simp
next
  case (Suc n)
  then obtain v t ws where v: "dec s = (Inr v, t)" "decodeArrayElems n dec t = (Inr ws, s')" "vs = v # ws"
    by (auto simp: res_simps)
  obtain b where b: "e v = Inr b" "consumed s b t" "kind t = None" "good t"
    by (rule decodes_ok[OF assms Suc.prems(1,2) v(1)])
  obtain p where "concat_enc e ws = Inr p" "consumed t p s'" "kind s' = None" using Suc.IH[OF b(3,4) v(2)] by blast
  then show ?case using b v(3) consumed_trans[OF b(2)] by simp
qed

lemma fields_ok:
  assumes "list_all2 decodes decs es"
  shows "kind s = None \<Longrightarrow> good s \<Longrightarrow> decodeFields decs s = (Inr vs, s') \<Longrightarrow>
    \<exists>p. concat_fields es vs = Inr p \<and> consumed s p s' \<and> kind s' = None"
  using assms
proof (induction decs es arbitrary: s vs rule: list_all2_induct)
  case Nil
  then show ?case using consumed_refl by simp
next
  case (Cons dec decs e es)
  obtain v t ws where v: "dec s = (Inr v, t)" "decodeFields decs t = (Inr ws, s')" "vs = v # ws"
    using Cons.prems(3) by (auto simp: res_simps)
  obtain b where b: "e v = Inr b" "consumed s b t" "kind t = None" "good t"
    by (rule decodes_ok[OF Cons.hyps(1) Cons.prems(1,2) v(1)])
  obtain p where "concat_fields es ws = Inr p" "consumed t p s'" "kind s' = None" using Cons.IH[OF b(3,4) v(2)] by blast
  then show ?case using b v(3) consumed_trans[OF b(2)] by simp
qed

text \<open>Reading a payload between \<open>List\<close> and \<open>ListEnd\<close>.\<close>

lemma decodes_list:
  assumes inner: "\<And>z s vs s'. kind s = None \<Longrightarrow> good s \<Longrightarrow> inner z s = (Inr vs, s') \<Longrightarrow>
      \<exists>p. e vs = Inr p \<and> consumed s p s' \<and> kind s' = None"
    and noEOL: "\<And>z s s'. inner z s \<noteq> (Inl EOL, s')" and g: "\<And>e. g e = EOL \<longleftrightarrow> e = EOL"
  shows "decodes (bind_sm (map_error wrapStreamError List) (\<lambda>z. bind_sm (inner z) (\<lambda>vs.
      bind_sm (map_error g ListEnd) (\<lambda>_. return_sm (VList vs)))))
    (\<lambda>v. case v of VList vs \<Rightarrow> bind_res (e vs) (\<lambda>p. Inr (enc_list p)) | _ \<Rightarrow> Inl NotSerializable)" (is "decodes ?dec ?e")
proof (rule decodesI)
  fix s v s' assume a: "kind s = None" "good s" "?dec s = (Inr v, s')"
  then obtain z t vs w where d: "List s = (Inr z, t)" "inner z t = (Inr vs, w)" "ListEnd w = (Inr (), s')" "v = VList vs"
    by (auto simp: res_simps)
  obtain u where u: "consumed s (headbytes KList z) u" "fits u z" "good u"
      "t = u\<lparr>stack := (0, z) # stack u, kind := None, ssize := 0\<rparr>"
    using List_ok[OF a(1,2) d(1)] by blast
  have "kind t = None" "good t" using u(3,4) by (auto simp: good_def)
  then obtain p where p: "e vs = Inr p" "consumed t p w" using inner d(2) by blast
  show "\<exists>b. ?e v = Inr b \<and> b \<noteq> [] \<and> consumed s b s' \<and> kind s' = None"
    using list_ok[OF u(1-3) p(2)[unfolded u(4)] d(3)] p(1) d(4) by simp
next
  fix s s' assume a: "kind s = None" "good s" "?dec s = (Inl EOL, s')"
  have "ListEnd w \<noteq> (Inl EOL, s')" for w by (auto simp: ListEnd_def split: list.splits if_splits)
  then have "List s = (Inl EOL, s')" using a(3) noEOL g by (auto simp: res_simps dest: sym)
  then show "consumed s [] s' \<and> kind s' = None \<and> atEnd s'" by (rule List_EOL[OF a(1,2)])
qed

definition sliceElems :: "nat \<Rightarrow> rval reader \<Rightarrow> u64 \<Rightarrow> rval list reader" where
  "sliceElems fuel dec z = (if z = 0 then return_sm [] else decodeSliceElems fuel dec)"

lemma decodeListSlice_eq:
  "decodeListSlice fuel dec = bind_sm (map_error wrapStreamError List) (\<lambda>z. bind_sm (sliceElems fuel dec z) (\<lambda>vs.
     bind_sm (map_error (\<lambda>e. e) ListEnd) (\<lambda>_. return_sm (VList vs))))"
  by (rule ext) (auto simp: decodeListSlice_def sliceElems_def bind_sm_def map_error_def split: prod.splits sum.splits)

lemma elems_not_EOL: "decodeSliceElems n dec s \<noteq> (Inl EOL, s')"
  by (induction n arbitrary: s) (auto simp: res_simps split: prod.splits sum.splits if_splits)

lemma array_not_EOL: "decodeArrayElems n dec s \<noteq> (Inl EOL, s')"
  by (induction n arbitrary: s) (auto simp: res_simps split: if_splits)

lemma fields_not_EOL: "decodeFields decs s \<noteq> (Inl EOL, s')"
  by (induction decs arbitrary: s) (auto simp: res_simps split: if_splits)

lemma decodes_slice:
  assumes "decodes dec (enc t)"
  shows "decodes (decodeListSlice fuel dec) (enc (TSlice t False))"
proof -
  have "\<exists>p. concat_enc (enc t) vs = Inr p \<and> consumed s p s' \<and> kind s' = None"
    if "kind s = None" "good s" "sliceElems fuel dec z s = (Inr vs, s')" for z s vs s'
    using that elems_ok[OF assms] consumed_refl by (auto simp: sliceElems_def split: if_splits)
  moreover have "sliceElems fuel dec z s \<noteq> (Inl EOL, s')" for z s s'
    by (simp add: sliceElems_def elems_not_EOL)
  ultimately show ?thesis
    unfolding decodeListSlice_eq enc.simps if_False by (rule decodes_list) auto
qed

lemma decodes_list_array:
  assumes "decodes dec (enc t)"
  shows "decodes (decodeListArray n dec) (enc (TArray n t))"
  unfolding decodeListArray_def enc.simps
  by (rule decodes_list) (auto simp: array_not_EOL dest: array_ok[OF assms])

lemma decodes_struct:
  assumes "list_all2 decodes decs (map enc ts)"
  shows "decodes (structDecoder decs) (enc (TStruct ts))"
  unfolding structDecoder_def enc.simps
  by (rule decodes_list) (auto simp: fields_not_EOL dest: fields_ok[OF assms])

lemma decodes_ptr:
  assumes "decodes dec (enc t)"
  shows "decodes (ptrDecoder dec) (enc (TPtr t nilOK))"
proof (rule decodesI)
  fix s v s' assume a: "kind s = None" "good s" "ptrDecoder dec s = (Inr v, s')"
  then obtain w where w: "dec s = (Inr w, s')" "v = VPtr w" by (auto simp: ptrDecoder_def res_simps)
  show "\<exists>b. enc (TPtr t nilOK) v = Inr b \<and> b \<noteq> [] \<and> consumed s b s' \<and> kind s' = None"
    by (rule decodes_ok[OF assms a(1,2) w(1)]) (simp add: w(2))
next
  fix s s' assume a: "kind s = None" "good s" "ptrDecoder dec s = (Inl EOL, s')"
  then have "dec s = (Inl EOL, s')" by (auto simp: ptrDecoder_def res_simps)
  then show "consumed s [] s' \<and> kind s' = None \<and> atEnd s'" by (rule decodes_EOL[OF assms a(1,2)])
qed

text \<open>
  The types the theorems are about: no \<open>tail\<close> and \<open>nil\<close> tags, the sizes Go has for integers, and
  no \<open>[1]byte\<close>.
\<close>

primrec plain :: "rtype \<Rightarrow> bool" where
  "plain TRaw = True"
| "plain TBigPtr = True"
| "plain TBig = True"
| "plain (TUint n) = (n \<in> {8, 16, 32, 64})"
| "plain TBool = True"
| "plain TString = True"
| "plain TBytes = True"
| "plain (TByteArray n) = (n \<noteq> 1 \<and> n < 2 ^ 63)"
| "plain (TSlice t tail) = (\<not> tail \<and> plain t)"
| "plain (TArray n t) = plain t"
| "plain (TStruct ts) = list_all id (map plain ts)"
| "plain (TPtr t nilOK) = (\<not> nilOK \<and> plain t)"

lemma decodes_cong: "decodes dec e \<Longrightarrow> (\<And>v b. e v = Inr b \<Longrightarrow> e' v = Inr b) \<Longrightarrow> decodes dec e'"
  unfolding decodes_def by meson

lemma makeDecoder_decodes: "plain t \<Longrightarrow> decodes (makeDecoder N t) (enc t)"
proof (induction t)
  case TBigPtr
  show ?case unfolding makeDecoder.simps by (rule decodes_cong[OF decodes_big]) (auto split: rval.splits)
next
  case TBytes
  show ?case unfolding makeDecoder.simps by (rule decodes_cong[OF decodes_string]) simp
next
  case (TUint n)
  then show ?case unfolding makeDecoder.simps by (intro decodes_uint) auto
next
  case (TByteArray n)
  then show ?case unfolding makeDecoder.simps by (intro decodes_array) simp
next
  case (TSlice t tail)
  then show ?case using decodes_slice[of "makeDecoder N t" t N] by (simp del: enc.simps)
next
  case (TArray n t)
  then show ?case unfolding makeDecoder.simps by (intro decodes_list_array) simp
next
  case (TStruct ts)
  then have "list_all2 decodes (map (makeDecoder N) ts) (map enc ts)"
    by (auto simp: list_all2_conv_all_nth list_all_iff)
  then show ?case unfolding makeDecoder.simps by (rule decodes_struct)
next
  case (TPtr t nilOK)
  then show ?case using decodes_ptr[of "makeDecoder N t" t nilOK] by (simp del: enc.simps)
qed (simp_all only: makeDecoder.simps decodes_raw decodes_big decodes_bool decodes_string)

subsection \<open>Reading back\<close>

lemma reads_back_ok:
  assumes "reads_back N dec e W" "kind s = None" "good s" "e v = Inr b" "W v" "R s = b @ rest" "room s (length b)"
    "length b < N" "length b < 2 ^ 64"
  obtains s' where "b \<noteq> []" "dec s = (Inr v, s')" "consumed s b s'" "kind s' = None" "good s'"
  using assms consumed_good unfolding reads_back_def by blast

lemma reads_back_EOL:
  assumes "reads_back N dec e W" "kind s = None" "good s" "atEnd s"
  obtains s' where "dec s = (Inl EOL, s')" "consumed s [] s'" "kind s' = None"
  using assms unfolding reads_back_def by blast

lemma concat_enc_length:
  assumes "concat_enc e vs = Inr p" "\<And>v b. v \<in> set vs \<Longrightarrow> e v = Inr b \<Longrightarrow> b \<noteq> []"
  shows "length vs \<le> length p"
  using assms
proof (induction vs arbitrary: p)
  case (Cons v vs)
  then obtain b q where b: "e v = Inr b" "concat_enc e vs = Inr q" "p = b @ q" by (auto simp: res_simps)
  have "b \<noteq> []" by (rule Cons.prems(2)[OF _ b(1)]) simp
  then have "1 \<le> length b" by (simp add: Suc_le_eq)
  moreover have "length vs \<le> length q" by (rule Cons.IH[OF b(2)]) (use Cons.prems(2) in auto)
  ultimately show ?case using b(3) by simp
qed simp

text \<open>One element in front of the rest of the payload.\<close>

lemma read_step:
  assumes "reads_back N dec e W" "kind s = None" "good s" "e v = Inr b" "W v" "R s = (b @ q) @ rest"
    "room s (length (b @ q))" "length (b @ q) < N" "length (b @ q) < 2 ^ 64"
  obtains t where "dec s = (Inr v, t)" "consumed s b t" "kind t = None" "good t" "R t = q @ rest" "room t (length q)"
proof -
  have "room s (length b)" using assms(7) by (auto simp: room_def split: list.splits)
  then obtain t where t: "dec s = (Inr v, t)" "consumed s b t" "kind t = None" "good t"
    using assms by (elim reads_back_ok[where rest = "q @ rest"]) auto
  have "R t = q @ rest" using t(2) assms(6) by (simp add: consumed_def)
  moreover have "room t (length q)" using consumed_room[OF t(2)] assms(7) by simp
  ultimately show ?thesis using that t by blast
qed

lemma elems_room:
  assumes rb: "reads_back N dec e W"
  shows "kind s = None \<Longrightarrow> good s \<Longrightarrow> concat_enc e vs = Inr p \<Longrightarrow> (\<forall>v \<in> set vs. W v) \<Longrightarrow> R s = p @ rest \<Longrightarrow>
    room s (length p) \<Longrightarrow> length p < N \<Longrightarrow> length p < 2 ^ 64 \<Longrightarrow> length vs < n \<Longrightarrow>
    (\<forall>u. consumed s p u \<longrightarrow> atEnd u) \<Longrightarrow>
    \<exists>s'. decodeSliceElems n dec s = (Inr vs, s') \<and> consumed s p s' \<and> kind s' = None"
proof (induction vs arbitrary: n s p)
  case Nil
  then have p: "p = []" and "atEnd s" using consumed_refl[of s] by auto
  obtain s' where "dec s = (Inl EOL, s')" "consumed s [] s'" "kind s' = None"
    by (rule reads_back_EOL[OF rb Nil.prems(1,2) \<open>atEnd s\<close>])
  then show ?case using Nil.prems(9) p by (cases n) simp_all
next
  case (Cons v vs)
  obtain m where n: "n = Suc m" using Cons.prems(9) by (cases n) auto
  obtain b q where b: "e v = Inr b" "concat_enc e vs = Inr q" "p = b @ q"
    using Cons.prems(3) by (auto simp: res_simps)
  obtain t where t: "dec s = (Inr v, t)" "consumed s b t" "kind t = None" "good t" "R t = q @ rest" "room t (length q)"
    by (rule read_step[OF rb Cons.prems(1,2) b(1), of q rest]) (use Cons.prems b(3) in auto)
  have "\<forall>u. consumed t q u \<longrightarrow> atEnd u" using Cons.prems(10) consumed_trans[OF t(2)] b(3) by blast
  then obtain s' where "decodeSliceElems m dec t = (Inr vs, s')" "consumed t q s'" "kind s' = None"
    using Cons.IH[OF t(3,4) b(2) _ t(5,6), of m] Cons.prems(4,7-9) b(3) n by auto
  then show ?case using t(1) n b(3) consumed_trans[OF t(2)] by (auto simp: bind_sm_def)
qed

lemma array_room:
  assumes rb: "reads_back N dec e W"
  shows "kind s = None \<Longrightarrow> good s \<Longrightarrow> concat_enc e vs = Inr p \<Longrightarrow> (\<forall>v \<in> set vs. W v) \<Longrightarrow> R s = p @ rest \<Longrightarrow>
    room s (length p) \<Longrightarrow> length p < N \<Longrightarrow> length p < 2 ^ 64 \<Longrightarrow>
    \<exists>s'. decodeArrayElems (length vs) dec s = (Inr vs, s') \<and> consumed s p s' \<and> kind s' = None"
proof (induction vs arbitrary: s p)
  case Nil
  then show ?case using consumed_refl by auto
next
  case (Cons v vs)
  obtain b q where b: "e v = Inr b" "concat_enc e vs = Inr q" "p = b @ q"
    using Cons.prems(3) by (auto simp: res_simps)
  obtain t where t: "dec s = (Inr v, t)" "consumed s b t" "kind t = None" "good t" "R t = q @ rest" "room t (length q)"
    by (rule read_step[OF rb Cons.prems(1,2) b(1), of q rest]) (use Cons.prems b(3) in auto)
  obtain s' where "decodeArrayElems (length vs) dec t = (Inr vs, s')" "consumed t q s'" "kind s' = None"
    using Cons.IH[OF t(3,4) b(2) _ t(5,6)] Cons.prems(4,7,8) b(3) by auto
  then show ?case using t(1) b(3) consumed_trans[OF t(2)] by (auto simp: bind_sm_def map_error_def)
qed

fun fields_wt :: "(rval \<Rightarrow> bool) list \<Rightarrow> rval list \<Rightarrow> bool" where
  "fields_wt [] [] = True"
| "fields_wt (W # Ws) (v # vs) = (W v \<and> fields_wt Ws vs)"
| "fields_wt _ _ = False"

lemma fields_room:
  assumes "list_all2 (\<lambda>(dec, e) W. reads_back N dec e W) (zip decs es) Ws" "length decs = length es"
  shows "kind s = None \<Longrightarrow> good s \<Longrightarrow> concat_fields es vs = Inr p \<Longrightarrow> fields_wt Ws vs \<Longrightarrow> R s = p @ rest \<Longrightarrow>
    room s (length p) \<Longrightarrow> length p < N \<Longrightarrow> length p < 2 ^ 64 \<Longrightarrow>
    \<exists>s'. decodeFields decs s = (Inr vs, s') \<and> consumed s p s' \<and> kind s' = None"
  using assms(2,1)
proof (induction decs es arbitrary: s p vs Ws rule: list_induct2)
  case Nil
  then show ?case using consumed_refl by (cases vs) auto
next
  case (Cons dec decs e es)
  obtain W Ws' where W: "Ws = W # Ws'" "reads_back N dec e W"
    "list_all2 (\<lambda>(dec, e) W. reads_back N dec e W) (zip decs es) Ws'"
    using Cons.prems(9) by (auto simp: list_all2_Cons1)
  obtain v vs' where vs: "vs = v # vs'" "W v" "fields_wt Ws' vs'" using Cons.prems(4) W(1) by (cases vs) auto
  obtain b q where b: "e v = Inr b" "concat_fields es vs' = Inr q" "p = b @ q"
    using Cons.prems(3) vs(1) by (auto simp: res_simps)
  obtain t where t: "dec s = (Inr v, t)" "consumed s b t" "kind t = None" "good t" "R t = q @ rest" "room t (length q)"
    by (rule read_step[OF W(2) Cons.prems(1,2) b(1) vs(2), of q rest]) (use Cons.prems b(3) in auto)
  obtain s' where "decodeFields decs t = (Inr vs', s')" "consumed t q s'" "kind s' = None"
    using Cons.IH[OF t(3,4) b(2) vs(3) t(5,6) _ _ W(3)] Cons.prems(7,8) b(3) by auto
  then show ?case using t(1) b(3) vs(1) consumed_trans[OF t(2)] by (auto simp: bind_sm_def map_error_def)
qed

lemma length_enc_list: "length p < length (enc_list p)"
  by (simp add: enc_list_def length_puthead headsize_def)

lemma reads_back_list:
  assumes inner: "\<And>s vs p rest. kind s = None \<Longrightarrow> good s \<Longrightarrow> e vs = Inr p \<Longrightarrow> W vs \<Longrightarrow> R s = p @ rest \<Longrightarrow>
      room s (length p) \<Longrightarrow> length p < N \<Longrightarrow> length p < 2 ^ 64 \<Longrightarrow> (\<forall>u. consumed s p u \<longrightarrow> atEnd u) \<Longrightarrow>
      \<exists>s'. inner (of_nat (length p)) s = (Inr vs, s') \<and> consumed s p s' \<and> kind s' = None"
  shows "reads_back N (bind_sm (map_error wrapStreamError List) (\<lambda>z. bind_sm (inner z) (\<lambda>vs.
      bind_sm (map_error g ListEnd) (\<lambda>_. return_sm (VList vs)))))
    (\<lambda>v. case v of VList vs \<Rightarrow> bind_res (e vs) (\<lambda>p. Inr (enc_list p)) | _ \<Rightarrow> Inl NotSerializable)
    (\<lambda>v. case v of VList vs \<Rightarrow> W vs | _ \<Rightarrow> False)" (is "reads_back N ?dec ?e ?W")
proof (rule reads_backI)
  fix s v b rest
  assume a: "kind s = None" "good s" "?e v = Inr b" "?W v" "R s = b @ rest" "room s (length b)" "length b < N" "length b < 2 ^ 64"
  then obtain vs p where v: "v = VList vs" "e vs = Inr p" "W vs" "b = enc_list p"
    by (auto simp: res_simps split: rval.splits)
  have l: "length p < N" "length p < 2 ^ 64" using a(7,8) order.strict_trans[OF length_enc_list[of p]] by (simp_all only: v(4))
  obtain t where t: "List s = (Inr (of_nat (length p)), t)" "kind t = None" "good t" "R t = p @ rest" "room t (length p)"
    and e: "\<And>u. consumed t p u \<Longrightarrow> atEnd u \<and> (\<exists>s'. ListEnd u = (Inr (), s') \<and> consumed s b s' \<and> kind s' = None)"
    using list_room[OF a(1,2), of p rest] a(5,6) l(2) v(4) by auto
  obtain u where u: "inner (of_nat (length p)) t = (Inr vs, u)" "consumed t p u"
    using inner[OF t(2,3) v(2,3) t(4,5) l] e by blast
  then obtain s' where "ListEnd u = (Inr (), s')" "consumed s b s'" "kind s' = None" using e by blast
  then show "b \<noteq> [] \<and> (\<exists>s'. ?dec s = (Inr v, s') \<and> consumed s b s' \<and> kind s' = None)"
    using t(1) u(1) v by (simp add: bind_sm_def map_error_def)
next
  fix s assume "kind s = None" "good s" "atEnd s"
  from atEnd_reads(3)[OF this] show "\<exists>s'. ?dec s = (Inl EOL, s') \<and> consumed s [] s' \<and> kind s' = None"
    by (auto simp: bind_sm_def map_error_def)
qed

lemma reads_back_slice:
  assumes "reads_back N dec (enc t) W" "\<And>v b. W v \<Longrightarrow> enc t v = Inr b \<Longrightarrow> b \<noteq> []"
  shows "reads_back N (decodeListSlice N dec) (enc (TSlice t False))
    (\<lambda>v. case v of VList vs \<Rightarrow> (\<forall>v \<in> set vs. W v) | _ \<Rightarrow> False)"
  unfolding decodeListSlice_eq enc.simps if_False
proof (rule reads_back_list)
  fix s vs p rest
  assume a: "kind s = None" "good s" "concat_enc (enc t) vs = Inr p" "\<forall>v \<in> set vs. W v" "R s = p @ rest"
    "room s (length p)" "length p < N" "length p < 2 ^ 64" "\<forall>u. consumed s p u \<longrightarrow> atEnd u"
  have l: "length vs \<le> length p" using concat_enc_length[OF a(3)] a(4) assms(2) by blast
  show "\<exists>s'. sliceElems N dec (of_nat (length p)) s = (Inr vs, s') \<and> consumed s p s' \<and> kind s' = None"
  proof (cases "p = []")
    case True
    then show ?thesis using l a(1,2) consumed_refl by (simp add: sliceElems_def)
  next
    case False
    have "(of_nat (length p) :: u64) \<noteq> 0" using False unat_of_nat_u64[OF a(8)] by (metis length_0_conv unat_0)
    then show ?thesis using elems_room[OF assms(1) a(1-8) _ a(9), of N] l a(7) by (simp add: sliceElems_def)
  qed
qed

lemma reads_back_list_array:
  assumes "reads_back N dec (enc t) W"
  shows "reads_back N (decodeListArray n dec) (enc (TArray n t))
    (\<lambda>v. case v of VList vs \<Rightarrow> length vs = n \<and> (\<forall>v \<in> set vs. W v) | _ \<Rightarrow> False)"
  unfolding decodeListArray_def enc.simps
  by (rule reads_back_list) (use array_room[OF assms] in blast)

lemma reads_back_struct:
  assumes "list_all2 (\<lambda>(dec, e) W. reads_back N dec e W) (zip decs (map enc ts)) Ws" "length decs = length ts"
  shows "reads_back N (structDecoder decs) (enc (TStruct ts)) (\<lambda>v. case v of VList vs \<Rightarrow> fields_wt Ws vs | _ \<Rightarrow> False)"
  unfolding structDecoder_def enc.simps
  by (rule reads_back_list) (use fields_room[OF assms(1)] assms(2) in auto)

lemma reads_back_ptr:
  assumes "reads_back N dec (enc t) W"
  shows "reads_back N (ptrDecoder dec) (enc (TPtr t nilOK)) (\<lambda>v. case v of VPtr w \<Rightarrow> W w | _ \<Rightarrow> False)"
proof (rule reads_backI)
  fix s v b rest
  assume a: "kind s = None" "good s" "enc (TPtr t nilOK) v = Inr b" "case v of VPtr w \<Rightarrow> W w | _ \<Rightarrow> False"
    "R s = b @ rest" "room s (length b)" "length b < N" "length b < 2 ^ 64"
  then obtain w where w: "v = VPtr w" "W w" "enc t w = Inr b" by (cases v) auto
  show "b \<noteq> [] \<and> (\<exists>s'. ptrDecoder dec s = (Inr v, s') \<and> consumed s b s' \<and> kind s' = None)"
    by (rule reads_back_ok[OF assms a(1,2) w(3,2) a(5-8)]) (auto simp: ptrDecoder_def bind_sm_def w(1))
next
  fix s assume a: "kind s = None" "good s" "atEnd s"
  show "\<exists>s'. ptrDecoder dec s = (Inl EOL, s') \<and> consumed s [] s' \<and> kind s' = None"
    by (rule reads_back_EOL[OF assms a]) (auto simp: ptrDecoder_def bind_sm_def)
qed

text \<open>The values of a type that have an encoding of their own.\<close>

primrec wt :: "rtype \<Rightarrow> rval \<Rightarrow> bool" where
  "wt TRaw = (\<lambda>v. case v of VBytes b \<Rightarrow> raw_ok b | _ \<Rightarrow> False)"
| "wt TBigPtr = (\<lambda>v. case v of VBig i \<Rightarrow> True | _ \<Rightarrow> False)"
| "wt TBig = (\<lambda>v. case v of VBig i \<Rightarrow> True | _ \<Rightarrow> False)"
| "wt (TUint n) = (\<lambda>v. case v of VUint i \<Rightarrow> unat i < 256 ^ (n div 8) | _ \<Rightarrow> False)"
| "wt TBool = (\<lambda>v. case v of VBool b \<Rightarrow> True | _ \<Rightarrow> False)"
| "wt TString = (\<lambda>v. case v of VBytes b \<Rightarrow> True | _ \<Rightarrow> False)"
| "wt TBytes = (\<lambda>v. case v of VBytes b \<Rightarrow> True | _ \<Rightarrow> False)"
| "wt (TByteArray n) = (\<lambda>v. case v of VBytes b \<Rightarrow> length b = n | _ \<Rightarrow> False)"
| "wt (TSlice t tail) = (\<lambda>v. case v of VList vs \<Rightarrow> (\<forall>x \<in> set vs. wt t x) | _ \<Rightarrow> False)"
| "wt (TArray n t) = (\<lambda>v. case v of VList vs \<Rightarrow> length vs = n \<and> (\<forall>x \<in> set vs. wt t x) | _ \<Rightarrow> False)"
| "wt (TStruct ts) = (\<lambda>v. case v of VList vs \<Rightarrow> fields_wt (map wt ts) vs | _ \<Rightarrow> False)"
| "wt (TPtr t nilOK) = (\<lambda>v. case v of VPtr w \<Rightarrow> wt t w | _ \<Rightarrow> False)"

lemma reads_back_cong:
  assumes "reads_back N dec e W" "\<And>v b. W' v \<Longrightarrow> e' v = Inr b \<Longrightarrow> W v \<and> e v = Inr b"
  shows "reads_back N dec e' W'"
proof (rule reads_backI)
  fix s v b rest
  assume a: "kind s = None" "good s" "e' v = Inr b" "W' v" "R s = b @ rest" "room s (length b)" "length b < N" "length b < 2 ^ 64"
  then have "W v" "e v = Inr b" using assms(2) by auto
  then show "b \<noteq> [] \<and> (\<exists>s'. dec s = (Inr v, s') \<and> consumed s b s' \<and> kind s' = None)"
    using reads_back_ok[OF assms(1) a(1,2) _ _ a(5-8)] by blast
next
  fix s assume a: "kind s = None" "good s" "atEnd s"
  show "\<exists>s'. dec s = (Inl EOL, s') \<and> consumed s [] s' \<and> kind s' = None"
    by (rule reads_back_EOL[OF assms(1) a]) blast
qed

lemma headbytes_nonempty: "k \<noteq> KByte \<Longrightarrow> headbytes k z \<noteq> []"
  by (cases k) (auto simp: puthead_def Let_def)

lemma raw_ok_nonempty: "raw_ok b \<Longrightarrow> b \<noteq> []"
  using headbytes_nonempty by (auto simp: raw_ok_def)

lemma enc_nonempty: "plain t \<Longrightarrow> wt t v \<Longrightarrow> enc t v = Inr b \<Longrightarrow> b \<noteq> []"
  by (induction t arbitrary: v b)
    (auto simp: res_simps enc_big_def raw_ok_nonempty split: rval.splits if_splits)

lemma makeDecoder_reads_back: "plain t \<Longrightarrow> reads_back N (makeDecoder N t) (enc t) (wt t)"
proof (induction t)
  case TRaw
  show ?case unfolding makeDecoder.simps by (rule reads_back_cong[OF reads_back_raw]) (auto split: rval.splits)
next
  case TBigPtr
  show ?case unfolding makeDecoder.simps by (rule reads_back_cong[OF reads_back_big]) (auto split: rval.splits)
next
  case TBig
  show ?case unfolding makeDecoder.simps by (rule reads_back_cong[OF reads_back_big]) auto
next
  case TBool
  show ?case unfolding makeDecoder.simps by (rule reads_back_cong[OF reads_back_bool]) auto
next
  case TString
  show ?case unfolding makeDecoder.simps by (rule reads_back_cong[OF reads_back_string]) auto
next
  case TBytes
  show ?case unfolding makeDecoder.simps by (rule reads_back_cong[OF reads_back_string]) auto
next
  case (TUint n)
  then have "8 \<le> n" "n \<le> 64" by auto
  then show ?case unfolding makeDecoder.simps by (intro reads_back_cong[OF reads_back_uint]) (auto split: rval.splits)
next
  case (TByteArray n)
  then show ?case unfolding makeDecoder.simps by (intro reads_back_cong[OF reads_back_array]) (auto split: rval.splits)
next
  case (TSlice t tail)
  then have p: "plain t" "tail = False" by auto
  show ?case
    unfolding p(2) makeDecoder.simps wt.simps if_False
    by (rule reads_back_slice[OF TSlice.IH[OF p(1)]]) (rule enc_nonempty[OF p(1)])
next
  case (TArray n t)
  then show ?case using reads_back_list_array[of N "makeDecoder N t" t "wt t" n] by simp
next
  case (TStruct ts)
  have "list_all2 (\<lambda>(dec, e) W. reads_back N dec e W) (zip (map (makeDecoder N) ts) (map enc ts)) (map wt ts)"
    using TStruct by (auto simp: list_all2_conv_all_nth list_all_iff)
  from reads_back_struct[OF this] show ?case by simp
next
  case (TPtr t nilOK)
  then show ?case using reads_back_ptr[of N "makeDecoder N t" t "wt t" nilOK] by simp
qed

subsection \<open>Decoded values have the type\<close>

definition yields :: "rval reader \<Rightarrow> (rval \<Rightarrow> bool) \<Rightarrow> bool" where
  "yields dec W \<longleftrightarrow> (\<forall>s v s'. kind s = None \<longrightarrow> good s \<longrightarrow> dec s = (Inr v, s') \<longrightarrow> W v)"

lemma uint_bound:
  assumes "kind s = None" "good s" "uint_stream bits s = (Inr v, s')" "8 \<le> bits" "bits \<le> 64"
  shows "unat v < 256 ^ (bits div 8)"
proof -
  obtain k z t where t: "Kind s = (Inr (k, z), t)" using assms(3) by (auto simp: uint_stream_def res_simps)
  have c: "k = KByte \<and> v = ucast (byteval t) \<or>
      k = KString \<and> z \<le> of_nat (bits div 8) \<and> readUint (unat z) t = (Inr v, s')"
    using assms(3)
    by (cases k) (auto simp: uint_stream_def bind_sm_Inr[where m = Kind, OF t] res_simps not_less split: if_splits)
  have b8: "1 \<le> bits div 8" "bits div 8 \<le> 8" using assms(4,5) by linarith+
  then have p: "(256 :: nat) ^ 1 \<le> 256 ^ (bits div 8)" by (intro power_increasing) auto
  from c show ?thesis
  proof
    assume "k = KByte \<and> v = ucast (byteval t)"
    then show ?thesis using p unat_byte_less[of "byteval t"] by simp
  next
    assume b: "k = KString \<and> z \<le> of_nat (bits div 8) \<and> readUint (unat z) t = (Inr v, s')"
    have "unat (of_nat (bits div 8) :: u64) = bits div 8" using b8 by (intro unat_of_nat_u64) simp
    then have z: "unat z \<le> bits div 8" using b by (simp add: word_le_nat_alt)
    show ?thesis
    proof (cases "z = 0")
      case True
      then show ?thesis using b by (auto simp: readUint_def)
    next
      case False
      then have "1 \<le> unat z" by (simp add: Suc_le_eq unat_gt_0)
      then obtain bs where "length bs = unat z" "unat v = be_nat bs"
        using readUint_ok[of t "unat z" v s'] b z b8 Kind_ok[OF assms(1,2) t] by auto
      then have "unat v < 256 ^ unat z" using be_nat_less[of bs] by simp
      also have "(256 :: nat) ^ unat z \<le> 256 ^ (bits div 8)" using z by (rule power_increasing) simp
      finally show ?thesis .
    qed
  qed
qed

lemma Raw_raw_ok:
  assumes "kind s = None" "good s" "Raw s = (Inr r, s')"
  shows "raw_ok r"
proof -
  obtain k z t where t: "Kind s = (Inr (k, z), t)" using assms(3) by (auto simp: Raw_def res_simps)
  note K = Kind_ok[OF assms(1,2) t]
  show ?thesis
  proof (cases "k = KByte")
    case True
    then show ?thesis using assms(3) K t by (auto simp: Raw_def bind_sm_def rearm_def raw_ok_def)
  next
    case False
    then obtain b where b: "readFull z t = (Inr b, s')" "r = headbytes k z @ b"
      using assms(3) by (cases k) (auto simp: Raw_def bind_sm_Inr[where m = Kind, OF t] res_simps)
    have "length b = unat z" using readFull_ok[OF _ b(1)] K by auto
    then have "of_nat (length b) = z" by simp
    then show ?thesis using False b(2) unfolding raw_ok_def by blast
  qed
qed

lemma yields_array:
  assumes "n \<noteq> 1" "n < 2 ^ 63"
  shows "yields (decodeByteArray n) (wt (TByteArray n))"
  unfolding yields_def
proof (intro allI impI)
  fix s v s' assume a: "kind s = None" "good s" "decodeByteArray n s = (Inr v, s')"
  then obtain k z t where t: "Kind s = (Inr (k, z), t)" by (auto simp: decodeByteArray_def res_simps)
  have k: "k = KString" using a(3) assms
    by (cases k) (auto simp: decodeByteArray_def bind_sm_Inr[where m = Kind, OF t] split: if_splits)
  have nz: "\<not> of_nat n < z" "\<not> z < of_nat n"
    using a(3) k by (simp_all add: decodeByteArray_def bind_sm_Inr[where m = Kind, OF t] split: if_splits)
  have z: "z = of_nat n" by (rule linorder_cases[of z "of_nat n"]) (use nz in blast)+
  obtain b where b: "readFull z t = (Inr b, s')" "v = VBytes b"
    using a(3) k nz by (auto simp: decodeByteArray_def bind_sm_Inr[where m = Kind, OF t] res_simps split: if_splits)
  have "length b = unat z" using readFull_ok[OF _ b(1)] Kind_ok[OF a(1,2) t] by auto
  moreover have "unat (of_nat n :: u64) = n" using assms(2) by (intro unat_of_nat_u64) simp
  ultimately show "wt (TByteArray n) v" using b(2) z by simp
qed

lemma elems_yield:
  assumes "decodes dec e" "yields dec W"
  shows "kind s = None \<Longrightarrow> good s \<Longrightarrow> decodeSliceElems n dec s = (Inr vs, s') \<Longrightarrow> \<forall>v \<in> set vs. W v"
proof (induction n arbitrary: s vs)
  case (Suc n)
  show ?case
  proof (cases "dec s")
    case (Pair r t)
    show ?thesis
    proof (cases r)
      case (Inl err)
      then show ?thesis using Suc.prems(3) Pair by (auto split: if_splits)
    next
      case (Inr v)
      then have d: "dec s = (Inr v, t)" using Pair by simp
      then obtain ws where ws: "decodeSliceElems n dec t = (Inr ws, s')" "vs = v # ws"
        using Suc.prems(3) by (auto simp: res_simps)
      have "W v" using assms(2) Suc.prems(1,2) d unfolding yields_def by blast
      moreover have "\<forall>v \<in> set ws. W v"
        by (rule decodes_ok[OF assms(1) Suc.prems(1,2) d]) (rule Suc.IH[OF _ _ ws(1)])
      ultimately show ?thesis using ws(2) by simp
    qed
  qed
qed simp

lemma array_yield:
  assumes "decodes dec e" "yields dec W"
  shows "kind s = None \<Longrightarrow> good s \<Longrightarrow> decodeArrayElems n dec s = (Inr vs, s') \<Longrightarrow> length vs = n \<and> (\<forall>v \<in> set vs. W v)"
proof (induction n arbitrary: s vs)
  case (Suc n)
  then obtain v t ws where v: "dec s = (Inr v, t)" "decodeArrayElems n dec t = (Inr ws, s')" "vs = v # ws"
    by (auto simp: res_simps)
  have "W v" using assms(2) Suc.prems(1,2) v(1) unfolding yields_def by blast
  moreover have "length ws = n \<and> (\<forall>v \<in> set ws. W v)"
    by (rule decodes_ok[OF assms(1) Suc.prems(1,2) v(1)]) (rule Suc.IH[OF _ _ v(2)])
  ultimately show ?case using v(3) by simp
qed simp

lemma fields_yield:
  assumes "list_all2 decodes decs es" "list_all2 yields decs Ws"
  shows "kind s = None \<Longrightarrow> good s \<Longrightarrow> decodeFields decs s = (Inr vs, s') \<Longrightarrow> fields_wt Ws vs"
  using assms
proof (induction decs es arbitrary: s vs Ws rule: list_all2_induct)
  case Nil
  then show ?case by simp
next
  case (Cons dec decs e es)
  obtain W Ws' where W: "Ws = W # Ws'" "yields dec W" "list_all2 yields decs Ws'"
    using Cons.prems(4) by (auto simp: list_all2_Cons1)
  obtain v t ws where v: "dec s = (Inr v, t)" "decodeFields decs t = (Inr ws, s')" "vs = v # ws"
    using Cons.prems(3) by (auto simp: res_simps)
  have "W v" using W(2) Cons.prems(1,2) v(1) unfolding yields_def by blast
  moreover have "fields_wt Ws' ws"
    by (rule decodes_ok[OF Cons.hyps(1) Cons.prems(1,2) v(1)]) (rule Cons.IH[OF _ _ v(2) W(3)])
  ultimately show ?case using v(3) W(1) by simp
qed

lemma yields_list:
  assumes "\<And>z s vs s'. kind s = None \<Longrightarrow> good s \<Longrightarrow> inner z s = (Inr vs, s') \<Longrightarrow> W (VList vs)"
  shows "yields (bind_sm (map_error wrapStreamError List) (\<lambda>z. bind_sm (inner z) (\<lambda>vs.
      bind_sm (map_error g ListEnd) (\<lambda>_. return_sm (VList vs))))) W" (is "yields ?dec W")
  unfolding yields_def
proof (intro allI impI)
  fix s v s' assume a: "kind s = None" "good s" "?dec s = (Inr v, s')"
  then obtain z t vs w where d: "List s = (Inr z, t)" "inner z t = (Inr vs, w)" "v = VList vs" by (auto simp: res_simps)
  have "kind t = None" "good t" using List_ok[OF a(1,2) d(1)] by (auto simp: good_def)
  then show "W v" using assms[OF _ _ d(2)] d(3) by simp
qed

lemma makeDecoder_yields: "plain t \<Longrightarrow> yields (makeDecoder N t) (wt t)"
proof (induction t)
  case TRaw
  show ?case using Raw_raw_ok by (auto simp: yields_def decodeRawValue_def res_simps)
next
  case (TUint n)
  then show ?case using uint_bound[of _ n] by (auto simp: yields_def decodeUint_def res_simps)
next
  case (TByteArray n)
  then show ?case unfolding makeDecoder.simps by (intro yields_array) auto
next
  case (TSlice t tail)
  then have p: "plain t" "tail = False" by auto
  show ?case unfolding p(2) makeDecoder.simps if_False decodeListSlice_eq
    by (rule yields_list) (auto simp: sliceElems_def split: if_splits
        dest: elems_yield[OF makeDecoder_decodes[OF p(1)] TSlice.IH[OF p(1)]])
next
  case (TArray n t)
  then have p: "plain t" by simp
  show ?case unfolding makeDecoder.simps decodeListArray_def
    by (rule yields_list) (auto dest: array_yield[OF makeDecoder_decodes[OF p] TArray.IH[OF p]])
next
  case (TStruct ts)
  then have "list_all2 decodes (map (makeDecoder N) ts) (map enc ts)" "list_all2 yields (map (makeDecoder N) ts) (map wt ts)"
    using makeDecoder_decodes by (auto simp: list_all2_conv_all_nth list_all_iff)
  then show ?case unfolding makeDecoder.simps structDecoder_def
    by (intro yields_list) (auto dest: fields_yield)
next
  case (TPtr t nilOK)
  then show ?case by (auto simp: yields_def ptrDecoder_def res_simps)
qed (auto simp: yields_def decodeBigInt_def decodeBool_def decodeString_def res_simps split: if_splits)

subsection \<open>The loops end\<close>

definition halts :: "nat \<Rightarrow> rval reader \<Rightarrow> bool" where
  "halts N dec \<longleftrightarrow> (\<forall>s s'. kind s = None \<longrightarrow> good s \<longrightarrow> length (R s) < N \<longrightarrow> dec s \<noteq> (Inl RlpNotTerminating, s'))"

lemma reads_halt [simp]:
  "readByte s \<noteq> (Inl RlpNotTerminating, s')" "readFull n s \<noteq> (Inl RlpNotTerminating, s')"
  by (auto simp: readByte_def readFull_def willRead_def res_simps Let_def split: list.splits if_splits)

lemma readUint_halt [simp]: "readUint n s \<noteq> (Inl RlpNotTerminating, s')"
  by (auto simp: readUint_def res_simps split: if_splits)

lemma readKind_halt [simp]: "readKind s \<noteq> ((k, z, Some RlpNotTerminating), s')"
  using reads_halt(1)[of s] by (auto simp: readKind_def readLong_def Let_def split: prod.splits sum.splits if_splits)

lemma checkFits_halt [simp]: "checkFits z s \<noteq> Some RlpNotTerminating"
  by (auto simp: checkFits_def split: list.splits if_splits)

lemma Kind_halt [simp]: "kind s = None \<Longrightarrow> Kind s \<noteq> (Inl RlpNotTerminating, s')"
  by (auto simp: Kind_def Let_def split: prod.splits option.splits if_splits)

lemma wrap_halt [simp]: "RlpNotTerminating = wrapStreamError e \<longleftrightarrow> e = RlpNotTerminating"
  by (auto simp: wrapStreamError_def)

lemma wrap_halt' [simp]: "wrapStreamError e = RlpNotTerminating \<longleftrightarrow> e = RlpNotTerminating"
  by (auto simp: wrapStreamError_def)

lemma Kind_bind_halt:
  assumes "kind s = None" "\<And>k z t. Kind s = (Inr (k, z), t) \<Longrightarrow> f (k, z) t \<noteq> (Inl RlpNotTerminating, s')"
  shows "bind_sm Kind f s \<noteq> (Inl RlpNotTerminating, s')"
  using assms by (auto simp: res_simps)

lemma ops_halt:
  assumes "kind s = None"
  shows "Bytes s \<noteq> (Inl RlpNotTerminating, s')" "Raw s \<noteq> (Inl RlpNotTerminating, s')"
    "uint_stream n s \<noteq> (Inl RlpNotTerminating, s')" "List s \<noteq> (Inl RlpNotTerminating, s')"
    "decodeByteArray n s \<noteq> (Inl RlpNotTerminating, s')" "Bool s \<noteq> (Inl RlpNotTerminating, s')"
proof -
  show u: "uint_stream n s \<noteq> (Inl RlpNotTerminating, s')" for n s'
    unfolding uint_stream_def
    by (rule Kind_bind_halt[OF assms]) (auto simp: res_simps split: rkind.splits if_splits)
  show "Bytes s \<noteq> (Inl RlpNotTerminating, s')" "Raw s \<noteq> (Inl RlpNotTerminating, s')"
    "List s \<noteq> (Inl RlpNotTerminating, s')" "decodeByteArray n s \<noteq> (Inl RlpNotTerminating, s')"
    unfolding Bytes_def Raw_def List_def decodeByteArray_def
    by (rule Kind_bind_halt[OF assms];
        auto simp: res_simps rearm_def wrapStreamError_def split: rkind.splits if_splits prod.splits sum.splits)+
  show "Bool s \<noteq> (Inl RlpNotTerminating, s')"
    using u[of 8] by (auto simp: Bool_def res_simps split: if_splits)
qed

lemma consumed_shorter: "consumed s b s' \<Longrightarrow> length (R s) = length b + length (R s')"
  by (simp add: consumed_def)

lemma elems_halt:
  assumes "decodes dec e" "halts N dec"
  shows "kind s = None \<Longrightarrow> good s \<Longrightarrow> length (R s) < N \<Longrightarrow> length (R s) < n \<Longrightarrow>
    decodeSliceElems n dec s \<noteq> (Inl RlpNotTerminating, s')"
proof (induction n arbitrary: s)
  case (Suc n)
  obtain r t where rt: "dec s = (r, t)" by (cases "dec s")
  show ?case
  proof (cases r)
    case (Inl err)
    then have "err \<noteq> RlpNotTerminating" using assms(2) Suc.prems rt unfolding halts_def by blast
    then show ?thesis using rt Inl by simp
  next
    case (Inr v)
    then have d: "dec s = (Inr v, t)" using rt by simp
    show ?thesis
    proof (rule decodes_ok[OF assms(1) Suc.prems(1,2) d])
      fix b assume b: "b \<noteq> []" "consumed s b t" "kind t = None" "good t"
      then have "length (R t) < length (R s)" using consumed_shorter[OF b(2)] by simp
      then have "decodeSliceElems n dec t \<noteq> (Inl RlpNotTerminating, s')"
        using Suc.IH[OF b(3,4)] Suc.prems(3,4) by linarith
      then show ?thesis using d by (auto simp: res_simps)
    qed
  qed
qed simp

lemma array_halt:
  assumes "decodes dec e" "halts N dec"
  shows "kind s = None \<Longrightarrow> good s \<Longrightarrow> length (R s) < N \<Longrightarrow> decodeArrayElems n dec s \<noteq> (Inl RlpNotTerminating, s')"
proof (induction n arbitrary: s)
  case (Suc n)
  have h: "dec s \<noteq> (Inl RlpNotTerminating, t)" for t using assms(2) Suc.prems unfolding halts_def by blast
  have "decodeArrayElems n dec t \<noteq> (Inl RlpNotTerminating, s')" if d: "dec s = (Inr v, t)" for v t
    by (rule decodes_ok[OF assms(1) Suc.prems(1,2) d]) (use Suc.IH Suc.prems(3) consumed_shorter in fastforce)
  then show ?case using h by (auto simp: res_simps split: if_splits)
qed simp

lemma fields_halt:
  assumes "list_all2 decodes decs es" "\<forall>dec \<in> set decs. halts N dec"
  shows "kind s = None \<Longrightarrow> good s \<Longrightarrow> length (R s) < N \<Longrightarrow> decodeFields decs s \<noteq> (Inl RlpNotTerminating, s')"
  using assms
proof (induction decs es arbitrary: s rule: list_all2_induct)
  case (Cons dec decs e es)
  have h: "dec s \<noteq> (Inl RlpNotTerminating, t)" for t using Cons.prems unfolding halts_def by auto
  have "decodeFields decs t \<noteq> (Inl RlpNotTerminating, s')" if d: "dec s = (Inr v, t)" for v t
    by (rule decodes_ok[OF Cons.hyps(1) Cons.prems(1,2) d]) (use Cons.IH Cons.prems(3,4) consumed_shorter in fastforce)
  then show ?case using h by (auto simp: res_simps split: if_splits)
qed simp

lemma halts_list:
  assumes "\<And>z s s'. kind s = None \<Longrightarrow> good s \<Longrightarrow> length (R s) < N \<Longrightarrow> inner z s \<noteq> (Inl RlpNotTerminating, s')"
    and g: "\<And>e. g e = RlpNotTerminating \<longleftrightarrow> e = RlpNotTerminating"
  shows "halts N (bind_sm (map_error wrapStreamError List) (\<lambda>z. bind_sm (inner z) (\<lambda>vs.
      bind_sm (map_error g ListEnd) (\<lambda>_. return_sm (VList vs)))))" (is "halts N ?dec")
  unfolding halts_def
proof (intro allI impI notI)
  fix s s' assume a: "kind s = None" "good s" "length (R s) < N" "?dec s = (Inl RlpNotTerminating, s')"
  have "ListEnd w \<noteq> (Inl RlpNotTerminating, s')" for w by (auto simp: ListEnd_def split: list.splits if_splits)
  then obtain z t where t: "List s = (Inr z, t)" "inner z t = (Inl RlpNotTerminating, s')"
    using a(4) ops_halt(4)[OF a(1)] g by (auto simp: res_simps dest: sym)
  obtain u where "consumed s (headbytes KList z) u" "good t" "kind t = None" "R t = R u"
    using List_ok[OF a(1,2) t(1)] by (auto simp: good_def)
  then show False using assms(1)[of t z s'] t(2) a(3) consumed_shorter[of s _ u] by fastforce
qed

lemma makeDecoder_halts: "plain t \<Longrightarrow> halts N (makeDecoder N t)"
proof (induction t)
  case (TSlice t tail)
  then have p: "plain t" "tail = False" by auto
  show ?case unfolding p(2) makeDecoder.simps if_False decodeListSlice_eq
    by (rule halts_list)
      (simp_all add: sliceElems_def elems_halt[OF makeDecoder_decodes[OF p(1)] TSlice.IH[OF p(1)]])
next
  case (TArray n t)
  then have p: "plain t" by simp
  show ?case unfolding makeDecoder.simps decodeListArray_def
    by (rule halts_list) (simp_all add: array_halt[OF makeDecoder_decodes[OF p] TArray.IH[OF p]])
next
  case (TStruct ts)
  then have "list_all2 decodes (map (makeDecoder N) ts) (map enc ts)" "\<forall>dec \<in> set (map (makeDecoder N) ts). halts N dec"
    using makeDecoder_decodes by (auto simp: list_all2_conv_all_nth list_all_iff)
  from fields_halt[OF this] show ?case unfolding makeDecoder.simps structDecoder_def
    by (intro halts_list) auto
next
  case (TPtr t nilOK)
  then show ?case by (auto simp: halts_def ptrDecoder_def res_simps)
qed (auto simp: halts_def decodeRawValue_def decodeUint_def decodeBigInt_def decodeBool_def decodeString_def res_simps
    ops_halt split: if_splits)

subsection \<open>Properties\<close>

lemma NewStream_ok [simp]: "kind (NewStream b n) = None" "good (NewStream b n)" "R (NewStream b n) = b"
  by (simp_all add: NewStream_def good_def)

text \<open>
  The encoder is the textbook definition: for every type and value, writing into the buffer with
  list headers kept aside and merged at the end gives, byte for byte and error for error, the
  recursive definition of RLP, in which a list is its header followed by its elements.
\<close>

lemma rlp_encoder_is_reference: "EncodeToBytes t v = enc t v"
  by (rule EncodeToBytes_eq)

lemma DecodeBytes_encoded:
  assumes "plain t" "wt t v" "EncodeToBytes t v = Inr b" "length b < 2 ^ 63"
  shows "DecodeBytes t b = Inr v"
proof -
  have l: "length b < 2 ^ 64" using assms(4) by simp
  have e: "enc t v = Inr b" using assms(3) by (simp only: EncodeToBytes_eq)
  let ?s = "NewStream b (of_nat (length b))"
  have "unat (of_nat (length b) :: u64) = length b" by (rule unat_of_nat_u64[OF l])
  then have r: "room ?s (length b)" by (auto simp: room_def NewStream_def)
  obtain s' where "makeDecoder (length b + 1) t ?s = (Inr v, s')" "consumed ?s b s'"
    by (rule reads_back_ok[OF makeDecoder_reads_back[OF assms(1), of "length b + 1"] _ _ e assms(2), where s = ?s and rest = "[]"])
      (use r l in auto)
  then show ?thesis by (simp add: DecodeBytes_def consumed_def)
qed


lemma DecodeBytes_canonical:
  assumes "plain t" "DecodeBytes t b = Inr v"
  shows "EncodeToBytes t v = Inr b"
proof -
  let ?s = "NewStream b (of_nat (length b))"
  obtain s' where d: "makeDecoder (length b + 1) t ?s = (Inr v, s')" "R s' = []"
    using assms(2) by (auto simp: DecodeBytes_def split: prod.splits sum.splits if_splits)
  obtain c where "enc t v = Inr c" "consumed ?s c s'"
    by (rule decodes_ok[OF makeDecoder_decodes[OF assms(1)] _ _ d(1)]) simp_all
  then show ?thesis using d(2) by (simp add: EncodeToBytes_eq consumed_def)
qed


lemma DecodeBytes_wt:
  assumes "plain t" "DecodeBytes t b = Inr v"
  shows "wt t v"
proof -
  obtain s' where "makeDecoder (length b + 1) t (NewStream b (of_nat (length b))) = (Inr v, s')"
    using assms(2) by (auto simp: DecodeBytes_def split: prod.splits sum.splits if_splits)
  then show ?thesis using makeDecoder_yields[OF assms(1)] unfolding yields_def by force
qed



lemma byte_array_stuck:
  assumes "kind s = Some KByte" "kinderr s = None" "byteval s = 0"
  shows "decodeSliceElems n (decodeByteArray 1) s = (Inl RlpNotTerminating, s)"
proof -
  have "decodeByteArray 1 s = (Inr (VBytes [0]), s)"
    using assms by (simp add: decodeByteArray_def bind_sm_def Kind_def uint_stream_def)
  then show ?thesis by (induction n) (simp_all add: bind_sm_def)
qed

text \<open>
  The exception: a list that holds one zero byte makes decoding into \<open>[][1]byte\<close> loop forever.
  \<open>decodeByteArray\<close> drops the error of \<open>Uint\<close>, which rejects the zero byte and leaves it unread.
\<close>

lemma byte_array_1_loops:
  "\<exists>s. makeDecoder N (TSlice (TByteArray 1) False) (NewStream [0xC1, 0x00] 2) = (Inl RlpNotTerminating, s)"
proof -
  let ?s = "\<lparr>R = [], remaining = 0, limited = True, kind = Some KByte, ssize = 0, byteval = 0, kinderr = None,
    stack = [(1, 1)]\<rparr> :: stream"
  have l: "List (NewStream [0xC1, 0x00] 2) = (Inr 1, \<lparr>R = [0], remaining = 1, limited = True, kind = None, ssize = 0,
      byteval = 0, kinderr = None, stack = [(0, 1)]\<rparr>)" by code_simp
  have k: "decodeByteArray 1 \<lparr>R = [0], remaining = 1, limited = True, kind = None, ssize = 0,
      byteval = 0, kinderr = None, stack = [(0, 1)]\<rparr> = (Inr (VBytes [0]), ?s)" by code_simp
  have "decodeSliceElems n (decodeByteArray 1) \<lparr>R = [0], remaining = 1, limited = True, kind = None, ssize = 0,
      byteval = 0, kinderr = None, stack = [(0, 1)]\<rparr> = (Inl RlpNotTerminating, ?s) \<or> n = 0" for n
    using k byte_array_stuck[of ?s] by (cases n) (simp_all add: bind_sm_def)
  moreover have "decodeSliceElems 0 (decodeByteArray 1) s = (Inl RlpNotTerminating, s)" for s by simp
  ultimately have "\<exists>s. decodeSliceElems N (decodeByteArray 1) \<lparr>R = [0], remaining = 1, limited = True, kind = None,
      ssize = 0, byteval = 0, kinderr = None, stack = [(0, 1)]\<rparr> = (Inl RlpNotTerminating, s)" by (cases "N = 0") auto
  then show ?thesis using l by (auto simp: decodeListSlice_def bind_sm_def map_error_def)
qed

definition sample_type :: rtype where
  "sample_type = TStruct [TUint 64, TBytes]"

definition sample_value :: rval where
  "sample_value = VList [VUint 300, VBytes [7, 200]]"

definition sample_bytes :: "byte list" where
  "sample_bytes = [0xC6, 0x82, 0x01, 0x2C, 0x82, 0x07, 0xC8]"

lemma sample_plain: "plain sample_type" "wt sample_type sample_value" "length sample_bytes < 2 ^ 63"
  by (simp_all add: sample_type_def sample_value_def sample_bytes_def)

lemma sample_encode: "EncodeToBytes sample_type sample_value = Inr sample_bytes"
  by code_simp

lemma sample_decode: "DecodeBytes sample_type sample_bytes = Inr sample_value"
  by code_simp





end
