(* ===== verification/Alien_Codec.thy ===== *)
theory Alien_Codec
  imports Alien_Apply Rlp_Decode Go_State
begin

text \<open>
  What the engine puts through RLP: the extra data of a header (\<open>encodeHeaderExtra\<close> and
  \<open>decodeHeaderExtra\<close> of \<open>consensus/alien/custom_tx.go\<close>), the header itself (\<open>rlpHash\<close> of
  \<open>core/types/block.go\<close>) and the part of a header that is signed (\<open>sigHash\<close> of
  \<open>consensus/alien/alien.go\<close>).

  RLP works on Go values by reflection.  For each struct the theory gives its RLP type, the fields in
  the order of the declaration, and the passage between the record of the model and the value the
  encoder sees.  The locale \<open>rlp_codec\<close> says what such a passage owes: the value has the type, and
  the passage is a bijection between the records and the values of the type.  It is interpreted for
  every struct of the extra data, so that encoding and decoding are inverse to each other on all of it.
\<close>

subsection \<open>Reading the values\<close>

definition get_bytes :: "rval \<Rightarrow> byte list" where
  "get_bytes v = (case v of VBytes b \<Rightarrow> b | _ \<Rightarrow> [])"

definition get_uint :: "rval \<Rightarrow> u64" where
  "get_uint v = (case v of VUint i \<Rightarrow> i | _ \<Rightarrow> 0)"

definition get_big :: "rval \<Rightarrow> int" where
  "get_big v = (case v of VBig i \<Rightarrow> i | _ \<Rightarrow> 0)"

definition get_bool :: "rval \<Rightarrow> bool" where
  "get_bool v = (case v of VBool b \<Rightarrow> b | _ \<Rightarrow> False)"

definition get_list :: "rval \<Rightarrow> rval list" where
  "get_list v = (case v of VList vs \<Rightarrow> vs | _ \<Rightarrow> [])"

definition get_ptr :: "rval \<Rightarrow> rval" where
  "get_ptr v = (case v of VPtr w \<Rightarrow> w | _ \<Rightarrow> VNil)"

lemmas get_defs = get_bytes_def get_uint_def get_big_def get_bool_def get_list_def get_ptr_def

definition T_Address :: rtype where "T_Address = TByteArray AddressLength"
definition T_Hash :: rtype where "T_Hash = TByteArray HashLength"

definition of_address :: "address \<Rightarrow> rval" where "of_address a = VBytes (Address_Bytes a)"
definition to_address :: "rval \<Rightarrow> address" where "to_address v = BytesToAddress (get_bytes v)"
definition of_hash :: "hash \<Rightarrow> rval" where "of_hash h = VBytes (Hash_Bytes h)"
definition to_hash :: "rval \<Rightarrow> hash" where "to_hash v = BytesToHash (get_bytes v)"

text \<open>A Go string is its bytes.\<close>

definition of_text :: "string \<Rightarrow> rval" where
  "of_text s = VBytes (map (\<lambda>c. of_nat (of_char c)) s)"

definition to_text :: "rval \<Rightarrow> string" where
  "to_text v = map (\<lambda>b. char_of (unat b)) (get_bytes v)"

definition of_slice :: "('a \<Rightarrow> rval) \<Rightarrow> 'a list \<Rightarrow> rval" where
  "of_slice f xs = VList (map f xs)"

definition to_slice :: "(rval \<Rightarrow> 'a) \<Rightarrow> rval \<Rightarrow> 'a list" where
  "to_slice g v = map g (get_list v)"

subsection \<open>The structs of the extra data\<close>

definition T_Vote :: rtype where
  "T_Vote = TStruct [T_Address, T_Address, TBigPtr]"

definition of_vote :: "vote \<Rightarrow> rval" where
  "of_vote x = VList [of_address (Voter x), of_address (Candidate x), VBig (Stake x)]"

definition to_vote :: "rval \<Rightarrow> vote" where
  "to_vote v = (let f = get_list v in
     \<lparr>Voter = to_address (f ! 0), Candidate = to_address (f ! 1), Stake = get_big (f ! 2)\<rparr>)"

definition T_Confirmation :: rtype where
  "T_Confirmation = TStruct [T_Address, TBigPtr]"

definition of_confirmation :: "confirmation \<Rightarrow> rval" where
  "of_confirmation x = VList [of_address (Signer x), VBig (BlockNumber x)]"

definition to_confirmation :: "rval \<Rightarrow> confirmation" where
  "to_confirmation v = (let f = get_list v in
     \<lparr>Signer = to_address (f ! 0), BlockNumber = get_big (f ! 1)\<rparr>)"

definition T_Declare :: rtype where
  "T_Declare = TStruct [T_Hash, T_Address, TBool]"

definition of_declare :: "declare_t \<Rightarrow> rval" where
  "of_declare x = VList [of_hash (ProposalHash x), of_address (Declarer x), VBool (Decision x)]"

definition to_declare :: "rval \<Rightarrow> declare_t" where
  "to_declare v = (let f = get_list v in
     \<lparr>ProposalHash = to_hash (f ! 0), Declarer = to_address (f ! 1), Decision = get_bool (f ! 2)\<rparr>)"

definition of_declare_ptr :: "declare_t \<Rightarrow> rval" where
  "of_declare_ptr x = VPtr (of_declare x)"

definition to_declare_ptr :: "rval \<Rightarrow> declare_t" where
  "to_declare_ptr v = to_declare (get_ptr v)"

definition T_Proposal :: rtype where
  "T_Proposal = TStruct [T_Hash, TBigPtr, TBigPtr, TUint 64, TUint 64, T_Address, T_Address, TUint 64,
     T_Hash, TUint 64, TUint 64, TSlice (TPtr T_Declare False) False, TUint 64, TUint 64, TUint 64,
     TUint 64, TUint 64]"

definition of_proposal :: "proposal \<Rightarrow> rval" where
  "of_proposal x = VList [of_hash (Prop_Hash x), VBig (ReceivedNumber x), VBig (CurrentDeposit x),
     VUint (ValidationLoopCnt x), VUint (ProposalType x), of_address (Proposer x),
     of_address (TargetAddress x), VUint (MinerRewardPerThousand x), of_hash (SCHash x),
     VUint (SCBlockCountPerPeriod x), VUint (SCBlockRewardPerPeriod x),
     of_slice of_declare_ptr (Declares x), VUint (Prop_MinVoterBalance x), VUint (ProposalDeposit x),
     VUint (SCRentFee x), VUint (SCRentRate x), VUint (SCRentLength x)]"

definition to_proposal :: "rval \<Rightarrow> proposal" where
  "to_proposal v = (let f = get_list v in
     \<lparr>Prop_Hash = to_hash (f ! 0), ReceivedNumber = get_big (f ! 1), CurrentDeposit = get_big (f ! 2),
      ValidationLoopCnt = get_uint (f ! 3), ProposalType = get_uint (f ! 4),
      Proposer = to_address (f ! 5), TargetAddress = to_address (f ! 6),
      MinerRewardPerThousand = get_uint (f ! 7), SCHash = to_hash (f ! 8),
      SCBlockCountPerPeriod = get_uint (f ! 9), SCBlockRewardPerPeriod = get_uint (f ! 10),
      Declares = to_slice to_declare_ptr (f ! 11), Prop_MinVoterBalance = get_uint (f ! 12),
      ProposalDeposit = get_uint (f ! 13), SCRentFee = get_uint (f ! 14), SCRentRate = get_uint (f ! 15),
      SCRentLength = get_uint (f ! 16)\<rparr>)"

definition T_SCConfirmation :: rtype where
  "T_SCConfirmation = TStruct [T_Hash, T_Address, TUint 64, TSlice TString False]"

definition of_sc_confirmation :: "sc_confirmation \<Rightarrow> rval" where
  "of_sc_confirmation x = VList [of_hash (SCC_Hash x), of_address (SCC_Coinbase x), VUint (SCC_Number x),
     of_slice of_text (LoopInfo x)]"

definition to_sc_confirmation :: "rval \<Rightarrow> sc_confirmation" where
  "to_sc_confirmation v = (let f = get_list v in
     \<lparr>SCC_Hash = to_hash (f ! 0), SCC_Coinbase = to_address (f ! 1), SCC_Number = get_uint (f ! 2),
      LoopInfo = to_slice to_text (f ! 3)\<rparr>)"

definition T_SCSetCoinbase :: rtype where
  "T_SCSetCoinbase = TStruct [T_Hash, T_Address, T_Address]"

definition of_sc_set_coinbase :: "sc_set_coinbase \<Rightarrow> rval" where
  "of_sc_set_coinbase x =
     VList [of_hash (SSC_Hash x), of_address (SSC_Signer x), of_address (SSC_Coinbase x)]"

definition to_sc_set_coinbase :: "rval \<Rightarrow> sc_set_coinbase" where
  "to_sc_set_coinbase v = (let f = get_list v in
     \<lparr>SSC_Hash = to_hash (f ! 0), SSC_Signer = to_address (f ! 1), SSC_Coinbase = to_address (f ! 2)\<rparr>)"

definition T_GasCharging :: rtype where
  "T_GasCharging = TStruct [T_Address, TUint 64, T_Hash]"

definition of_gas_charging :: "gas_charging \<Rightarrow> rval" where
  "of_gas_charging x = VList [of_address (Target x), VUint (Volume x), of_hash (GC_Hash x)]"

definition to_gas_charging :: "rval \<Rightarrow> gas_charging" where
  "to_gas_charging v = (let f = get_list v in
     \<lparr>Target = to_address (f ! 0), Volume = get_uint (f ! 1), GC_Hash = to_hash (f ! 2)\<rparr>)"

definition T_HeaderExtra :: rtype where
  "T_HeaderExtra = TStruct [TSlice T_Confirmation False, TSlice T_Vote False, TSlice T_Proposal False,
     TSlice T_Declare False, TSlice T_Vote False, TUint 64, TSlice T_Address False,
     TSlice T_Address False, TUint 64, TSlice T_SCConfirmation False, TSlice T_SCSetCoinbase False,
     TSlice T_SCConfirmation False, TSlice T_GasCharging False]"

definition of_extra :: "header_extra \<Rightarrow> rval" where
  "of_extra x = VList [of_slice of_confirmation (CurrentBlockConfirmations x),
     of_slice of_vote (CurrentBlockVotes x), of_slice of_proposal (CurrentBlockProposals x),
     of_slice of_declare (CurrentBlockDeclares x), of_slice of_vote (ModifyPredecessorVotes x),
     VUint (Ext_LoopStartTime x), of_slice of_address (SignerQueue x),
     of_slice of_address (SignerMissing x), VUint (ConfirmedBlockNumber x),
     of_slice of_sc_confirmation (SideChainConfirmations x),
     of_slice of_sc_set_coinbase (SideChainSetCoinbases x),
     of_slice of_sc_confirmation (SideChainNoticeConfirmed x),
     of_slice of_gas_charging (SideChainCharging x)]"

definition to_extra :: "rval \<Rightarrow> header_extra" where
  "to_extra v = (let f = get_list v in
     \<lparr>CurrentBlockConfirmations = to_slice to_confirmation (f ! 0),
      CurrentBlockVotes = to_slice to_vote (f ! 1),
      CurrentBlockProposals = to_slice to_proposal (f ! 2),
      CurrentBlockDeclares = to_slice to_declare (f ! 3),
      ModifyPredecessorVotes = to_slice to_vote (f ! 4), Ext_LoopStartTime = get_uint (f ! 5),
      SignerQueue = to_slice to_address (f ! 6), SignerMissing = to_slice to_address (f ! 7),
      ConfirmedBlockNumber = get_uint (f ! 8),
      SideChainConfirmations = to_slice to_sc_confirmation (f ! 9),
      SideChainSetCoinbases = to_slice to_sc_set_coinbase (f ! 10),
      SideChainNoticeConfirmed = to_slice to_sc_confirmation (f ! 11),
      SideChainCharging = to_slice to_gas_charging (f ! 12)\<rparr>)"

definition rlp_res :: "rlperr + 'a \<Rightarrow> 'a res" where
  "rlp_res r = (case r of Inl _ \<Rightarrow> Inl (ErrExternal 1) | Inr x \<Rightarrow> Inr x)"

text \<open>
  The configuration and the number choose the format of the extra data; there is one format so far.
\<close>

definition encodeHeaderExtra :: "alien_config \<Rightarrow> int \<Rightarrow> header_extra \<Rightarrow> byte list res" where
  "encodeHeaderExtra cfg num val = rlp_res (EncodeToBytes T_HeaderExtra (of_extra val))"

definition decodeHeaderExtra_rlp :: "alien_config \<Rightarrow> int \<Rightarrow> byte list \<Rightarrow> header_extra res" where
  "decodeHeaderExtra_rlp cfg num b = bind_res (rlp_res (DecodeBytes T_HeaderExtra b)) (\<lambda>v. Inr (to_extra v))"

subsection \<open>Headers\<close>

definition T_Header :: rtype where
  "T_Header = TStruct [T_Hash, T_Hash, T_Address, T_Hash, T_Hash, T_Hash, TByteArray 256, TBigPtr, TBigPtr,
     TUint 64, TUint 64, TBigPtr, TBytes, T_Hash, TByteArray 8]"

definition EncodeNonce :: "u64 \<Rightarrow> byte list" where
  "EncodeNonce i = be_bytes 8 (unat i)"

definition of_header :: "header \<Rightarrow> rval" where
  "of_header h = VList [of_hash (ParentHash h), of_hash (UncleHash h), of_address (Coinbase h),
     of_hash (Root h), of_hash (TxHash h), of_hash (ReceiptHash h), VBytes (Bloom h),
     VBig (Difficulty h), VBig (Hdr_Number h), VUint (GasLimit h), VUint (GasUsed h),
     VBig (Hdr_Time h), VBytes (Extra h), of_hash (MixDigest h), VBytes (EncodeNonce (Nonce h))]"

text \<open>
  \<open>rlpHash\<close> ignores an encoding error; the hasher has then received nothing.  \<open>keccak\<close> is the hash
  function of \<open>crypto/sha3\<close>.
\<close>

definition rlpHash :: "(byte list \<Rightarrow> hash) \<Rightarrow> rlperr + byte list \<Rightarrow> hash" where
  "rlpHash keccak r = keccak (case r of Inl _ \<Rightarrow> [] | Inr b \<Rightarrow> b)"

definition Header_Hash :: "(byte list \<Rightarrow> hash) \<Rightarrow> header \<Rightarrow> hash" where
  "Header_Hash keccak h = rlpHash keccak (EncodeToBytes T_Header (of_header h))"

text \<open>
  \<open>sigHash\<close> encodes a slice of interface values.  That is written as a list whose elements are written
  by the writers of their own types, like the fields of a struct.
\<close>

definition unsealed :: "header \<Rightarrow> header" where
  "unsealed h = h\<lparr>Extra := take (length (Extra h) - 65) (Extra h)\<rparr>"

definition sigHash :: "(byte list \<Rightarrow> hash) \<Rightarrow> header \<Rightarrow> hash res" where
  "sigHash keccak h =
     (if length (Extra h) < 65 then Inl PanicIndex
      else bind_res (rlp_res (EncodeToBytes T_Header (of_header (unsealed h)))) (\<lambda>b. Inr (keccak b)))"

subsection \<open>Codecs\<close>

locale rlp_codec =
  fixes ty :: rtype and enc_val :: "'a \<Rightarrow> rval" and dec_val :: "rval \<Rightarrow> 'a"
  assumes plain_ty: "plain ty"
    and typed: "wt ty (enc_val x)"
    and inverse: "dec_val (enc_val x) = x"
    and onto: "wt ty v \<Longrightarrow> enc_val (dec_val v) = v"
begin

lemma decode_encode:
  assumes "EncodeToBytes ty (enc_val x) = Inr b" "length b < 2 ^ 63"
  shows "\<exists>v. DecodeBytes ty b = Inr v \<and> dec_val v = x"
  using DecodeBytes_encoded[OF plain_ty typed assms] inverse by simp

lemma encode_decode:
  assumes "DecodeBytes ty b = Inr v"
  shows "EncodeToBytes ty (enc_val (dec_val v)) = Inr b"
  using DecodeBytes_canonical[OF plain_ty assms] onto[OF DecodeBytes_wt[OF plain_ty assms]] by simp

lemma slice: "rlp_codec (TSlice ty False) (of_slice enc_val) (to_slice dec_val)"
  by unfold_locales
    (auto simp: of_slice_def to_slice_def get_list_def plain_ty typed inverse onto comp_def map_idI
      split: rval.splits)

end

lemma fields_wt_Cons: "fields_wt (P # Ps) vs \<longleftrightarrow> (\<exists>x xs. vs = x # xs \<and> P x \<and> fields_wt Ps xs)"
  by (cases vs) auto

lemma fields_wt_Nil: "fields_wt [] vs \<longleftrightarrow> vs = []"
  by (cases vs) auto

text \<open>The values of the basic types.\<close>

lemma wt_bytes_iff: "wt (TByteArray n) v \<longleftrightarrow> (\<exists>b. v = VBytes b \<and> length b = n)"
  by (cases v) auto

lemma wt_big_iff: "wt TBigPtr v \<longleftrightarrow> (\<exists>i. v = VBig i)"
  by (cases v) auto

lemma wt_uint64_iff: "wt (TUint 64) v \<longleftrightarrow> (\<exists>i. v = VUint i)"
proof -
  have "unat (i :: u64) < 256 ^ (64 div 8)" for i using unsigned_less[of i] by simp
  then show ?thesis by (cases v) auto
qed

lemma wt_bool_iff: "wt TBool v \<longleftrightarrow> (\<exists>b. v = VBool b)"
  by (cases v) auto

lemma wt_struct_iff: "wt (TStruct ts) v \<longleftrightarrow> (\<exists>vs. v = VList vs \<and> fields_wt (map wt ts) vs)"
  by (cases v) auto

lemma wt_ptr_iff: "wt (TPtr t False) v \<longleftrightarrow> (\<exists>w. v = VPtr w \<and> wt t w)"
  by (cases v) auto

lemmas wt_iffs = wt_big_iff wt_uint64_iff wt_bool_iff wt_struct_iff wt_ptr_iff fields_wt_Cons fields_wt_Nil

lemma Address_Bytes_to: "length b = AddressLength \<Longrightarrow> Address_Bytes (BytesToAddress b) = b"
proof -
  assume l: "length b = AddressLength"
  have "be_nat b < 2 ^ LENGTH(160)" using be_nat_less[of b] l by (simp add: AddressLength_def)
  then have "unat (of_nat (be_nat b) :: address) = be_nat b" by (simp only: unat_of_nat mod_less)
  then show ?thesis using l by (simp add: Address_Bytes_def BytesToAddress_def cropLeft_def be_bytes_be_nat)
qed

lemma Hash_Bytes_to: "length b = HashLength \<Longrightarrow> Hash_Bytes (BytesToHash b) = b"
proof -
  assume l: "length b = HashLength"
  have "be_nat b < 2 ^ LENGTH(256)" using be_nat_less[of b] l by (simp add: HashLength_def)
  then have "unat (of_nat (be_nat b) :: hash) = be_nat b" by (simp only: unat_of_nat mod_less)
  then show ?thesis using l by (simp add: Hash_Bytes_def BytesToHash_def cropLeft_def be_bytes_be_nat)
qed

lemma length_Address_Bytes: "length (Address_Bytes a) = AddressLength"
  by (simp add: Address_Bytes_def)

lemma length_Hash_Bytes: "length (Hash_Bytes h) = HashLength"
  by (simp add: Hash_Bytes_def)

lemma byte_of_char: "unat (of_nat (of_char c) :: byte) = of_char c"
  by (rule unat_of_nat_byte) simp

lemma byte_of_mod: "(of_nat (unat x mod 256) :: byte) = x"
proof -
  have "unat x < 256" using unsigned_less[of x, where 'a = nat] by simp
  then have "unat x mod 256 = unat x" by simp
  then show ?thesis by (simp only: of_nat_unat ucast_id)
qed

lemma plain_arrays: "plain T_Address" "plain T_Hash"
  by (simp_all add: T_Address_def T_Hash_def AddressLength_def HashLength_def)

interpretation address_codec: rlp_codec T_Address of_address to_address
  by (unfold_locales, rule plain_arrays)
    (auto simp: T_Address_def of_address_def to_address_def get_bytes_def wt_bytes_iff Address_Bytes_to
      BytesToAddress_Bytes length_Address_Bytes simp del: wt.simps)

interpretation hash_codec: rlp_codec T_Hash of_hash to_hash
  by (unfold_locales, rule plain_arrays)
    (auto simp: T_Hash_def of_hash_def to_hash_def get_bytes_def wt_bytes_iff Hash_Bytes_to
      BytesToHash_Bytes length_Hash_Bytes simp del: wt.simps)

interpretation text_codec: rlp_codec TString of_text to_text
  by unfold_locales
    (auto simp: of_text_def to_text_def get_bytes_def byte_of_char byte_of_mod comp_def map_idI split: rval.splits)

interpretation text_slice: rlp_codec "TSlice TString False" "of_slice of_text" "to_slice to_text"
  by (rule text_codec.slice)

interpretation address_slice: rlp_codec "TSlice T_Address False" "of_slice of_address" "to_slice to_address"
  by (rule address_codec.slice)

text \<open>The laws of the parts, for the structs that contain them.\<close>

lemmas part_laws = address_codec.plain_ty address_codec.typed address_codec.inverse address_codec.onto
  hash_codec.plain_ty hash_codec.typed hash_codec.inverse hash_codec.onto
  text_slice.plain_ty text_slice.typed text_slice.inverse text_slice.onto
  address_slice.plain_ty address_slice.typed address_slice.inverse address_slice.onto
  get_uint_def get_big_def get_bool_def get_list_def

interpretation vote_codec: rlp_codec T_Vote of_vote to_vote
  by unfold_locales
    (auto simp: T_Vote_def of_vote_def to_vote_def wt_iffs part_laws simp del: wt.simps)

interpretation confirmation_codec: rlp_codec T_Confirmation of_confirmation to_confirmation
  by unfold_locales
    (auto simp: T_Confirmation_def of_confirmation_def to_confirmation_def wt_iffs part_laws simp del: wt.simps)

interpretation declare_codec: rlp_codec T_Declare of_declare to_declare
  by unfold_locales
    (auto simp: T_Declare_def of_declare_def to_declare_def wt_iffs part_laws simp del: wt.simps)

interpretation sc_confirmation_codec: rlp_codec T_SCConfirmation of_sc_confirmation to_sc_confirmation
  by unfold_locales
    (auto simp: T_SCConfirmation_def of_sc_confirmation_def to_sc_confirmation_def wt_iffs part_laws
      simp del: wt.simps)

interpretation sc_set_coinbase_codec: rlp_codec T_SCSetCoinbase of_sc_set_coinbase to_sc_set_coinbase
  by unfold_locales
    (auto simp: T_SCSetCoinbase_def of_sc_set_coinbase_def to_sc_set_coinbase_def wt_iffs part_laws
      simp del: wt.simps)

interpretation gas_charging_codec: rlp_codec T_GasCharging of_gas_charging to_gas_charging
  by unfold_locales
    (auto simp: T_GasCharging_def of_gas_charging_def to_gas_charging_def wt_iffs part_laws simp del: wt.simps)

interpretation declare_ptr: rlp_codec "TPtr T_Declare False" of_declare_ptr to_declare_ptr
  by unfold_locales
    (auto simp: of_declare_ptr_def to_declare_ptr_def wt_iffs get_ptr_def declare_codec.plain_ty
      declare_codec.typed declare_codec.inverse declare_codec.onto simp del: wt.simps)

interpretation declare_ptrs: rlp_codec "TSlice (TPtr T_Declare False) False" "of_slice of_declare_ptr"
    "to_slice to_declare_ptr"
  by (rule declare_ptr.slice)

interpretation proposal_codec: rlp_codec T_Proposal of_proposal to_proposal
  by unfold_locales
    (auto simp: T_Proposal_def of_proposal_def to_proposal_def wt_iffs part_laws declare_codec.plain_ty
      declare_ptrs.typed declare_ptrs.inverse declare_ptrs.onto simp del: wt.simps)

lemmas slice_laws =
  rlp_codec.typed[OF confirmation_codec.slice] rlp_codec.inverse[OF confirmation_codec.slice]
  rlp_codec.onto[OF confirmation_codec.slice]
  rlp_codec.typed[OF vote_codec.slice] rlp_codec.inverse[OF vote_codec.slice] rlp_codec.onto[OF vote_codec.slice]
  rlp_codec.typed[OF proposal_codec.slice] rlp_codec.inverse[OF proposal_codec.slice]
  rlp_codec.onto[OF proposal_codec.slice]
  rlp_codec.typed[OF declare_codec.slice] rlp_codec.inverse[OF declare_codec.slice]
  rlp_codec.onto[OF declare_codec.slice]
  rlp_codec.typed[OF sc_confirmation_codec.slice] rlp_codec.inverse[OF sc_confirmation_codec.slice]
  rlp_codec.onto[OF sc_confirmation_codec.slice]
  rlp_codec.typed[OF sc_set_coinbase_codec.slice] rlp_codec.inverse[OF sc_set_coinbase_codec.slice]
  rlp_codec.onto[OF sc_set_coinbase_codec.slice]
  rlp_codec.typed[OF gas_charging_codec.slice] rlp_codec.inverse[OF gas_charging_codec.slice]
  rlp_codec.onto[OF gas_charging_codec.slice]
  confirmation_codec.plain_ty vote_codec.plain_ty proposal_codec.plain_ty declare_codec.plain_ty
  sc_confirmation_codec.plain_ty sc_set_coinbase_codec.plain_ty gas_charging_codec.plain_ty

interpretation extra_codec: rlp_codec T_HeaderExtra of_extra to_extra
  by unfold_locales
    (auto simp: T_HeaderExtra_def of_extra_def to_extra_def wt_iffs part_laws slice_laws simp del: wt.simps)

subsection \<open>Properties\<close>

lemma rlp_res_eq_Inr [res_simps]: "rlp_res r = Inr x \<longleftrightarrow> r = Inr x"
  by (cases r) (auto simp: rlp_res_def)

lemma rlp_res_eq_Inl: "rlp_res r = Inl e \<longleftrightarrow> (\<exists>x. r = Inl x) \<and> e = ErrExternal 1"
  by (cases r) (auto simp: rlp_res_def)

lemma decode_encoded_extra:
  assumes "encodeHeaderExtra cfg n x = Inr b" "length b < 2 ^ 63"
  shows "decodeHeaderExtra_rlp cfg' n' b = Inr x"
  using extra_codec.decode_encode[of x b] assms
  by (auto simp: encodeHeaderExtra_def decodeHeaderExtra_rlp_def rlp_res_def split: sum.splits)

lemma encode_decoded_extra:
  assumes "decodeHeaderExtra_rlp cfg n b = Inr x"
  shows "encodeHeaderExtra cfg' n' x = Inr b"
  using assms extra_codec.encode_decode[of b]
  by (auto simp: encodeHeaderExtra_def decodeHeaderExtra_rlp_def rlp_res_def split: sum.splits)

text \<open>Which values have an encoding.\<close>

definition encodes :: "rlperr + byte list \<Rightarrow> bool" where
  "encodes r \<longleftrightarrow> (\<exists>b. r = Inr b)"

lemma encodes_simps:
  "encodes (Inr b)" "\<not> encodes (Inl e)" "encodes (bind_res r (\<lambda>p. Inr (f p))) = encodes r"
  by (cases r; simp add: encodes_def)+

lemma encodes_concat: "encodes (concat_enc e vs) = (\<forall>v \<in> set vs. encodes (e v))"
  by (induction vs) (auto simp: encodes_def bind_res_def split: sum.splits)

lemma encodes_fields:
  "encodes (concat_fields [] [])"
  "encodes (concat_fields (e # es) (v # vs)) = (encodes (e v) \<and> encodes (concat_fields es vs))"
  by (auto simp: encodes_def bind_res_def split: sum.splits)

lemma encodes_big: "encodes (enc TBigPtr (VBig i)) = (0 \<le> i)"
  by (simp add: enc_big_def encodes_simps)

lemma encodes_slice: "encodes (enc (TSlice t False) (of_slice f xs)) = (\<forall>x \<in> set xs. encodes (enc t (f x)))"
  by (simp add: of_slice_def encodes_simps encodes_concat)

lemma encodes_struct: "encodes (enc (TStruct ts) (VList vs)) = encodes (concat_fields (map enc ts) vs)"
  by (simp add: encodes_simps)

lemma encodes_basic:
  "encodes (enc T_Address (of_address a))" "encodes (enc T_Hash (of_hash h))" "encodes (enc TString (of_text s))"
  "encodes (enc (TUint 64) (VUint i))" "encodes (enc TBool (VBool b))"
  by (simp_all add: T_Address_def T_Hash_def of_address_def of_hash_def of_text_def encodes_simps)

lemma encodes_ptr: "encodes (enc (TPtr t False) (VPtr v)) = encodes (enc t v)"
  by simp

lemmas encodes_rules = encodes_big encodes_slice encodes_struct encodes_basic encodes_fields encodes_ptr

definition non_negative :: "header_extra \<Rightarrow> bool" where
  "non_negative x \<longleftrightarrow>
     (\<forall>c \<in> set (CurrentBlockConfirmations x). 0 \<le> BlockNumber c) \<and>
     (\<forall>v \<in> set (CurrentBlockVotes x). 0 \<le> Stake v) \<and> (\<forall>v \<in> set (ModifyPredecessorVotes x). 0 \<le> Stake v) \<and>
     (\<forall>p \<in> set (CurrentBlockProposals x). 0 \<le> ReceivedNumber p \<and> 0 \<le> CurrentDeposit p)"

lemma encodes_structs:
  "encodes (enc T_Vote (of_vote v)) = (0 \<le> Stake v)"
  "encodes (enc T_Confirmation (of_confirmation c)) = (0 \<le> BlockNumber c)"
  "encodes (enc T_Declare (of_declare d))"
  "encodes (enc T_SCConfirmation (of_sc_confirmation sc))"
  "encodes (enc T_SCSetCoinbase (of_sc_set_coinbase cb))"
  "encodes (enc T_GasCharging (of_gas_charging g))"
  by (simp_all add: T_Vote_def of_vote_def T_Confirmation_def of_confirmation_def T_Declare_def of_declare_def
      T_SCConfirmation_def of_sc_confirmation_def T_SCSetCoinbase_def of_sc_set_coinbase_def T_GasCharging_def
      of_gas_charging_def encodes_rules del: enc.simps concat_fields.simps)

lemma encodes_proposal: "encodes (enc T_Proposal (of_proposal p)) = (0 \<le> ReceivedNumber p \<and> 0 \<le> CurrentDeposit p)"
  by (simp add: T_Proposal_def of_proposal_def of_declare_ptr_def encodes_rules encodes_structs del: enc.simps concat_fields.simps)

lemma encodes_extra: "encodes (enc T_HeaderExtra (of_extra x)) = non_negative x"
  by (auto simp: T_HeaderExtra_def of_extra_def non_negative_def encodes_rules encodes_structs encodes_proposal
      simp del: enc.simps concat_fields.simps)

lemma encodeHeaderExtra_iff: "(\<exists>b. encodeHeaderExtra cfg n x = Inr b) \<longleftrightarrow> non_negative x"
  using encodes_extra[of x] by (simp add: encodeHeaderExtra_def rlp_res_eq_Inr EncodeToBytes_eq encodes_def)

text \<open>What a header must satisfy for its record to be a Go value: the bloom filter is an array of 256 bytes.\<close>

lemma wt_header: "length (Bloom h) = 256 \<Longrightarrow> wt T_Header (of_header h)"
proof -
  assume l: "length (Bloom h) = 256"
  have "wt (TByteArray 256) (VBytes (Bloom h))" "wt (TByteArray 8) (VBytes (EncodeNonce (Nonce h)))"
    "wt TBytes (VBytes (Extra h))" by (simp_all add: l EncodeNonce_def)
  then show ?thesis
    by (simp add: T_Header_def of_header_def wt_iffs part_laws del: wt.simps)
qed

lemma plain_header: "plain T_Header"
  by (simp add: T_Header_def plain_arrays)

lemma EncodeNonce_inj: "EncodeNonce i = EncodeNonce j \<Longrightarrow> i = j"
proof -
  assume e: "EncodeNonce i = EncodeNonce j"
  have "unat (k :: u64) < 256 ^ 8" for k using unsigned_less[of k, where 'a = nat] by simp
  then have "be_nat (EncodeNonce k) = unat k" for k by (simp add: EncodeNonce_def be_nat_be_bytes)
  then have "unat i = unat j" using e by metis
  then show ?thesis by (simp add: word_unat_eq_iff)
qed

lemma of_header_inj: "of_header h = of_header h' \<Longrightarrow> h = h'"
proof -
  assume "of_header h = of_header h'"
  moreover have "of_hash a = of_hash b \<Longrightarrow> a = b" for a b using hash_codec.inverse by metis
  moreover have "of_address a = of_address b \<Longrightarrow> a = b" for a b using address_codec.inverse by metis
  ultimately show ?thesis by (cases h; cases h') (simp add: of_header_def EncodeNonce_inj)
qed

lemma encoded_header_inj:
  assumes "EncodeToBytes T_Header (of_header h) = Inr b" "EncodeToBytes T_Header (of_header h') = Inr b"
    "length (Bloom h) = 256" "length (Bloom h') = 256" "length b < 2 ^ 63"
  shows "h = h'"
  using DecodeBytes_encoded[OF plain_header wt_header[OF assms(3)] assms(1,5)]
    DecodeBytes_encoded[OF plain_header wt_header[OF assms(4)] assms(2,5)]
  by (intro of_header_inj) simp

subsection \<open>Recovering the signer\<close>

text \<open>
  The cryptography is outside the model: \<open>keccak\<close> hashes, \<open>ecr\<close> is \<open>crypto.Ecrecover\<close>.  The cache of
  signatures is an ARC cache of a library: after an entry has been added, \<open>evict\<close> says which entries
  are left.
\<close>

definition recover_signer :: "(byte list \<Rightarrow> hash) \<Rightarrow> (byte list \<Rightarrow> byte list \<Rightarrow> byte list res) \<Rightarrow> header \<Rightarrow> address res" where
  "recover_signer keccak ecr h =
     (if length (Extra h) < extraSeal then Inl errMissingSignature
      else bind_res (sigHash keccak h) (\<lambda>hs.
        bind_res (ecr (Hash_Bytes hs) (drop (length (Extra h) - extraSeal) (Extra h))) (\<lambda>pubkey.
        if pubkey = [] then Inl PanicIndex
        else Inr (BytesToAddress (drop 12 (Hash_Bytes (keccak (drop 1 pubkey))))))))"

definition ecrecover :: "(byte list \<Rightarrow> hash) \<Rightarrow> (byte list \<Rightarrow> byte list \<Rightarrow> byte list res) \<Rightarrow>
    ((hash, address) gomap \<Rightarrow> (hash, address) gomap) \<Rightarrow> header \<Rightarrow> ((hash, address) gomap, gerror, address) sm" where
  "ecrecover keccak ecr evict h sigcache =
     (case gget sigcache (Header_Hash keccak h) of
        Some a \<Rightarrow> (Inr a, sigcache)
      | None \<Rightarrow> (case recover_signer keccak ecr h of
            Inl e \<Rightarrow> (Inl e, sigcache)
          | Inr a \<Rightarrow> (Inr a, evict (gput sigcache (Header_Hash keccak h) a))))"

text \<open>The answers to a sequence of questions.\<close>

primrec ecrecover_all :: "(byte list \<Rightarrow> hash) \<Rightarrow> (byte list \<Rightarrow> byte list \<Rightarrow> byte list res) \<Rightarrow>
    ((hash, address) gomap \<Rightarrow> (hash, address) gomap) \<Rightarrow> header list \<Rightarrow> (hash, address) gomap \<Rightarrow> address res list" where
  "ecrecover_all keccak ecr evict [] c = []"
| "ecrecover_all keccak ecr evict (h # hs) c =
     (let (r, c') = ecrecover keccak ecr evict h c in r # ecrecover_all keccak ecr evict hs c')"

definition cache_ok :: "(byte list \<Rightarrow> hash) \<Rightarrow> (byte list \<Rightarrow> byte list \<Rightarrow> byte list res) \<Rightarrow> header set \<Rightarrow> (hash, address) gomap \<Rightarrow> bool" where
  "cache_ok keccak ecr S c \<longleftrightarrow>
     (\<forall>k a. gget c k = Some a \<longrightarrow> (\<exists>h \<in> S. k = Header_Hash keccak h \<and> recover_signer keccak ecr h = Inr a))"

lemma ecrecover_cache_ok:
  assumes "cache_ok keccak ecr S c" "inj_on (Header_Hash keccak) S" "h \<in> S"
    "\<And>c k v. gget (evict c) k = Some v \<Longrightarrow> gget c k = Some v" "ecrecover keccak ecr evict h c = (r, c')"
  shows "r = recover_signer keccak ecr h" "cache_ok keccak ecr S c'"
proof -
  have hit: "recover_signer keccak ecr h = Inr a" if "gget c (Header_Hash keccak h) = Some a" for a
  proof -
    obtain g where "g \<in> S" "Header_Hash keccak h = Header_Hash keccak g" "recover_signer keccak ecr g = Inr a"
      using assms(1) \<open>gget c (Header_Hash keccak h) = Some a\<close> unfolding cache_ok_def by blast
    then show ?thesis using inj_onD[OF assms(2), of h g] assms(3) by simp
  qed
  show "r = recover_signer keccak ecr h"
    using assms(5) hit by (auto simp: ecrecover_def split: option.splits sum.splits)
  have "cache_ok keccak ecr S (evict (gput c (Header_Hash keccak h) a))" if "recover_signer keccak ecr h = Inr a" for a
    unfolding cache_ok_def
  proof (intro allI impI)
    fix k x
    assume "gget (evict (gput c (Header_Hash keccak h) a)) k = Some x"
    then have "gget (gput c (Header_Hash keccak h) a) k = Some x" by (rule assms(4))
    then have "(k = Header_Hash keccak h \<and> x = a) \<or> gget c k = Some x" by (simp split: if_splits)
    then show "\<exists>g \<in> S. k = Header_Hash keccak g \<and> recover_signer keccak ecr g = Inr x"
      using assms(1,3) that unfolding cache_ok_def by blast
  qed
  then show "cache_ok keccak ecr S c'"
    using assms(1,5) by (auto simp: ecrecover_def split: option.splits sum.splits)
qed

lemma ecrecover_all_cached:
  assumes "cache_ok keccak ecr S c" "inj_on (Header_Hash keccak) S" "set hs \<subseteq> S"
    "\<And>c k v. gget (evict c) k = Some v \<Longrightarrow> gget c k = Some v"
  shows "ecrecover_all keccak ecr evict hs c = map (recover_signer keccak ecr) hs"
  using assms(1,3)
proof (induction hs arbitrary: c)
  case (Cons h hs)
  obtain r c' where e: "ecrecover keccak ecr evict h c = (r, c')" by fastforce
  note step = ecrecover_cache_ok[OF Cons.prems(1) assms(2) _ assms(4) e]
  show ?case using e step Cons.IH[of c'] Cons.prems(2) by simp
qed simp

subsection \<open>What the codecs and the cache guarantee\<close>

text \<open>
  C32.  The extra data of a header can be read exactly one way: decoding gives back what was encoded, and
  a byte string is accepted only if it is the encoding of what it decodes to.
\<close>

theorem header_extra_codec:
  assumes "length b < 2 ^ 63"
  shows "encodeHeaderExtra cfg n x = Inr b \<longleftrightarrow> decodeHeaderExtra_rlp cfg n b = Inr x"
  using decode_encoded_extra[OF _ assms] encode_decoded_extra by blast

text \<open>
  Extra data can be encoded exactly if none of its integers is negative: block numbers of
  confirmations, stakes, and the number and deposit of a proposal.  With a negative one the encoder
  returns an error, so no block can be built from it.
\<close>

lemma header_extra_encodable:
  "(\<exists>b. encodeHeaderExtra cfg n x = Inr b) \<longleftrightarrow> non_negative x"
  by (rule encodeHeaderExtra_iff)

text \<open>
  C33.  A signature covers everything but itself: if two headers have the same signing hash, and the hash
  function does not collide on the two payloads, they agree on every field, and on the extra data up to
  its last 65 bytes.
\<close>

theorem signature_covers_header:
  assumes "sigHash keccak h = Inr x" "sigHash keccak h' = Inr x"
    "length (Bloom h) = 256" "length (Bloom h') = 256"
    "\<And>b. EncodeToBytes T_Header (of_header (unsealed h)) = Inr b \<Longrightarrow> length b < 2 ^ 63"
    "inj_on keccak {b. EncodeToBytes T_Header (of_header (unsealed h)) = Inr b \<or>
       EncodeToBytes T_Header (of_header (unsealed h')) = Inr b}"
  shows "unsealed h = unsealed h'"
proof -
  obtain b where b: "EncodeToBytes T_Header (of_header (unsealed h)) = Inr b" "keccak b = x"
    using assms(1) by (auto simp: sigHash_def res_simps split: if_splits)
  obtain b' where b': "EncodeToBytes T_Header (of_header (unsealed h')) = Inr b'" "keccak b' = x"
    using assms(2) by (auto simp: sigHash_def res_simps split: if_splits)
  have "b = b'" by (rule inj_onD[OF assms(6)]) (use b b' in auto)
  then show ?thesis
    using encoded_header_inj[OF b(1) _ _ _ assms(5)[OF b(1)], of "unsealed h'"] b'(1) assms(3,4)
    by (simp add: unsealed_def)
qed

text \<open>
  C34.  The signature cache is invisible: whatever the cache evicts, a sequence of calls of
  \<open>ecrecover\<close> that starts with an empty cache answers each header as if there were no cache,
  errors included, as long as the headers have different hashes.
\<close>

theorem ecrecover_cache_transparent:
  assumes "inj_on (Header_Hash keccak) (set hs)"
    "\<And>c k v. gget (evict c) k = Some v \<Longrightarrow> gget c k = Some v"
  shows "ecrecover_all keccak ecr evict hs [] = map (recover_signer keccak ecr) hs"
  by (rule ecrecover_all_cached[OF _ assms(1) order.refl assms(2)]) (simp_all add: cache_ok_def gget_def)

subsection \<open>At concrete inputs\<close>

definition sample_extra :: header_extra where
  "sample_extra = empty_extra\<lparr>Ext_LoopStartTime := 100, ConfirmedBlockNumber := 5\<rparr>"

definition sample_extra_bytes :: "byte list" where
  "sample_extra_bytes = [0xCD, 0xC0, 0xC0, 0xC0, 0xC0, 0xC0, 100, 0xC0, 0xC0, 0x05, 0xC0, 0xC0, 0xC0, 0xC0]"

lemma sample_nat_bytes:
  "nat_bytes 100 = [100]" "nat_bytes 5 = [5]" "nat_bytes (Suc 0) = [1]" "nat_bytes 1003 = [3, 0xEB]"
  by code_simp+

lemma sample_headsize:
  "headsize 0 = 1" "headsize 2 = 1" "headsize 8 = 1" "headsize 20 = 1" "headsize 32 = 1" "headsize 256 = 3"
  "headsize 527 = 3"
  by code_simp+

lemma sample_extra_encoded: "encodeHeaderExtra cfg n sample_extra = Inr sample_extra_bytes"
  by (simp add: encodeHeaderExtra_def EncodeToBytes_eq T_HeaderExtra_def of_extra_def of_slice_def
      sample_extra_def sample_extra_bytes_def empty_extra_def enc_list_def puthead_def enc_nat_def enc_string_def
      rlp_res_def sample_nat_bytes)

theorem header_extra_codec_witness: "decodeHeaderExtra_rlp sample_config 1 sample_extra_bytes = Inr sample_extra"
  using header_extra_codec[of sample_extra_bytes sample_config 1 sample_extra] sample_extra_encoded
  by (simp add: sample_extra_bytes_def)

text \<open>Two headers that differ in the signature only, with a hash function that tells payloads apart by length.\<close>

definition sealed_header :: "byte list \<Rightarrow> header" where
  "sealed_header sig = sample_header\<lparr>Bloom := replicate 256 0, Extra := replicate 32 0 @ sig\<rparr>"

definition length_hash :: "byte list \<Rightarrow> hash" where
  "length_hash b = of_nat (length b)"

lemma unsealed_sealed: "length sig = 65 \<Longrightarrow> unsealed (sealed_header sig) = sealed_header []"
  by (simp add: unsealed_def sealed_header_def)

lemma sealed_payload:
  "case EncodeToBytes T_Header (of_header (sealed_header [])) of Inl _ \<Rightarrow> False | Inr b \<Rightarrow> length b = 530"
  by (simp add: EncodeToBytes_eq T_Header_def of_header_def sealed_header_def sample_header_def enc_list_def
      length_puthead enc_nat_def enc_string_def enc_big_def T_Hash_def T_Address_def of_hash_def of_address_def
      EncodeNonce_def Hash_Bytes_def Address_Bytes_def HashLength_def AddressLength_def sample_nat_bytes
      sample_headsize)

lemma sigHash_sealed: "length sig = 65 \<Longrightarrow> sigHash length_hash (sealed_header sig) = Inr 530"
  using sealed_payload unsealed_sealed[of sig]
  by (simp add: sigHash_def length_hash_def rlp_res_def sealed_header_def split: sum.splits)

theorem signature_covers_header_witness:
  "unsealed (sealed_header (replicate 65 1)) = unsealed (sealed_header (replicate 65 2))"
  by (rule signature_covers_header[OF sigHash_sealed sigHash_sealed])
    (use sealed_payload in \<open>auto simp: unsealed_sealed inj_on_def split: sum.splits\<close>,
      simp_all add: sealed_header_def)

definition toy_ecr :: "byte list \<Rightarrow> byte list \<Rightarrow> byte list res" where
  "toy_ecr h sig = Inr sig"

theorem ecrecover_cache_transparent_witness:
  "ecrecover_all length_hash toy_ecr (\<lambda>c. c) [sample_header, sample_header] [] =
     map (recover_signer length_hash toy_ecr) [sample_header, sample_header]"
  by (rule ecrecover_cache_transparent) simp_all

end
