(* ===== verification/Alien_Engine.thy ===== *)
theory Alien_Engine
  imports Alien_CustomTx Alien_Codec
begin

text \<open>
  The consensus engine of \<open>consensus/alien/alien.go\<close>: verifying headers, finding the snapshot of a
  block, making and sealing a block.

  The engine is a state (\<open>engine\<close>): its configuration, the database of checkpoints, the cache of recent
  snapshots, the signer, and the package variables a side chain keeps about its main chain.  An
  operation of the engine is a computation in \<open>sm\<close>, so what it has stored stays stored when it fails.
  The blockchain, the clock, the cache policy, the database, the sorting of the signer queue and the
  client of the main chain are outside and are arguments (\<open>chain_reader\<close>, \<open>node\<close>).

  The snapshots in the cache share the configuration of the engine by pointer; a snapshot read from
  the cache therefore carries the engine's current configuration.

  \<open>snapshot\<close> and \<open>verifyHeader\<close> call each other, through the check of the genesis block.  The argument
  \<open>d\<close> bounds the depth of that recursion; \<open>NotTerminating\<close> is the result when it is used up.
\<close>

subsection \<open>State and surroundings\<close>

definition checkpointInterval :: u64 where "checkpointInterval = 360"
definition scUnconfirmLoop :: u64 where "scUnconfirmLoop = 3"
definition defaultEpochLength :: u64 where "defaultEpochLength = 201600"
definition defaultBlockPeriod :: u64 where "defaultBlockPeriod = 3"
definition defaultMaxSignerCount :: u64 where "defaultMaxSignerCount = 21"
definition defaultDifficulty :: int where "defaultDifficulty = 1"

text \<open>What a main chain tells a side chain about one of its snapshots.\<close>

record mc_snapshot =
  MS_LoopStartTime :: u64
  MS_Period :: u64
  MS_Signers :: "address list"
  MS_Number :: u64
  MS_SCNoticeMap :: "(hash, cc_notice) gomap"

text \<open>The calls a side chain makes through the client of its main chain.\<close>

record mc_client =
  alien_getSnapshotByHeaderTime :: "u64 \<Rightarrow> hash \<Rightarrow> mc_snapshot option res"
  eth_sendRawTransaction :: "byte list \<Rightarrow> hash res"
  eth_getTransactionCount :: "address \<Rightarrow> u64 res"
  net_version :: "u64 res"

record chain_reader =
  GetHeader :: "hash \<Rightarrow> u64 \<Rightarrow> header option"
  GetHeaderByNumber :: "u64 \<Rightarrow> header option"
  GetHeaderByHash :: "hash \<Rightarrow> header option"
  CurrentHeader :: "header option"
  Chain_Alien :: alien_config
  MCRPCClient :: "mc_client option"

record node =
  Env :: env
  Now :: int                                                        \<comment> \<open>\<open>time.Now().Unix()\<close>\<close>
  recents_evict :: "(hash, snapshot) gomap \<Rightarrow> (hash, snapshot) gomap"
  db_accepts :: "hash \<Rightarrow> bool"
  uncleHash :: hash
  sorter :: signer_sorter

record engine =
  E_config :: alien_config
  E_db :: "hash \<Rightarrow> snapshot option"
  recents :: "(hash, snapshot) gomap"
  E_signer :: address
  lcsc :: u64
  mcNetVersion :: u64
  mcLoopStartTime :: u64
  mcPeriod :: u64
  mcSignerLength :: u64

type_synonym 'a eng = "(engine, gerror, 'a) sm"

definition New :: "alien_config \<Rightarrow> (hash \<Rightarrow> snapshot option) \<Rightarrow> engine" where
  "New cfg db =
     \<lparr>E_config = cfg\<lparr>Epoch := (if Epoch cfg = 0 then defaultEpochLength else Epoch cfg),
                    Period := (if Period cfg = 0 then defaultBlockPeriod else Period cfg),
                    MaxSignerCount := (if MaxSignerCount cfg = 0 then defaultMaxSignerCount
                                       else MaxSignerCount cfg)\<rparr>,
      E_db = db, recents = [], E_signer = 0, lcsc = 0, mcNetVersion = 0, mcLoopStartTime = 0,
      mcPeriod = 0, mcSignerLength = 0\<rparr>"

definition Authorize :: "address \<Rightarrow> engine \<Rightarrow> engine" where
  "Authorize signer e = e\<lparr>E_signer := signer\<rparr>"

definition Author :: "node \<Rightarrow> header \<Rightarrow> address res" where
  "Author nd hdr = recover (Env nd) hdr"

definition VerifyUncles :: "header list \<Rightarrow> unit res" where
  "VerifyUncles uncles = (if length uncles > 0 then Inl errUnclesNotAllowed else Inr ())"

definition CalcDifficulty :: "chain_reader \<Rightarrow> u64 \<Rightarrow> header \<Rightarrow> int" where
  "CalcDifficulty chain time parent = defaultDifficulty"

subsection \<open>Snapshots\<close>

definition recents_Get :: "hash \<Rightarrow> engine \<Rightarrow> snapshot option" where
  "recents_Get h e = map_option (\<lambda>s. s\<lparr>config := E_config e\<rparr>) (gget (recents e) h)"

definition recents_Add :: "node \<Rightarrow> snapshot \<Rightarrow> unit eng" where
  "recents_Add nd s = modify_sm (\<lambda>e. e\<lparr>recents := recents_evict nd (gput (recents e) (Hash s) s)\<rparr>)"

definition store :: "node \<Rightarrow> snapshot \<Rightarrow> unit eng" where
  "store nd s e =
     (if db_accepts nd (Hash s) then (Inr (), e\<lparr>E_db := storeSnapshot (E_db e) s\<rparr>) else (Inl (ErrExternal 2), e))"

text \<open>The snapshot of the genesis block; \<open>check\<close> is \<open>VerifyHeader\<close>.\<close>

definition genesisSnapshot :: "node \<Rightarrow> chain_reader \<Rightarrow> (header \<Rightarrow> unit eng) \<Rightarrow> vote list \<Rightarrow> u64 \<Rightarrow> snapshot eng" where
  "genesisSnapshot nd chain check genesisVotes lcrs =
     (case GetHeaderByNumber chain 0 of
        None \<Rightarrow> fail_sm PanicNil
      | Some genesis \<Rightarrow>
          bind_sm (check genesis) (\<lambda>_.
          bind_sm (modify_sm (\<lambda>e. e\<lparr>E_config := (E_config e)\<lparr>Period := Period (Chain_Alien chain)\<rparr>\<rparr>)) (\<lambda>_.
          bind_sm get_sm (\<lambda>e.
            let snap = newSnapshot (Uint64 (Now nd)) (E_config e) (header_hash (Env nd) genesis) genesisVotes lcrs
            in bind_sm (store nd snap) (\<lambda>_. return_sm snap)))))"

text \<open>The header of a block without a snapshot: from the end of \<open>parents\<close>, or from the chain.\<close>

definition pickHeader :: "node \<Rightarrow> chain_reader \<Rightarrow> u64 \<Rightarrow> hash \<Rightarrow> header list \<Rightarrow> (header \<times> header list) res" where
  "pickHeader nd chain number h parents =
     (if length parents > 0
      then (let header = last parents in
            if header_hash (Env nd) header \<noteq> h \<or> Uint64 (Hdr_Number header) \<noteq> number then Inl ErrUnknownAncestor
            else Inr (header, butlast parents))
      else (case GetHeader chain h number of
              None \<Rightarrow> Inl ErrUnknownAncestor
            | Some header \<Rightarrow> Inr (header, parents)))"

text \<open>The loop that goes back to a known snapshot; \<open>headers\<close> are those passed on the way.\<close>

function (sequential) findSnapshot :: "node \<Rightarrow> chain_reader \<Rightarrow> (header \<Rightarrow> unit eng) \<Rightarrow> vote list \<Rightarrow> u64 \<Rightarrow>
    u64 \<Rightarrow> hash \<Rightarrow> header list \<Rightarrow> header list \<Rightarrow> (snapshot \<times> header list) eng" where
  "findSnapshot nd chain check genesisVotes lcrs number h parents headers e =
     (case recents_Get h e of
        Some s \<Rightarrow> (Inr (s, headers), e)
      | None \<Rightarrow>
          (case (if number mod checkpointInterval = 0 then loadSnapshot (E_db e) (E_config e) h else None) of
             Some s \<Rightarrow> (Inr (s, headers), e)
           | None \<Rightarrow>
               if number = 0
               then bind_sm (genesisSnapshot nd chain check genesisVotes lcrs) (\<lambda>s. return_sm (s, headers)) e
               else (case pickHeader nd chain number h parents of
                       Inl err \<Rightarrow> (Inl err, e)
                     | Inr (header, parents') \<Rightarrow>
                         findSnapshot nd chain check genesisVotes lcrs (number - 1) (ParentHash header) parents'
                           (headers @ [header]) e)))"
  by pat_completeness auto
termination
  by (relation "measure (\<lambda>(_, _, _, _, _, number, _). unat number)")
    (auto intro: u64_pred_less[of 0] simp: word_gt_0)

definition snapshotWith :: "node \<Rightarrow> chain_reader \<Rightarrow> (header \<Rightarrow> unit eng) \<Rightarrow> u64 \<Rightarrow> hash \<Rightarrow> header list \<Rightarrow> vote list \<Rightarrow>
    u64 \<Rightarrow> snapshot eng" where
  "snapshotWith nd chain check number h parents genesisVotes lcrs =
     bind_sm (findSnapshot nd chain check genesisVotes lcrs number h parents []) (\<lambda>(snap, headers).
     bind_sm (lift_sm (apply_snapshot (Env nd) snap (rev headers))) (\<lambda>snap'.
     bind_sm (recents_Add nd snap') (\<lambda>_.
     bind_sm (if Number snap' mod checkpointInterval = 0 \<and> length headers > 0 then store nd snap' else return_sm ())
       (\<lambda>_. return_sm snap'))))"

subsection \<open>Verifying headers\<close>

text \<open>The body of the extra data, \<open>Extra[extraVanity : len(Extra)-extraSeal]\<close>, decoded.\<close>

definition decodeExtra :: "node \<Rightarrow> alien_config \<Rightarrow> header \<Rightarrow> header_extra res" where
  "decodeExtra nd cfg hdr =
     bind_res (go_slice (Extra hdr) (int extraVanity) (int (length (Extra hdr)) - int extraSeal))
       (decodeHeaderExtra (Env nd) cfg (Hdr_Number hdr))"

text \<open>The header before \<open>hdr\<close>.\<close>

definition parentOf :: "chain_reader \<Rightarrow> header \<Rightarrow> header list \<Rightarrow> header option" where
  "parentOf chain hdr parents =
     (if length parents > 0 then Some (last parents)
      else GetHeader chain (ParentHash hdr) (Uint64 (Hdr_Number hdr) - 1))"

text \<open>Comparing the queues of two headers, place by place.\<close>

definition sameQueue :: "u64 \<Rightarrow> address list \<Rightarrow> address list \<Rightarrow> unit res" where
  "sameQueue maxSignerCount pq cq =
     foldM (\<lambda>_ i. bind_res (go_nth pq (int i)) (\<lambda>p. bind_res (go_nth cq (int i)) (\<lambda>c.
       if p \<noteq> c then Inl errInvalidSignerQueue else Inr ()))) () [0..<nat (go_int maxSignerCount)]"

text \<open>
  The signers that missed their turn before \<open>hdr\<close>, as \<open>verifySeal\<close> and \<open>Finalize\<close> compute them.  The
  queue before the parent's is needed in the first block of a loop.
\<close>

definition missingSigners :: "node \<Rightarrow> alien_config \<Rightarrow> (unit \<Rightarrow> header option) \<Rightarrow> header \<Rightarrow> header \<Rightarrow> header_extra \<Rightarrow>
    address list res" where
  "missingSigners nd cfg getGrandParent parent hdr parentExtra =
     (let number = Uint64 (Hdr_Number hdr) in
      if IsTrantor cfg (Some (Hdr_Number hdr))
      then bind_res (u64_mod number (MaxSignerCount cfg)) (\<lambda>r.
           bind_res (if r = 1
                     then (case getGrandParent () of
                             None \<Rightarrow> Inl errLastLoopHeaderFail
                           | Some grandParent \<Rightarrow> decodeExtra nd cfg grandParent)
                     else Inr empty_extra) (\<lambda>gpExtra.
             getSignerMissingTrantor (Coinbase parent) (Coinbase hdr) parentExtra (Some gpExtra)))
      else bind_res (u64_mod number (MaxSignerCount cfg)) (\<lambda>r.
             Inr (getSignerMissing (Coinbase parent) (Coinbase hdr) parentExtra (r = 0))))"

definition grandParentOf :: "chain_reader \<Rightarrow> header list \<Rightarrow> header \<Rightarrow> u64 \<Rightarrow> header option" where
  "grandParentOf chain parents parent number =
     (if length parents > 1 then Some (parents ! (length parents - 2))
      else GetHeader chain (ParentHash parent) (number - 2))"

text \<open>The checks of \<open>verifySeal\<close> on a main chain after the first loop.\<close>

definition verifyLoop :: "node \<Rightarrow> chain_reader \<Rightarrow> alien_config \<Rightarrow> snapshot \<Rightarrow> address \<Rightarrow> header list \<Rightarrow> header \<Rightarrow> unit res" where
  "verifyLoop nd chain cfg snap signer parents hdr =
     (let number = Uint64 (Hdr_Number hdr) in
      (case parentOf chain hdr parents of
         None \<Rightarrow> Inl PanicNil
       | Some parent \<Rightarrow>
           bind_res (decodeExtra nd cfg parent) (\<lambda>parentExtra.
           bind_res (decodeExtra nd cfg hdr) (\<lambda>currentExtra.
           bind_res (u64_mod number (MaxSignerCount cfg)) (\<lambda>r.
           bind_res (if r = 0 then verifySignerQueue (sorter nd) snap (SignerQueue currentExtra)
                     else bind_res (sameQueue (MaxSignerCount cfg) (SignerQueue parentExtra) (SignerQueue currentExtra))
                       (\<lambda>_. if signer = Coinbase parent \<and>
                              Uint64 (Hdr_Time hdr) - Uint64 (Hdr_Time parent) < Period (Chain_Alien chain)
                            then Inl errInvalidNeighborSigner else Inr ())) (\<lambda>_.
           bind_res (missingSigners nd cfg (\<lambda>_. grandParentOf chain parents parent number) parent hdr parentExtra)
             (\<lambda>missing. if missing \<noteq> SignerMissing currentExtra then Inl errPunishedMissing else Inr ())))))))"

text \<open>
  The main chain's snapshot at a time, and whether \<open>signer\<close> is in turn there.  The quotient is
  converted to \<open>int\<close> before the remainder is taken, so the index may be negative.
\<close>

definition getMainChainSnapshotByTime :: "chain_reader \<Rightarrow> u64 \<Rightarrow> hash \<Rightarrow> mc_snapshot res" where
  "getMainChainSnapshotByTime chain headerTime scHash =
     (if \<not> SideChain (Chain_Alien chain) then Inl errNotSideChain
      else (case MCRPCClient chain of
              None \<Rightarrow> Inl errMCRPCClientEmpty
            | Some client \<Rightarrow>
                bind_res (alien_getSnapshotByHeaderTime client headerTime scHash) (\<lambda>ms.
                case ms of None \<Rightarrow> Inl PanicNil
                | Some ms \<Rightarrow> if MS_Period ms = 0 then Inl errMCPeriodMissing else Inr ms)))"

definition go_rem :: "int \<Rightarrow> int \<Rightarrow> int" where
  "go_rem a b = sgn a * (\<bar>a\<bar> mod \<bar>b\<bar>)"

definition mcSnapshot :: "chain_reader \<Rightarrow> address \<Rightarrow> u64 \<Rightarrow> (cc_notice \<times> u64 \<times> u64 \<times> u64 \<times> u64) res" where
  "mcSnapshot chain signer headerTime =
     (if SideChain (Chain_Alien chain)
      then (case GetHeaderByNumber chain 0 of
              None \<Rightarrow> Inl PanicNil
            | Some genesis \<Rightarrow>
                let chainHash = ParentHash genesis in
                bind_res (getMainChainSnapshotByTime chain headerTime chainHash) (\<lambda>ms.
                if length (MS_Signers ms) = 0 then Inl errSignerQueueEmpty
                else if MS_Period ms = 0 then Inl errMCPeriodMissing
                else let loopIndex = go_rem (go_int ((headerTime - MS_LoopStartTime ms) div MS_Period ms))
                                       (int (length (MS_Signers ms)))
                in if loopIndex \<ge> int (length (MS_Signers ms)) then Inl errInvalidSignerQueue
                else bind_res (go_nth (MS_Signers ms) loopIndex) (\<lambda>s.
                  if s \<noteq> signer then Inl errUnauthorized
                  else Inr ((case gget (MS_SCNoticeMap ms) chainHash of
                               Some mcNotice \<Rightarrow> mcNotice
                             | None \<Rightarrow> \<lparr>CurrentCharging = [], ConfirmReceived = []\<rparr>),
                            MS_LoopStartTime ms, MS_Period ms, of_nat (length (MS_Signers ms)), MS_Number ms))))
      else Inl errNotSideChain)"

text \<open>
  The gas charges of a side chain header against those the main chain announced.  A charge the main
  chain does not know makes the code return \<open>err\<close>, which is \<open>nil\<close> there: the header is accepted
  without a look at the remaining charges.
\<close>

fun checkCharging :: "(hash, gas_charging) gomap \<Rightarrow> gas_charging list \<Rightarrow> unit res" where
  "checkCharging announced [] = Inr ()"
| "checkCharging announced (charge # cs) =
     (case gget announced (GC_Hash charge) of
        None \<Rightarrow> Inr ()
      | Some v \<Rightarrow> if Volume v \<noteq> Volume charge \<or> Target v \<noteq> Target charge then Inl errMCGasChargingInvalid
                 else checkCharging announced cs)"

definition verifySideChain :: "node \<Rightarrow> chain_reader \<Rightarrow> address \<Rightarrow> header \<Rightarrow> unit eng" where
  "verifySideChain nd chain signer hdr =
     bind_sm (lift_sm (mcSnapshot chain signer (Uint64 (Hdr_Time hdr)))) (\<lambda>(notice, loopStartTime, period, signerLength, _).
     bind_sm (modify_sm (\<lambda>e. e\<lparr>mcLoopStartTime := loopStartTime, mcPeriod := period, mcSignerLength := signerLength\<rparr>)) (\<lambda>_.
     bind_sm get_sm (\<lambda>e.
     bind_sm (lift_sm (decodeExtra nd (E_config e) hdr)) (\<lambda>currentExtra.
       if length (CurrentCharging notice) \<noteq> length (SideChainCharging currentExtra) then fail_sm errMCGasChargingInvalid
       else lift_sm (checkCharging (CurrentCharging notice) (SideChainCharging currentExtra))))))"

definition verifySealWith :: "node \<Rightarrow> chain_reader \<Rightarrow> (u64 \<Rightarrow> hash \<Rightarrow> header list \<Rightarrow> snapshot eng) \<Rightarrow> header \<Rightarrow>
    header list \<Rightarrow> unit eng" where
  "verifySealWith nd chain snapshotAt hdr parents =
     (let number = Uint64 (Hdr_Number hdr) in
      if number = 0 then fail_sm errUnknownBlock
      else bind_sm (snapshotAt (number - 1) (ParentHash hdr) parents) (\<lambda>snap.
           bind_sm (lift_sm (recover (Env nd) hdr)) (\<lambda>signer.
           if Hdr_Number hdr > bugFixBlockNumber \<and> signer \<noteq> Coinbase hdr then fail_sm errUnauthorized
           else if \<not> SideChain (Chain_Alien chain)
           then bind_sm get_sm (\<lambda>e.
                bind_sm (lift_sm (if number > MaxSignerCount (E_config e)
                                  then verifyLoop nd chain (E_config e) snap signer parents hdr else Inr ())) (\<lambda>_.
                bind_sm (lift_sm (inturn snap signer (Uint64 (Hdr_Time hdr)))) (\<lambda>ok.
                  if \<not> ok then fail_sm errUnauthorized else return_sm ())))
           else verifySideChain nd chain signer hdr)))"

definition verifyCascadingWith :: "node \<Rightarrow> chain_reader \<Rightarrow> (u64 \<Rightarrow> hash \<Rightarrow> header list \<Rightarrow> snapshot eng) \<Rightarrow> header \<Rightarrow>
    header list \<Rightarrow> unit eng" where
  "verifyCascadingWith nd chain snapshotAt hdr parents =
     (let number = Uint64 (Hdr_Number hdr) in
      if number = 0 then return_sm ()
      else (case parentOf chain hdr parents of
              None \<Rightarrow> fail_sm ErrUnknownAncestor
            | Some parent \<Rightarrow>
                if Uint64 (Hdr_Number parent) \<noteq> number - 1 \<or> header_hash (Env nd) parent \<noteq> ParentHash hdr
                then fail_sm ErrUnknownAncestor
                else if Uint64 (Hdr_Time parent) > Uint64 (Hdr_Time hdr) then fail_sm ErrInvalidTimestamp
                else bind_sm (snapshotAt (number - 1) (ParentHash hdr) parents) (\<lambda>_.
                     verifySealWith nd chain snapshotAt hdr parents)))"

definition verifyHeaderWith :: "node \<Rightarrow> chain_reader \<Rightarrow> (u64 \<Rightarrow> hash \<Rightarrow> header list \<Rightarrow> snapshot eng) \<Rightarrow> header \<Rightarrow>
    header list \<Rightarrow> unit eng" where
  "verifyHeaderWith nd chain snapshotAt hdr parents =
     (if Hdr_Time hdr > Now nd then fail_sm ErrFutureBlock
      else if length (Extra hdr) < extraVanity then fail_sm errMissingVanity
      else if length (Extra hdr) < extraVanity + extraSeal then fail_sm errMissingSignature
      else if MixDigest hdr \<noteq> 0 then fail_sm errInvalidMixDigest
      else if UncleHash hdr \<noteq> uncleHash nd then fail_sm errInvalidUncleHash
      else verifyCascadingWith nd chain snapshotAt hdr parents)"

text \<open>Tying the knot.\<close>

primrec verifyHeader :: "nat \<Rightarrow> node \<Rightarrow> chain_reader \<Rightarrow> header \<Rightarrow> header list \<Rightarrow> unit eng" where
  "verifyHeader 0 nd chain hdr parents = fail_sm NotTerminating"
| "verifyHeader (Suc d) nd chain hdr parents =
     verifyHeaderWith nd chain (\<lambda>number h ps. snapshotWith nd chain (\<lambda>g. verifyHeader d nd chain g [])
       number h ps [] defaultLoopCntRecalculateSigners) hdr parents"

definition snapshot_of :: "nat \<Rightarrow> node \<Rightarrow> chain_reader \<Rightarrow> u64 \<Rightarrow> hash \<Rightarrow> header list \<Rightarrow> vote list \<Rightarrow> u64 \<Rightarrow> snapshot eng" where
  "snapshot_of d nd chain = snapshotWith nd chain (\<lambda>g. verifyHeader d nd chain g [])"

definition verifySeal :: "nat \<Rightarrow> node \<Rightarrow> chain_reader \<Rightarrow> header \<Rightarrow> header list \<Rightarrow> unit eng" where
  "verifySeal d nd chain = verifySealWith nd chain (\<lambda>number h ps.
     snapshot_of d nd chain number h ps [] defaultLoopCntRecalculateSigners)"

definition VerifyHeader :: "nat \<Rightarrow> node \<Rightarrow> chain_reader \<Rightarrow> header \<Rightarrow> unit eng" where
  "VerifyHeader d nd chain hdr = verifyHeader d nd chain hdr []"

text \<open>The results of a batch, in order; every header is checked with the ones before it as parents.\<close>

primrec VerifyHeaders :: "nat \<Rightarrow> node \<Rightarrow> chain_reader \<Rightarrow> header list \<Rightarrow> header list \<Rightarrow> engine \<Rightarrow> unit res list \<times> engine" where
  "VerifyHeaders d nd chain before [] e = ([], e)"
| "VerifyHeaders d nd chain before (hdr # hs) e =
     (let (r, e') = verifyHeader d nd chain hdr before e;
          (rs, e'') = VerifyHeaders d nd chain (before @ [hdr]) hs e'
      in (r # rs, e''))"

subsection \<open>Making a block\<close>

definition selfVote :: "balances \<Rightarrow> vote list \<Rightarrow> address \<Rightarrow> vote list" where
  "selfVote st vs a =
     (if a \<in> Voter ` set vs then vs else vs @ [\<lparr>Voter = a, Candidate = a, Stake = st a\<rparr>])"

definition selfVotes :: "alien_config \<Rightarrow> balances \<Rightarrow> vote list" where
  "selfVotes cfg st = foldl (selfVote st) [] (SelfVoteSigners cfg)"

definition vanity :: "byte list \<Rightarrow> byte list" where
  "vanity extra = take extraVanity (if length extra < extraVanity
     then extra @ replicate (extraVanity - length extra) 0 else extra)"

definition blockTime :: "node \<Rightarrow> alien_config \<Rightarrow> header \<Rightarrow> int" where
  "blockTime nd cfg parent =
     (let t = Hdr_Time parent + uint (Period cfg) in if wrap_int t < Now nd then Now nd else t)"

text \<open>What the extra data takes over from the parent, with the votes for the genesis snapshot.\<close>

definition startExtra :: "node \<Rightarrow> chain_reader \<Rightarrow> alien_config \<Rightarrow> balances \<Rightarrow> header \<Rightarrow> header \<Rightarrow>
    (vote list \<times> header_extra \<times> header_extra) res" where
  "startExtra nd chain cfg st parent hdr =
     (let number = Uint64 (Hdr_Number hdr) in
      if number = 1 then Inr (selfVotes cfg st, empty_extra, empty_extra)
      else bind_res (decodeExtra nd cfg parent) (\<lambda>parentExtra.
           bind_res (missingSigners nd cfg (\<lambda>_. GetHeader chain (ParentHash parent) (number - 2)) parent hdr parentExtra)
             (\<lambda>missing. Inr ([], parentExtra, empty_extra\<lparr>
                ConfirmedBlockNumber := ConfirmedBlockNumber parentExtra, SignerQueue := SignerQueue parentExtra,
                Ext_LoopStartTime := Ext_LoopStartTime parentExtra, SignerMissing := missing\<rparr>))))"

text \<open>The signer queue and the start of the loop: new at the start of a loop, otherwise the parent's.\<close>

definition loopExtra :: "node \<Rightarrow> alien_config \<Rightarrow> snapshot \<Rightarrow> u64 \<Rightarrow> header_extra \<Rightarrow> header_extra res" where
  "loopExtra nd cfg snap number x =
     (if number = 1
      then (let x1 = x\<lparr>Ext_LoopStartTime := GenesisTimestamp cfg\<rparr>; self = SelfVoteSigners cfg in
            Inr (if length self > 0
                 then x1\<lparr>SignerQueue := SignerQueue x1 @
                        map (\<lambda>i. self ! (i mod length self)) [0..<nat (go_int (MaxSignerCount cfg))]\<rparr>
                 else x1))
      else bind_res (u64_mod number (MaxSignerCount cfg)) (\<lambda>r.
           if r = 0
           then bind_res (createSignerQueue (sorter nd) snap) (\<lambda>newSignerQueue.
                  Inr (x\<lparr>Ext_LoopStartTime := Ext_LoopStartTime x + Period cfg * MaxSignerCount cfg,
                         SignerQueue := newSignerQueue\<rparr>))
           else Inr x))"

definition rewardError :: "balances res \<Rightarrow> balances res" where
  "rewardError r = (case r of Inl e \<Rightarrow> Inl (if is_panic e then e else errUnauthorized) | Inr st \<Rightarrow> Inr st)"

definition mainChainExtra :: "node \<Rightarrow> chain_reader \<Rightarrow> (u64 \<Rightarrow> hash \<Rightarrow> snapshot res) \<Rightarrow> alien_config \<Rightarrow> snapshot \<Rightarrow>
    header_extra \<Rightarrow> header \<Rightarrow> balances \<Rightarrow> transaction list \<Rightarrow> receipt list \<Rightarrow> (header_extra \<times> balances) res" where
  "mainChainExtra nd chain snapshotAt cfg snap extra hdr st txs receipts =
     bind_res (processCustomTx (Env nd) cfg (GetHeaderByNumber chain) snapshotAt extra hdr st txs receipts)
       (\<lambda>(x, refundGas, st1).
     let x1 = x\<lparr>ConfirmedBlockNumber := Uint64 (getLastConfirmedBlockNumber snap (CurrentBlockConfirmations x))\<rparr> in
     bind_res (loopExtra nd cfg snap (Uint64 (Hdr_Number hdr)) x1) (\<lambda>x2.
     bind_res (rewardError (accumulateRewards (Chain_Alien chain) st1 hdr snap refundGas)) (\<lambda>st2.
       Inr (x2, st2))))"

definition sideChainExtra :: "alien_config \<Rightarrow> snapshot \<Rightarrow> header_extra \<Rightarrow> header_extra \<Rightarrow> header \<Rightarrow> balances \<Rightarrow>
    (header_extra \<times> balances) res" where
  "sideChainExtra cfg snap parentExtra extra hdr st =
     (let q = Coinbase hdr # SignerQueue parentExtra in
      bind_res (if int (length q) > go_int (MaxSignerCount cfg) then go_slice q 0 (go_int (MaxSignerCount cfg)) else Inr q)
        (\<lambda>q'. Inr (extra\<lparr>SignerQueue := q'\<rparr>, sideChainRewards st hdr snap)))"

text \<open>
  \<open>processCustomTx\<close> asks for the parent's snapshot itself, except in block 1; \<open>again\<close> is that call.
\<close>

definition finalizeMain :: "node \<Rightarrow> chain_reader \<Rightarrow> snapshot eng \<Rightarrow> snapshot \<Rightarrow> header_extra \<Rightarrow> header \<Rightarrow> balances \<Rightarrow>
    transaction list \<Rightarrow> receipt list \<Rightarrow> (header_extra \<times> balances) eng" where
  "finalizeMain nd chain again snap extra hdr st txs receipts e =
     (case (if Uint64 (Hdr_Number hdr) > 1 then again e else (Inl PanicNil, e)) of (r, e') \<Rightarrow>
        (mainChainExtra nd chain (\<lambda>_ _. r) (E_config e') snap extra hdr st txs receipts, e'))"

text \<open>
  \<open>root\<close> is the state root of the balances; \<open>assemble\<close> is \<open>types.NewBlock\<close>, which fills in the roots of
  the transactions and receipts.
\<close>

definition Finalize :: "nat \<Rightarrow> node \<Rightarrow> chain_reader \<Rightarrow> (balances \<Rightarrow> hash) \<Rightarrow>
    (header \<Rightarrow> transaction list \<Rightarrow> receipt list \<Rightarrow> header) \<Rightarrow>
    header \<Rightarrow> balances \<Rightarrow> transaction list \<Rightarrow> receipt list \<Rightarrow> (header \<times> balances) eng" where
  "Finalize d nd chain root assemble hdr st txs receipts =
     (let number = Uint64 (Hdr_Number hdr);
          snapshotAt = (\<lambda>votes. snapshot_of d nd chain (number - 1) (ParentHash hdr) [] votes defaultLoopCntRecalculateSigners)
      in
      (case GetHeader chain (ParentHash hdr) (number - 1) of
         None \<Rightarrow> fail_sm ErrUnknownAncestor
       | Some parent \<Rightarrow>
           bind_sm get_sm (\<lambda>e.
           let hdr1 = hdr\<lparr>MixDigest := 0, Hdr_Time := blockTime nd (E_config e) parent, Extra := vanity (Extra hdr)\<rparr> in
           bind_sm (lift_sm (startExtra nd chain (E_config e) st parent hdr1)) (\<lambda>(genesisVotes, parentExtra, extra).
           bind_sm (snapshotAt genesisVotes) (\<lambda>snap.
           bind_sm get_sm (\<lambda>e1.
           bind_sm (if \<not> SideChain (Chain_Alien chain)
                    then finalizeMain nd chain (snapshotAt []) snap extra hdr1 st txs receipts
                    else lift_sm (sideChainExtra (E_config e1) snap parentExtra extra hdr1 st)) (\<lambda>(x, st').
           bind_sm get_sm (\<lambda>e2.
           bind_sm (lift_sm (encodeHeaderExtra (E_config e2) (Hdr_Number hdr1) x)) (\<lambda>enc.
           let hdr2 = hdr1\<lparr>Extra := Extra hdr1 @ enc @ replicate extraSeal 0, Difficulty := defaultDifficulty,
                           Root := root st', UncleHash := uncleHash nd\<rparr>
           in return_sm (assemble hdr2 txs receipts, st'))))))))))"

definition allocVote :: "(address \<Rightarrow> int option) \<Rightarrow> vote list \<Rightarrow> address \<Rightarrow> vote list" where
  "allocVote alloc vs a =
     (case alloc a of None \<Rightarrow> vs
      | Some bal \<Rightarrow> if a \<in> Voter ` set vs then vs else vs @ [\<lparr>Voter = a, Candidate = a, Stake = bal\<rparr>])"

text \<open>\<open>light\<close> is the light configuration, its balances already parsed.\<close>

definition ApplyGenesis :: "nat \<Rightarrow> node \<Rightarrow> chain_reader \<Rightarrow> (address \<Rightarrow> int option) option \<Rightarrow> hash \<Rightarrow> unit eng" where
  "ApplyGenesis d nd chain light genesisHash =
     (case light of
        None \<Rightarrow> fail_sm errMissingGenesisLightConfig
      | Some alloc \<Rightarrow>
          bind_sm get_sm (\<lambda>e.
          bind_sm (snapshot_of d nd chain 0 genesisHash [] (foldl (allocVote alloc) [] (SelfVoteSigners (E_config e)))
            defaultLoopCntRecalculateSigners) (\<lambda>_. return_sm ())))"

text \<open>The difficulty; the waiting for the start of the chain has no effect on the header.\<close>

definition Prepare :: "header \<Rightarrow> header" where
  "Prepare hdr = hdr\<lparr>Difficulty := defaultDifficulty\<rparr>"

subsection \<open>Confirming side chain blocks on the main chain\<close>

definition parseNoticeInfo :: "cc_notice \<Rightarrow> string" where
  "parseNoticeInfo notice = join ''#'' (map (\<lambda>(h, _). Hash_Hex h) (CurrentCharging notice))"

text \<open>
  The headers of the last complete loop before \<open>hdr\<close>: going back, the time within the loop of the main
  chain grows where a loop ends.  \<open>n\<close> is the number of headers to look at.
\<close>

primrec lastLoopHeaders :: "chain_reader \<Rightarrow> u64 \<Rightarrow> u64 \<Rightarrow> (address \<Rightarrow> string) \<Rightarrow> nat \<Rightarrow> header \<Rightarrow> bool \<Rightarrow> u64 \<Rightarrow>
    string list \<Rightarrow> string list res" where
  "lastLoopHeaders chain start len hex 0 hdr inLastLoop extraTime info = Inr info"
| "lastLoopHeaders chain start len hex (Suc n) hdr inLastLoop extraTime info =
     (case GetHeader chain (ParentHash hdr) (Uint64 (Hdr_Number hdr) - 1) of
        None \<Rightarrow> Inl ErrUnknownAncestor
      | Some h \<Rightarrow>
          let newTime = (Uint64 (Hdr_Time h) - start) mod len in
          if newTime > extraTime \<and> inLastLoop then Inr info
          else let inLast = (newTime > extraTime \<or> inLastLoop)
               in lastLoopHeaders chain start len hex n h inLast newTime
                    (if inLast then info @ [dec_of_nat (unat (Uint64 (Hdr_Number h))) @ ''#'' @ hex (Coinbase h)] else info))"

definition getLastLoopInfo :: "chain_reader \<Rightarrow> engine \<Rightarrow> (address \<Rightarrow> string) \<Rightarrow> header \<Rightarrow> string res" where
  "getLastLoopInfo chain e hex hdr =
     (if SideChain (Chain_Alien chain) \<and> mcLoopStartTime e \<noteq> 0 \<and> mcPeriod e \<noteq> 0 \<and> Period (E_config e) \<noteq> 0
      then (let len = mcPeriod e * mcSignerLength e in
            bind_res (u64_mod (Uint64 (Hdr_Time hdr) - mcLoopStartTime e) len) (\<lambda>extraTime.
            bind_res (lastLoopHeaders chain (mcLoopStartTime e) len hex
                (unat (MaxSignerCount (E_config e) * 2 * (mcPeriod e div Period (E_config e)))) hdr False extraTime [])
              (\<lambda>info. if length info > 0 then Inr (join ''#'' info) else Inl errGetLastLoopInfoFail)))
      else Inl errGetLastLoopInfoFail)"

definition mc_call :: "chain_reader \<Rightarrow> (mc_client \<Rightarrow> 'a res) \<Rightarrow> 'a res" where
  "mc_call chain call =
     (if \<not> SideChain (Chain_Alien chain) then Inl errNotSideChain
      else (case MCRPCClient chain of None \<Rightarrow> Inl errMCRPCClientEmpty | Some client \<Rightarrow> call client))"

definition sendTransactionToMainChain :: "chain_reader \<Rightarrow> byte list \<Rightarrow> hash res" where
  "sendTransactionToMainChain chain tx = mc_call chain (\<lambda>c. eth_sendRawTransaction c tx)"

definition getTransactionCountFromMainChain :: "chain_reader \<Rightarrow> address \<Rightarrow> u64 res" where
  "getTransactionCountFromMainChain chain account = mc_call chain (\<lambda>c. eth_getTransactionCount c account)"

definition getNetVersionFromMainChain :: "chain_reader \<Rightarrow> u64 res" where
  "getNetVersionFromMainChain chain = mc_call chain net_version"

text \<open>
  \<open>sign\<close> gives the encoding of the signed transaction with this nonce, recipient, data and network, or
  fails with a nil transaction.  Errors are logged and end the method, except that of signing: the nil
  transaction is encoded all the same.  The result is the transaction handed to the main chain, if any.
\<close>

definition mcConfirmBlock :: "chain_reader \<Rightarrow> (address \<Rightarrow> string) \<Rightarrow> (u64 \<Rightarrow> address \<Rightarrow> string \<Rightarrow> u64 \<Rightarrow> byte list res) \<Rightarrow>
    header \<Rightarrow> cc_notice \<Rightarrow> byte list option eng" where
  "mcConfirmBlock chain hex sign hdr notice e =
     (let number = Uint64 (Hdr_Number hdr) in
      if E_signer e = 0 \<or> \<not> (number > lcsc e \<and> number > MaxSignerCount (E_config e) * scUnconfirmLoop)
      then (Inr None, e)
      else (case getTransactionCountFromMainChain chain (E_signer e) of
              Inl _ \<Rightarrow> (Inr None, e)
            | Inr nonce \<Rightarrow>
                (case getLastLoopInfo chain e hex hdr of
                   Inl err \<Rightarrow> (if is_panic err then Inl err else Inr None, e)
                 | Inr lastLoopInfo \<Rightarrow>
                     (case GetHeaderByNumber chain 0 of
                        None \<Rightarrow> (Inl PanicNil, e)
                      | Some genesis \<Rightarrow>
                          let txData = buildSCEventConfirmData (ParentHash genesis) (Hdr_Number hdr) (Hdr_Time hdr)
                                         lastLoopInfo (parseNoticeInfo notice);
                              e1 = (if mcNetVersion e = 0
                                    then e\<lparr>mcNetVersion := (case getNetVersionFromMainChain chain of
                                             Inl _ \<Rightarrow> 0 | Inr v \<Rightarrow> v)\<rparr>
                                    else e)
                          in (case sign nonce (Coinbase hdr) txData (mcNetVersion e1) of
                                Inl _ \<Rightarrow> (Inl PanicNil, e1)
                              | Inr tx \<Rightarrow>
                                  (case sendTransactionToMainChain chain tx of
                                     Inl _ \<Rightarrow> (Inr None, e1)
                                   | Inr _ \<Rightarrow> (Inr (Some tx), e1\<lparr>lcsc := number\<rparr>)))))))"

subsection \<open>Sealing a block\<close>

definition sealExtra :: "byte list \<Rightarrow> byte list \<Rightarrow> byte list" where
  "sealExtra extra sig =
     (let n = length extra - extraSeal in
      take n extra @ take extraSeal sig @ drop (n + min extraSeal (length sig)) extra)"

text \<open>
  \<open>signFn\<close> signs a hash for an account; \<open>stopped\<close> tells whether sealing is called off before the time of
  the block has come.
\<close>

definition sealHeader :: "(byte list \<Rightarrow> hash) \<Rightarrow> (address \<Rightarrow> byte list \<Rightarrow> byte list res) \<Rightarrow> bool \<Rightarrow> address \<Rightarrow> header \<Rightarrow>
    header option res" where
  "sealHeader keccak signFn stopped signer hdr =
     (if stopped then Inr None
      else bind_res (sigHash keccak hdr) (\<lambda>h. bind_res (signFn signer (Hash_Bytes h)) (\<lambda>sighash.
        Inr (Some (hdr\<lparr>Extra := sealExtra (Extra hdr) sighash\<rparr>)))))"

definition chargeExtra :: "node \<Rightarrow> alien_config \<Rightarrow> cc_notice \<Rightarrow> header \<Rightarrow> header res" where
  "chargeExtra nd cfg notice hdr =
     bind_res (decodeExtra nd cfg hdr) (\<lambda>x.
     bind_res (encodeHeaderExtra cfg (Hdr_Number hdr)
        (x\<lparr>SideChainCharging := SideChainCharging x @ map snd (CurrentCharging notice)\<rparr>)) (\<lambda>enc.
       Inr (hdr\<lparr>Extra := take extraVanity (Extra hdr) @ enc @ replicate extraSeal 0\<rparr>)))"

definition Seal :: "nat \<Rightarrow> node \<Rightarrow> chain_reader \<Rightarrow> (byte list \<Rightarrow> hash) \<Rightarrow> (address \<Rightarrow> string) \<Rightarrow>
    (address \<Rightarrow> byte list \<Rightarrow> byte list res) \<Rightarrow> (u64 \<Rightarrow> address \<Rightarrow> string \<Rightarrow> u64 \<Rightarrow> byte list res) \<Rightarrow> bool \<Rightarrow>
    header \<Rightarrow> transaction list \<Rightarrow> header option eng" where
  "Seal d nd chain keccak hex signFn signTxFn stopped hdr txs =
     (let number = Uint64 (Hdr_Number hdr) in
      if number = 0 then fail_sm errUnknownBlock
      else bind_sm get_sm (\<lambda>e.
      if Period (E_config e) = 0 \<and> length txs = 0 then fail_sm errWaitTransactions
      else let signer = E_signer e in
      bind_sm (snapshot_of d nd chain (number - 1) (ParentHash hdr) [] [] defaultLoopCntRecalculateSigners) (\<lambda>snap.
      bind_sm (if \<not> SideChain (Chain_Alien chain)
               then bind_sm (lift_sm (inturn snap signer (Uint64 (Hdr_Time hdr)))) (\<lambda>ok.
                      if \<not> ok then fail_sm errUnauthorized else return_sm hdr)
               else bind_sm (lift_sm (mcSnapshot chain signer (Uint64 (Hdr_Time hdr))))
                 (\<lambda>(notice, loopStartTime, period, signerLength, _).
                 bind_sm (modify_sm (\<lambda>e. e\<lparr>mcLoopStartTime := loopStartTime, mcPeriod := period,
                            mcSignerLength := signerLength\<rparr>)) (\<lambda>_.
                 bind_sm get_sm (\<lambda>e.
                 bind_sm (lift_sm (chargeExtra nd (E_config e) notice hdr)) (\<lambda>hdr1.
                 bind_sm (mcConfirmBlock chain hex signTxFn hdr1 notice) (\<lambda>_.
                   return_sm hdr1)))))) (\<lambda>hdr2.
        lift_sm (sealHeader keccak signFn stopped signer hdr2)))))"

end
