(* ===== verification/Alien_Verify.thy ===== *)
theory Alien_Verify
  imports Alien_Engine
begin

text \<open>
  What the engine's verification guarantees.  The engine's state keeps an invariant: each snapshot in the
  cache and in the database is consistent and filed under its own hash.  With it, \<open>snapshot\<close> returns the
  snapshot of exactly the block that was asked for; an accepted header was sealed by the signer whose
  turn it was; and two accepted headers in one slot after the same parent have the same signer.
\<close>

subsection \<open>Applying headers keeps the configuration\<close>

lemma applyEvents_config:
  assumes "applyEvents s hdr extra = Inr t"
  shows "config t = config s"
  using assms refl
proof (rule applyEvents_steps)
  fix s1 s2 s4 s5 s7 s8 s9 s10 s11 s12 full
  let ?n = "Hdr_Number hdr"
  assume 1: "updateSnapshotByVotes (updateSnapshotByConfirmations s (CurrentBlockConfirmations extra)) (CurrentBlockVotes extra) ?n = Inr s1"
    and 2: "updateSnapshotByMPVotes s1 (ModifyPredecessorVotes extra) = Inr s2"
    and 4: "s4 = updateSnapshotByProposals (updateSnapshotForPunish s2 (SignerMissing extra) ?n (Coinbase hdr)) (CurrentBlockProposals extra) ?n"
    and 5: "updateSnapshotByDeclares s4 (CurrentBlockDeclares extra) ?n = Inr s5"
    and 7: "s7 = updateSnapshotBySetSCCoinbase (if Snap_Period s5 = 0 then
       s5\<lparr>Snap_Period := Period (config s5)\<rparr> else s5) (SideChainSetCoinbases extra)"
    and 8: "updateSnapshotBySCConfirm s7 (SideChainConfirmations extra) ?n = Inr s8"
    and 9: "updateSnapshotByNoticeConfirm s8 (SideChainNoticeConfirmed extra) ?n = Inr s9"
    and 10: "calculateProposalResult s9 ?n = Inr s10"
    and 11: "s11 = (if full then removeExtraCandidate s10 else s10)"
    and 12: "updateSnapshotBySCCharging s11 (SideChainCharging extra) ?n (Coinbase hdr) = Inr s12"
    and 13: "updateSnapshotForExpired s12 ?n = Inr t"
  have "config s1 = config (updateSnapshotByConfirmations s (CurrentBlockConfirmations extra))"
    by (rule foldM_keeps[OF 1[unfolded updateSnapshotByVotes_def]]) (auto dest: updateVote_book simp: book_def)
  then have "config s1 = config s" by (simp add: updateSnapshotByConfirmations_def)
  moreover have "config s2 = config s1"
    by (rule foldM_keeps[OF 2[unfolded updateSnapshotByMPVotes_def]]) (auto dest: updateMPVote_book simp: book_def)
  moreover have "config s4 = config s2"
    using updateSnapshotByProposals_same_votes by (simp add: 4 same_votes_def frame_simps)
  moreover have "config s5 = config s4"
    using updateSnapshotByDeclares_same_votes[OF 5] by (simp add: same_votes_def)
  moreover have "config s7 = config s5"
    unfolding 7 updateSnapshotBySetSCCoinbase_def
    by (subst foldl_keeps[where g = config]) (simp_all add: setSCCoinbase_def Let_def)
  moreover have "config s8 = config s7"
    using updateSnapshotBySCConfirm_propbook[OF 8] by (simp add: propbook_def)
  moreover have "config s9 = config s8" using updateSnapshotByNoticeConfirm_rest[OF 9] by simp
  moreover have "config s10 = config s9"
    using calculateProposalResult_same_votes[OF 10] by (simp add: same_votes_def)
  moreover have "config s11 = config s10"
    unfolding 11 removeExtraCandidate_def Let_def
    by (simp, intro impI, rule foldl_keeps) (simp add: dropCandidate_def)
  moreover have "config s12 = config s11"
    using 12 unfolding updateSnapshotBySCCharging_def bind_res_eq_Inr sum.inject by auto
  moreover have "config t = config s12" using updateSnapshotForExpired_book[OF 13] by (simp add: book_def)
  ultimately show ?thesis by simp
qed

lemma applyHeader_config: "applyHeader env s hdr = Inr t \<Longrightarrow> config t = config s"
  by (erule applyHeader_eventsE) (drule applyEvents_config, simp)

lemma copySnapshot_config: "copySnapshot s = Inr t \<Longrightarrow> config t = config s"
  by (auto simp: copySnapshot_def fillDefaults_def bind_res_eq_Inr)

lemma apply_snapshot_config:
  assumes "apply_snapshot env s hs = Inr t"
  shows "config t = config s"
proof (cases "hs = []")
  case False
  then obtain s0 u where "copySnapshot s = Inr s0" "foldM (applyHeader env) s0 hs = Inr u" "config t = config u"
    using assms by (auto simp: apply_snapshot_def Let_def bind_res_eq_Inr split: if_splits)
  then show ?thesis
    using foldM_keeps[of "applyHeader env" s0 hs u config] applyHeader_config copySnapshot_config by metis
qed (use assms in \<open>simp add: apply_snapshot_def\<close>)

lemma apply_snapshot_contiguous:
  "apply_snapshot env s hs = Inr t \<Longrightarrow> hs \<noteq> [] \<Longrightarrow> contiguous (Number s) hs"
  by (auto simp: apply_snapshot_def split: if_splits)

lemma contiguous_last:
  assumes "contiguous n hs" "hs \<noteq> []"
  shows "Uint64 (Hdr_Number (last hs)) = n + of_nat (length hs)"
proof -
  have "i < length hs \<Longrightarrow> Uint64 (Hdr_Number (hs ! i)) = n + of_nat (i + 1)" for i
  proof (induction i)
    case 0
    then show ?case using assms by (simp add: contiguous_def)
  next
    case (Suc i)
    then show ?case using assms(1) by (simp add: contiguous_def list_all_iff)
  qed
  from this[of "length hs - 1"] show ?thesis using assms(2) by (simp add: last_conv_nth)
qed

subsection \<open>The invariant of the engine\<close>

text \<open>The consistency of a snapshot does not depend on the configuration, apart from the number of signers.\<close>

lemma snapshot_ok_config:
  "MaxSignerCount c = MaxSignerCount (config s) \<Longrightarrow> snapshot_ok (s\<lparr>config := c\<rparr>) = snapshot_ok s"
  by (simp add: snapshot_ok_def book_ok_def heap_ok_def declared_once_def sc_ok_def notices_ok_def local_ok_def
      neededNotices_def tally_inv_cong[of "s\<lparr>config := c\<rparr>" s])

text \<open>\<open>num\<close> gives the number of the block a hash names.\<close>

definition filed :: "(hash \<Rightarrow> u64) \<Rightarrow> alien_config \<Rightarrow> hash \<Rightarrow> snapshot \<Rightarrow> bool" where
  "filed num cfg h s \<longleftrightarrow> Hash s = h \<and> Number s = num h \<and> snapshot_ok (s\<lparr>config := cfg\<rparr>)"

definition engine_ok :: "(hash \<Rightarrow> u64) \<Rightarrow> engine \<Rightarrow> bool" where
  "engine_ok num e \<longleftrightarrow>
     (\<forall>h s. gget (recents e) h = Some s \<longrightarrow> filed num (E_config e) h s) \<and>
     (\<forall>h s. E_db e h = Some s \<longrightarrow> filed num (E_config e) h s)"

text \<open>
  What is assumed of the surroundings: an evicting cache loses entries and invents none; the chain
  returns the header with the hash and number asked for; block 0 has number 0; extra data decodes to
  events as an honest signer makes them.
\<close>

definition world :: "(hash \<Rightarrow> u64) \<Rightarrow> node \<Rightarrow> chain_reader \<Rightarrow> bool" where
  "world num nd chain \<longleftrightarrow>
     decode_ok (Env nd) \<and>
     (\<forall>c k v. gget (recents_evict nd c) k = Some v \<longrightarrow> gget c k = Some v) \<and>
     (\<forall>h n hdr. GetHeader chain h n = Some hdr \<longrightarrow> header_hash (Env nd) hdr = h \<and> Uint64 (Hdr_Number hdr) = n) \<and>
     (\<forall>g. GetHeaderByNumber chain 0 = Some g \<longrightarrow> Uint64 (Hdr_Number g) = 0 \<and> num (header_hash (Env nd) g) = 0)"

lemma world_genesis:
  assumes "world num nd chain" "GetHeaderByNumber chain 0 = Some g"
  shows "Uint64 (Hdr_Number g) = 0" "num (header_hash (Env nd) g) = 0"
  using assms unfolding world_def by blast+

lemma world_header:
  assumes "world num nd chain" "GetHeader chain h n = Some hdr"
  shows "header_hash (Env nd) hdr = h" "Uint64 (Hdr_Number hdr) = n"
  using assms unfolding world_def by blast+

lemma engine_okD:
  "engine_ok num e \<Longrightarrow> gget (recents e) h = Some s \<Longrightarrow> filed num (E_config e) h s"
  "engine_ok num e \<Longrightarrow> E_db e h = Some s \<Longrightarrow> filed num (E_config e) h s"
  by (auto simp: engine_ok_def)

lemma filed_Period: "filed num (c\<lparr>Period := p\<rparr>) h s = filed num c h s"
  using snapshot_ok_config[of "c\<lparr>Period := p\<rparr>" "s\<lparr>config := c\<rparr>"] by (simp add: filed_def)

lemma filed_self: "snapshot_ok s \<Longrightarrow> config s = c \<Longrightarrow> Hash s = h \<Longrightarrow> Number s = num h \<Longrightarrow> filed num c h s"
  by (auto simp: filed_def)

lemma engine_ok_fields [simp]:
  "engine_ok num (e\<lparr>E_config := (E_config e)\<lparr>Period := p\<rparr>\<rparr>) = engine_ok num e"
  "engine_ok num (e\<lparr>mcLoopStartTime := a, mcPeriod := b, mcSignerLength := c\<rparr>) = engine_ok num e"
  by (simp_all add: engine_ok_def filed_Period)

lemma store_ok:
  assumes "store nd s e = (r, e')" "engine_ok num e" "filed num (E_config e) (Hash s) s"
  shows "engine_ok num e' \<and> E_config e' = E_config e"
  using assms by (auto simp: store_def storeSnapshot_def engine_ok_def split: if_splits)

lemma recents_Add_ok:
  assumes "recents_Add nd s e = (r, e')" "engine_ok num e" "filed num (E_config e) (Hash s) s" "world num nd chain"
  shows "engine_ok num e' \<and> E_config e' = E_config e"
proof -
  have e': "e' = e\<lparr>recents := recents_evict nd (gput (recents e) (Hash s) s)\<rparr>"
    using assms(1) by (simp add: recents_Add_def modify_sm_def)
  have "filed num (E_config e) k x" if "gget (recents_evict nd (gput (recents e) (Hash s) s)) k = Some x" for k x
  proof -
    have "gget (gput (recents e) (Hash s) s) k = Some x" using assms(4) that unfolding world_def by blast
    then show ?thesis using assms(2,3) by (auto simp: engine_ok_def split: if_splits)
  qed
  then show ?thesis using assms(2) by (simp add: e' engine_ok_def)
qed

lemma loadSnapshot_ok:
  assumes "loadSnapshot (E_db e) (E_config e) h = Some s" "engine_ok num e"
  shows "snapshot_ok s" "Hash s = h" "Number s = num h" "config s = E_config e"
proof -
  obtain u where u: "E_db e h = Some u" "s = fillDefaults (u\<lparr>config := E_config e\<rparr>)"
    using assms(1) by (auto simp: loadSnapshot_def)
  have f: "filed num (E_config e) h u" by (rule engine_okD(2)[OF assms(2) u(1)])
  have "snapshot_ok (fillDefaults x) = snapshot_ok x" for x
    using snapshot_okI[of x "fillDefaults x"] snapshot_okI[of "fillDefaults x" x]
    by (auto simp: fillDefaults_def same_votes_def book_def)
  then show "snapshot_ok s" using f by (simp add: u(2) filed_def)
  show "Hash s = h" "Number s = num h" "config s = E_config e"
    using f by (simp_all add: u(2) filed_def fillDefaults_def)
qed

lemma recents_Get_ok:
  assumes "recents_Get h e = Some s" "engine_ok num e"
  shows "snapshot_ok s" "Hash s = h" "Number s = num h" "config s = E_config e"
  using assms engine_okD(1)[OF assms(2)] by (auto simp: recents_Get_def filed_def)

text \<open>Checking the genesis block changes nothing.\<close>

lemma verify_genesis:
  assumes "world num nd chain" "GetHeaderByNumber chain 0 = Some g" "verifyHeader d nd chain g [] e = (r, e')"
  shows "e' = e"
proof -
  have "Uint64 (Hdr_Number g) = 0" by (rule world_genesis[OF assms(1,2)])
  then show ?thesis
    using assms(3) by (cases d) (auto simp: verifyHeaderWith_def verifyCascadingWith_def split: if_splits)
qed

lemma newSnapshot_fields [simp]:
  "config (newSnapshot now cfg h vs lcrs) = cfg" "Hash (newSnapshot now cfg h vs lcrs) = h"
  "Number (newSnapshot now cfg h vs lcrs) = 0"
proof -
  have "config (foldl initVote s vs) = config s" "Hash (foldl initVote s vs) = Hash s"
    "Number (foldl initVote s vs) = Number s" for s vs
    by (induction vs arbitrary: s) (simp_all add: initVote_def)
  then show "config (newSnapshot now cfg h vs lcrs) = cfg" "Hash (newSnapshot now cfg h vs lcrs) = h"
    "Number (newSnapshot now cfg h vs lcrs) = 0"
    by (simp_all add: newSnapshot_def Let_def)
qed

definition honest_votes :: "vote list \<Rightarrow> bool" where
  "honest_votes vs \<longleftrightarrow> distinct (map Voter vs) \<and> (\<forall>v\<in>set vs. 0 \<le> Stake v)"

lemma genesisSnapshot_ok:
  assumes "genesisSnapshot nd chain (\<lambda>g. verifyHeader d nd chain g []) votes lcrs e = (r, e')"
    "world num nd chain" "engine_ok num e" "honest_votes votes"
  shows "engine_ok num e'"
    and "r = Inr s \<Longrightarrow> snapshot_ok s \<and> config s = E_config e' \<and> Number s = 0 \<and>
      (\<exists>g. GetHeaderByNumber chain 0 = Some g \<and> Hash s = header_hash (Env nd) g)"
proof -
  have *: "engine_ok num e' \<and> (r = Inr s \<longrightarrow> snapshot_ok s \<and> config s = E_config e' \<and> Number s = 0 \<and>
      (\<exists>g. GetHeaderByNumber chain 0 = Some g \<and> Hash s = header_hash (Env nd) g))"
  proof (cases "GetHeaderByNumber chain 0")
    case None
    then show ?thesis using assms by (auto simp: genesisSnapshot_def)
  next
    case (Some g)
    obtain rc ec where c: "verifyHeader d nd chain g [] e = (rc, ec)" by fastforce
    have ec: "ec = e" by (rule verify_genesis[OF assms(2) Some c])
    let ?e = "e\<lparr>E_config := (E_config e)\<lparr>Period := Period (Chain_Alien chain)\<rparr>\<rparr>"
    let ?s = "newSnapshot (Uint64 (Now nd)) (E_config ?e) (header_hash (Env nd) g) votes lcrs"
    have s: "snapshot_ok ?s" using assms(4) by (intro newSnapshot_ok) (simp_all add: honest_votes_def)
    then have f: "filed num (E_config ?e) (Hash ?s) ?s"
      using world_genesis(2)[OF assms(2) Some] by (intro filed_self) simp_all
    show ?thesis
    proof (cases rc)
      case (Inl x)
      then show ?thesis using assms(1,3) Some c ec by (auto simp: genesisSnapshot_def bind_sm_def)
    next
      case (Inr u)
      obtain rs es where st: "store nd ?s ?e = (rs, es)" by fastforce
      note es = store_ok[OF st _ f]
      show ?thesis
        using assms(1,3) Some c ec Inr st es s
        by (auto simp: genesisSnapshot_def bind_sm_def modify_sm_def get_sm_def Let_def split: sum.splits)
    qed
  qed
  then show "engine_ok num e'" "r = Inr s \<Longrightarrow> snapshot_ok s \<and> config s = E_config e' \<and> Number s = 0 \<and>
      (\<exists>g. GetHeaderByNumber chain 0 = Some g \<and> Hash s = header_hash (Env nd) g)" by auto
qed

lemma pickHeader_names:
  assumes "pickHeader nd chain number h parents = Inr (hdr, ps)" "world num nd chain"
  shows "header_hash (Env nd) hdr = h \<and> Uint64 (Hdr_Number hdr) = number"
  using assms world_header[OF assms(2)]
  by (auto simp: pickHeader_def Let_def split: if_splits option.splits)

declare findSnapshot.simps [simp del]

lemma findSnapshot_cases [consumes 1, case_names hit genesis missing earlier]:
  assumes "findSnapshot nd chain check votes lcrs number h parents headers e = (r, e')"
  obtains s where "r = Inr (s, headers)" "e' = e" "recents_Get h e = Some s \<or> loadSnapshot (E_db e) (E_config e) h = Some s"
  | "number = 0" "bind_sm (genesisSnapshot nd chain check votes lcrs) (\<lambda>s. return_sm (s, headers)) e = (r, e')"
  | x where "r = Inl x" "e' = e"
  | hdr ps where "unat (number - 1) < unat number" "pickHeader nd chain number h parents = Inr (hdr, ps)"
      "findSnapshot nd chain check votes lcrs (number - 1) (ParentHash hdr) ps (headers @ [hdr]) e = (r, e')"
proof -
  note step = assms[unfolded findSnapshot.simps[of nd chain check votes lcrs number h parents headers e]]
  let ?load = "if number mod checkpointInterval = 0 then loadSnapshot (E_db e) (E_config e) h else None"
  show ?thesis
  proof (cases "recents_Get h e")
    case (Some s)
    then show ?thesis using step that(1)[of s] by simp
  next
    case None
    note n = None
    show ?thesis
    proof (cases ?load)
      case (Some s)
      then have "loadSnapshot (E_db e) (E_config e) h = Some s" by (simp split: if_splits)
      moreover have "r = Inr (s, headers)" "e' = e" using step by (simp_all only: n Some option.case prod.inject)
      ultimately show ?thesis using that(1)[of s] by simp
    next
      case None
      note step2 = step[unfolded n None option.case]
      show ?thesis
      proof (cases "number = 0")
        case True
        show ?thesis by (rule that(2)[OF True]) (use step2 in \<open>simp only: True refl if_True\<close>)
      next
        case False
        show ?thesis
        proof (cases "pickHeader nd chain number h parents")
          case (Inl x)
          then have "(r, e') = (Inl x, e)" using step2 by (simp only: False if_False sum.case)
          then show ?thesis using that(3) by simp
        next
          case (Inr p)
          obtain hdr ps where p: "p = (hdr, ps)" by fastforce
          have "unat (number - 1) < unat number" using False by (intro u64_pred_less[of 0]) (simp add: word_gt_0)
          then show ?thesis
            by (rule that(4)[OF _ Inr[unfolded p]]) (use step2 in \<open>simp only: False Inr p if_False sum.case prod.case\<close>)
        qed
      qed
    qed
  qed
qed

text \<open>What \<open>findSnapshot\<close> comes back with: a consistent snapshot, and the headers from there to the block asked for.\<close>

definition found :: "(hash \<Rightarrow> u64) \<Rightarrow> node \<Rightarrow> chain_reader \<Rightarrow> u64 \<Rightarrow> hash \<Rightarrow> engine \<Rightarrow> snapshot \<Rightarrow> header list \<Rightarrow> bool" where
  "found num nd chain number h e s new \<longleftrightarrow>
     snapshot_ok s \<and> config s = E_config e \<and>
     (if new = [] then (Hash s = h \<and> Number s = num h) \<or>
        (number = 0 \<and> Number s = 0 \<and> (\<exists>g. GetHeaderByNumber chain 0 = Some g \<and> Hash s = header_hash (Env nd) g))
      else header_hash (Env nd) (hd new) = h \<and> Uint64 (Hdr_Number (hd new)) = number)"

lemma findSnapshot_ok:
  assumes "findSnapshot nd chain (\<lambda>g. verifyHeader d nd chain g []) votes lcrs number h parents headers e = (r, e')"
    "world num nd chain" "engine_ok num e" "honest_votes votes"
  shows "engine_ok num e' \<and>
    (\<forall>s hs. r = Inr (s, hs) \<longrightarrow> (\<exists>new. hs = headers @ new \<and> found num nd chain number h e' s new))"
  using assms(1)
proof (induction "unat number" arbitrary: number h parents headers rule: less_induct)
  case less
  from less.prems show ?case
  proof (cases rule: findSnapshot_cases)
    case (hit s)
    then show ?thesis
      using assms(3) recents_Get_ok[OF _ assms(3), of h s] loadSnapshot_ok[OF _ assms(3), of h s]
      by (auto simp: found_def)
  next
    case genesis
    obtain rg eg where g: "genesisSnapshot nd chain (\<lambda>g. verifyHeader d nd chain g []) votes lcrs e = (rg, eg)" by fastforce
    show ?thesis
      using genesis g genesisSnapshot_ok[OF g assms(2-4)] by (cases rg) (auto simp: bind_sm_def found_def)
  next
    case (missing x)
    then show ?thesis using assms(3) by simp
  next
    case (earlier hdr ps)
    from less.hyps[OF earlier(1,3)] pickHeader_names[OF earlier(2) assms(2)]
    show ?thesis by (fastforce simp: found_def)
  qed
qed

text \<open>A hash and a number that belong together; only the genesis block has number 0.\<close>

definition names :: "(hash \<Rightarrow> u64) \<Rightarrow> node \<Rightarrow> chain_reader \<Rightarrow> hash \<Rightarrow> u64 \<Rightarrow> bool" where
  "names num nd chain h number \<longleftrightarrow> num h = number \<and>
     (number = 0 \<longrightarrow> (\<forall>g. GetHeaderByNumber chain 0 = Some g \<longrightarrow> header_hash (Env nd) g = h))"

lemma apply_found:
  assumes "found num nd chain number h e s new" "apply_snapshot (Env nd) s (rev new) = Inr t"
    "world num nd chain" "names num nd chain h number"
  shows "snapshot_ok t" "Hash t = h" "Number t = number" "config t = E_config e"
proof -
  have s: "snapshot_ok s" "config s = E_config e" "decode_ok (Env nd)"
    using assms(1,3) by (auto simp: found_def world_def)
  show "snapshot_ok t" by (rule apply_snapshot_ok(1)[OF assms(2) s(1,3)])
  show "config t = E_config e" using apply_snapshot_config[OF assms(2)] s(2) by simp
  have "Hash t = h \<and> Number t = number"
  proof (cases "new = []")
    case True
    then show ?thesis using assms(1,2,4) by (auto simp: found_def names_def apply_snapshot_def)
  next
    case False
    then have ne: "rev new \<noteq> []" by simp
    note t = apply_snapshot_ok(2)[OF assms(2) s(1,3) ne]
    have "last (rev new) = hd new" using False by (simp add: last_rev)
    then show ?thesis
      using t contiguous_last[OF apply_snapshot_contiguous[OF assms(2) ne] ne] assms(1) False
      by (simp add: found_def)
  qed
  then show "Hash t = h" "Number t = number" by auto
qed

lemma snapshot_of_ok:
  assumes "snapshot_of d nd chain number h parents votes lcrs e = (r, e')"
    "world num nd chain" "engine_ok num e" "honest_votes votes" "names num nd chain h number"
  shows "engine_ok num e'"
    and "r = Inr s \<Longrightarrow> Hash s = h \<and> Number s = number \<and> snapshot_ok s \<and> config s = E_config e'"
proof -
  obtain rf e1 where f: "findSnapshot nd chain (\<lambda>g. verifyHeader d nd chain g []) votes lcrs number h parents [] e = (rf, e1)"
    by fastforce
  note ok = findSnapshot_ok[OF f assms(2-4)]
  have "engine_ok num e' \<and> (r = Inr s \<longrightarrow> Hash s = h \<and> Number s = number \<and> snapshot_ok s \<and> config s = E_config e')"
  proof (cases rf)
    case (Inl x)
    then show ?thesis using assms(1) f ok by (auto simp: snapshot_of_def snapshotWith_def bind_sm_def)
  next
    case (Inr p)
    obtain s0 new where p: "p = (s0, new)" by fastforce
    have fnd: "found num nd chain number h e1 s0 new" "engine_ok num e1" using ok Inr p by auto
    show ?thesis
    proof (cases "apply_snapshot (Env nd) s0 (rev new)")
      case (Inl x)
      then show ?thesis
        using assms(1) f Inr p fnd \<open>rf = Inr p\<close> by (auto simp: snapshot_of_def snapshotWith_def bind_sm_def lift_sm_def)
    next
      case (Inr t)
      note t = apply_found[OF fnd(1) Inr assms(2,5)]
      have num: "num h = number" using assms(5) by (simp add: names_def)
      obtain ra e2 where a: "recents_Add nd t e1 = (ra, e2)" by fastforce
      have e2: "engine_ok num e2 \<and> E_config e2 = E_config e1"
        by (rule recents_Add_ok[OF a fnd(2) _ assms(2)]) (use t num in \<open>simp add: filed_self\<close>)
      obtain rs e3 where st: "(if Number t mod checkpointInterval = 0 \<and> length new > 0 then store nd t else return_sm ()) e2 = (rs, e3)"
        by fastforce
      have e3: "engine_ok num e3 \<and> E_config e3 = E_config e2"
      proof (cases "Number t mod checkpointInterval = 0 \<and> length new > 0")
        case True
        then have "store nd t e2 = (rs, e3)" using st by simp
        then show ?thesis by (rule store_ok) (use e2 t num in \<open>auto simp: filed_self\<close>)
      qed (use st e2 in auto)
      have "ra = Inr ()" using a by (simp add: recents_Add_def modify_sm_def)
      then have "snapshot_of d nd chain number h parents votes lcrs e = (case rs of Inl x \<Rightarrow> Inl x | Inr _ \<Rightarrow> Inr t, e3)"
        using f \<open>rf = Inr p\<close> p Inr a st
        by (simp add: snapshot_of_def snapshotWith_def bind_sm_def lift_sm_def split: sum.split)
      then show ?thesis using assms(1) t e2 e3 by (auto split: sum.splits)
    qed
  qed
  then show "engine_ok num e'" "r = Inr s \<Longrightarrow> Hash s = h \<and> Number s = number \<and> snapshot_ok s \<and> config s = E_config e'"
    by auto
qed

subsection \<open>Accepted headers\<close>

text \<open>The cache keeps the snapshot that was added last.\<close>

definition keeps_latest :: "node \<Rightarrow> bool" where
  "keeps_latest nd \<longleftrightarrow> (\<forall>c k v. gget (recents_evict nd (gput c k v)) k = Some v)"

lemma snapshot_of_cached:
  assumes "recents_Get h e = Some s"
  shows "snapshot_of d nd chain number h parents votes lcrs e =
    (Inr s, e\<lparr>recents := recents_evict nd (gput (recents e) (Hash s) s)\<rparr>)"
  using assms
  by (simp add: snapshot_of_def snapshotWith_def bind_sm_def findSnapshot.simps[of nd chain _ votes lcrs number h]
      apply_snapshot_def lift_sm_def recents_Add_def modify_sm_def)

lemma snapshot_of_caches:
  assumes "snapshot_of d nd chain number h parents votes lcrs e = (Inr s, e')" "keeps_latest nd"
    "Hash s = h" "config s = E_config e'"
  shows "recents_Get h e' = Some s"
proof -
  obtain s0 new e1 e2 where "apply_snapshot (Env nd) s0 (rev new) = Inr s" "recents_Add nd s e1 = (Inr (), e2)"
    and st: "(if Number s mod checkpointInterval = 0 \<and> length new > 0 then store nd s else return_sm ()) e2 = (Inr (), e')"
    using assms(1) by (auto simp: snapshot_of_def snapshotWith_def res_simps)
  then have "gget (recents e2) h = Some s" using assms(2,3) by (auto simp: recents_Add_def modify_sm_def keeps_latest_def)
  moreover have "recents e' = recents e2" using st by (auto simp: store_def split: if_splits)
  ultimately show ?thesis using assms(4) by (simp add: recents_Get_def flip: assms(4))
qed

text \<open>Everything an accepted header has passed.\<close>

definition accepted :: "node \<Rightarrow> chain_reader \<Rightarrow> alien_config \<Rightarrow> snapshot \<Rightarrow> header list \<Rightarrow> header \<Rightarrow> bool" where
  "accepted nd chain cfg snap parents hdr \<longleftrightarrow>
     Hdr_Time hdr \<le> Now nd \<and> length (Extra hdr) \<ge> extraVanity + extraSeal \<and> MixDigest hdr = 0 \<and>
     UncleHash hdr = uncleHash nd \<and>
     (\<exists>parent. parentOf chain hdr parents = Some parent \<and> header_hash (Env nd) parent = ParentHash hdr \<and>
        Uint64 (Hdr_Number parent) = Uint64 (Hdr_Number hdr) - 1 \<and> Uint64 (Hdr_Time parent) \<le> Uint64 (Hdr_Time hdr)) \<and>
     (\<exists>signer. recover (Env nd) hdr = Inr signer \<and>
        (Hdr_Number hdr > bugFixBlockNumber \<longrightarrow> signer = Coinbase hdr) \<and>
        (Uint64 (Hdr_Number hdr) > MaxSignerCount cfg \<longrightarrow> verifyLoop nd chain cfg snap signer parents hdr = Inr ()) \<and>
        inturn snap signer (Uint64 (Hdr_Time hdr)) = Inr True)"

lemma verifySealWith_accepts:
  assumes "verifySealWith nd chain snapshotAt hdr parents e = (Inr (), e')" "\<not> SideChain (Chain_Alien chain)"
  obtains snap signer where
    "snapshotAt (Uint64 (Hdr_Number hdr) - 1) (ParentHash hdr) parents e = (Inr snap, e')"
    "recover (Env nd) hdr = Inr signer" "Hdr_Number hdr > bugFixBlockNumber \<longrightarrow> signer = Coinbase hdr"
    "Uint64 (Hdr_Number hdr) > MaxSignerCount (E_config e') \<longrightarrow>
       verifyLoop nd chain (E_config e') snap signer parents hdr = Inr ()"
    "inturn snap signer (Uint64 (Hdr_Time hdr)) = Inr True"
proof -
  have "\<exists>snap signer. snapshotAt (Uint64 (Hdr_Number hdr) - 1) (ParentHash hdr) parents e = (Inr snap, e') \<and>
    recover (Env nd) hdr = Inr signer \<and> (Hdr_Number hdr > bugFixBlockNumber \<longrightarrow> signer = Coinbase hdr) \<and>
    (Uint64 (Hdr_Number hdr) > MaxSignerCount (E_config e') \<longrightarrow>
       verifyLoop nd chain (E_config e') snap signer parents hdr = Inr ()) \<and>
    inturn snap signer (Uint64 (Hdr_Time hdr)) = Inr True"
    using assms by (auto simp: verifySealWith_def Let_def res_simps split: if_splits)
  then show ?thesis using that by blast
qed

lemma verifyHeader_accepted:
  assumes "verifyHeader (Suc d) nd chain hdr parents e = (Inr (), e')" "\<not> SideChain (Chain_Alien chain)"
    "Uint64 (Hdr_Number hdr) \<noteq> 0" "world num nd chain" "engine_ok num e" "keeps_latest nd"
    "names num nd chain (ParentHash hdr) (Uint64 (Hdr_Number hdr) - 1)"
  obtains snap where "recents_Get (ParentHash hdr) e' = Some snap" "engine_ok num e'"
    "accepted nd chain (E_config e') snap parents hdr"
proof -
  let ?snapshotAt = "\<lambda>number h ps. snapshot_of d nd chain number h ps [] defaultLoopCntRecalculateSigners"
  let ?n = "Uint64 (Hdr_Number hdr)"
  have hv: "honest_votes []" by (simp add: honest_votes_def)
  have basic: "Hdr_Time hdr \<le> Now nd \<and> length (Extra hdr) \<ge> extraVanity + extraSeal \<and> MixDigest hdr = 0 \<and>
     UncleHash hdr = uncleHash nd" and casc: "verifyCascadingWith nd chain ?snapshotAt hdr parents e = (Inr (), e')"
    using assms(1) by (auto simp: verifyHeaderWith_def snapshot_of_def split: if_splits)
  obtain parent s1 e1 where par: "parentOf chain hdr parents = Some parent"
      "header_hash (Env nd) parent = ParentHash hdr" "Uint64 (Hdr_Number parent) = ?n - 1"
      "Uint64 (Hdr_Time parent) \<le> Uint64 (Hdr_Time hdr)"
    and s1: "snapshot_of d nd chain (?n - 1) (ParentHash hdr) parents [] defaultLoopCntRecalculateSigners e = (Inr s1, e1)"
    and seal: "verifySealWith nd chain ?snapshotAt hdr parents e1 = (Inr (), e')"
    using casc assms(3)
    by (auto simp: verifyCascadingWith_def Let_def res_simps not_less split: option.splits if_splits)
  note ok1 = snapshot_of_ok[OF s1 assms(4,5) hv assms(7)]
  have c1: "recents_Get (ParentHash hdr) e1 = Some s1"
    by (rule snapshot_of_caches[OF s1 assms(6)]) (use ok1(2) in auto)
  obtain s2 signer where s2: "snapshot_of d nd chain (?n - 1) (ParentHash hdr) parents [] defaultLoopCntRecalculateSigners e1 = (Inr s2, e')"
    and sg: "recover (Env nd) hdr = Inr signer" "Hdr_Number hdr > bugFixBlockNumber \<longrightarrow> signer = Coinbase hdr"
    "?n > MaxSignerCount (E_config e') \<longrightarrow> verifyLoop nd chain (E_config e') s2 signer parents hdr = Inr ()"
    "inturn s2 signer (Uint64 (Hdr_Time hdr)) = Inr True"
    by (rule verifySealWith_accepts[OF seal assms(2)])
  note ok2 = snapshot_of_ok[OF s2 assms(4) ok1(1) hv assms(7)]
  have c2: "recents_Get (ParentHash hdr) e' = Some s2"
    by (rule snapshot_of_caches[OF s2 assms(6)]) (use ok2(2) in auto)
  have "accepted nd chain (E_config e') s2 parents hdr" using basic par sg unfolding accepted_def by blast
  then show ?thesis by (rule that[OF c2 ok2(1)])
qed

lemma inturn_same_slot:
  assumes "inturn s a t = Inr True" "inturn s b u = Inr True" "slot_of s t = slot_of s u"
  shows "a = b"
proof -
  have "unat ((t - LoopStartTime s) div Period (config s)) = unat ((u - LoopStartTime s) div Period (config s))"
    using assms(3) by (simp add: slot_of_def unat_div)
  then have "(t - LoopStartTime s) div Period (config s) = (u - LoopStartTime s) div Period (config s)"
    by (simp only: word_unat_eq_iff)
  then show ?thesis using assms(1,2) by (auto simp: inturn_def Let_def res_simps split: if_splits)
qed

text \<open>The depth of the recursion does not matter: checking the genesis block needs no snapshot.\<close>

lemma verify_genesis_depth:
  assumes "Uint64 (Hdr_Number g) = 0"
  shows "verifyHeader (Suc d) nd chain g [] = verifyHeader (Suc d') nd chain g []"
  using assms by (simp add: verifyHeaderWith_def verifyCascadingWith_def)

lemma findSnapshot_check:
  assumes "\<And>g. GetHeaderByNumber chain 0 = Some g \<Longrightarrow> check g = check' g"
  shows "findSnapshot nd chain check votes lcrs number h parents headers e =
    findSnapshot nd chain check' votes lcrs number h parents headers e"
proof (induction "unat number" arbitrary: number h parents headers rule: less_induct)
  case less
  have g: "genesisSnapshot nd chain check votes lcrs = genesisSnapshot nd chain check' votes lcrs"
    using assms by (auto simp: genesisSnapshot_def split: option.split)
  have "unat (number - 1) < unat number" if "number \<noteq> 0"
    using that by (intro u64_pred_less[of 0]) (simp add: word_gt_0)
  then have rec: "findSnapshot nd chain check votes lcrs (number - 1) h' ps hs e =
      findSnapshot nd chain check' votes lcrs (number - 1) h' ps hs e" if "number \<noteq> 0" for h' ps hs
    using less.hyps that by blast
  show ?case
    by (simp only: findSnapshot.simps[of nd chain check votes lcrs number h parents headers e]
        findSnapshot.simps[of nd chain check' votes lcrs number h parents headers e] g)
      (auto simp: rec split: option.split sum.split)
qed

lemma snapshot_of_depth:
  assumes "\<And>g. GetHeaderByNumber chain 0 = Some g \<Longrightarrow> Uint64 (Hdr_Number g) = 0"
  shows "snapshot_of (Suc d) nd chain number h parents votes lcrs = snapshot_of (Suc d') nd chain number h parents votes lcrs"
proof -
  have "findSnapshot nd chain (\<lambda>g. verifyHeader (Suc d) nd chain g []) votes lcrs number h parents [] =
      findSnapshot nd chain (\<lambda>g. verifyHeader (Suc d') nd chain g []) votes lcrs number h parents []"
    by (rule ext) (rule findSnapshot_check, rule verify_genesis_depth[OF assms])
  then show ?thesis by (simp only: snapshot_of_def snapshotWith_def)
qed

text \<open>A header whose parent's snapshot is cached is checked against that snapshot.\<close>

lemma recents_Get_again:
  assumes "recents_Get h e = Some s" "keeps_latest nd" "Hash s = h"
  shows "recents_Get h (e\<lparr>recents := recents_evict nd (gput (recents e) (Hash s) s)\<rparr>) = Some s"
  using assms by (auto simp: recents_Get_def keeps_latest_def)

lemma verifyHeader_cached:
  assumes "verifyHeader (Suc d) nd chain hdr parents e = (Inr (), e')" "recents_Get (ParentHash hdr) e = Some s"
    "Hash s = ParentHash hdr" "keeps_latest nd" "Uint64 (Hdr_Number hdr) \<noteq> 0" "\<not> SideChain (Chain_Alien chain)"
  shows "recents_Get (ParentHash hdr) e' = Some s"
proof -
  let ?snapshotAt = "\<lambda>number h ps. snapshot_of d nd chain number h ps [] defaultLoopCntRecalculateSigners"
  let ?e1 = "e\<lparr>recents := recents_evict nd (gput (recents e) (Hash s) s)\<rparr>"
  have seal: "verifySealWith nd chain ?snapshotAt hdr parents ?e1 = (Inr (), e')"
    using assms(1,5) snapshot_of_cached[OF assms(2), of d nd chain]
    by (auto simp: verifyHeaderWith_def verifyCascadingWith_def Let_def res_simps simp flip: snapshot_of_def
        split: option.splits if_splits)
  have c: "recents_Get (ParentHash hdr) ?e1 = Some s" by (rule recents_Get_again[OF assms(2,4,3)])
  obtain snap where "?snapshotAt (Uint64 (Hdr_Number hdr) - 1) (ParentHash hdr) parents ?e1 = (Inr snap, e')"
    by (rule verifySealWith_accepts[OF seal assms(6)])
  then have "e' = ?e1\<lparr>recents := recents_evict nd (gput (recents ?e1) (Hash s) s)\<rparr>"
    by (simp only: snapshot_of_cached[OF c] prod.inject)
  then show ?thesis using recents_Get_again[OF c assms(4,3)] by simp
qed

subsection \<open>Properties\<close>




text \<open>
  The recursion between \<open>snapshot\<close> and \<open>VerifyHeader\<close> ends: if block 0 of the chain has number 0, two
  levels are enough, and more make no difference.
\<close>

lemma genesis_check_bottoms_out:
  assumes "\<And>g. GetHeaderByNumber chain 0 = Some g \<Longrightarrow> Uint64 (Hdr_Number g) = 0"
  shows "verifyHeader (Suc (Suc d)) nd chain hdr parents = verifyHeader (Suc (Suc 0)) nd chain hdr parents"
  using snapshot_of_depth[OF assms, where d = d and d' = 0]
  by (simp only: verifyHeader.simps(2)[of "Suc d"] verifyHeader.simps(2)[of "Suc 0"] flip: snapshot_of_def)

lemma sameQueue_short:
  assumes "go_int m > 0"
  shows "sameQueue m pq [] = Inl PanicIndex"
proof -
  obtain k where k: "nat (go_int m) = Suc k" using assms by (metis gr0_conv_Suc zero_less_nat_eq)
  have "[0..<Suc k] = 0 # [1..<Suc k]" by (simp add: upt_rec)
  then show ?thesis by (cases pq) (simp_all add: sameQueue_def k go_nth_def del: upt_Suc)
qed


subsection \<open>At concrete inputs\<close>

text \<open>A chain with a genesis block only, and the first block on top of it.\<close>

definition sample_block0 :: header where
  "sample_block0 = sample_header\<lparr>Hdr_Number := 0, Hdr_Time := 1000\<rparr>"

definition sample_chain :: chain_reader where
  "sample_chain = \<lparr>GetHeader = (\<lambda>h n. if h = 0 \<and> n = 0 then Some sample_block0 else None),
     GetHeaderByNumber = (\<lambda>n. if n = 0 then Some sample_block0 else None),
     GetHeaderByHash = (\<lambda>h. if h = 0 then Some sample_block0 else None), CurrentHeader = Some sample_block0,
     Chain_Alien = sample_config, MCRPCClient = None\<rparr>"

definition sample_node :: node where
  "sample_node = \<lparr>Env = sample_env, Now = 2000, recents_evict = (\<lambda>c. c), db_accepts = (\<lambda>_. True), uncleHash = 0,
     sorter = go_sort SignerSlice_Less\<rparr>"

definition sample_engine :: engine where
  "sample_engine = New (sample_config\<lparr>SelfVoteSigners := [9]\<rparr>) (\<lambda>_. None)"

definition sample_num :: "hash \<Rightarrow> u64" where
  "sample_num h = ucast h"

lemma sample_world: "world sample_num sample_node sample_chain" "keeps_latest sample_node"
    "engine_ok sample_num sample_engine"
  using sample_env_ok
  by (auto simp: world_def keeps_latest_def engine_ok_def sample_node_def sample_chain_def sample_engine_def New_def
      sample_block0_def sample_env_def sample_header_def sample_num_def Uint64_def gget_def split: if_splits)

lemma sample_names: "names sample_num sample_node sample_chain 0 0"
  by (auto simp: names_def sample_num_def sample_chain_def sample_node_def sample_env_def sample_block0_def split: if_splits)

lemma sample_chain_main: "\<not> SideChain (Chain_Alien sample_chain)"
  by (simp add: sample_chain_def sample_config_def)

lemma sample_header_names: "Uint64 (Hdr_Number sample_header) \<noteq> 0"
    "names sample_num sample_node sample_chain (ParentHash sample_header) (Uint64 (Hdr_Number sample_header) - 1)"
  using sample_names by (simp_all add: sample_header_def Uint64_def)

definition verified_once :: "unit res \<times> engine" where
  "verified_once = verifyHeader (Suc (Suc 0)) sample_node sample_chain sample_header [] sample_engine"

lemma sample_verified: "fst verified_once = Inr ()"
  by code_simp

lemma sample_verified_twice:
  "fst (verifyHeader (Suc (Suc 0)) sample_node sample_chain (sample_header\<lparr>Root := 1\<rparr>) [] (snd verified_once)) = Inr ()"
  by code_simp

lemma sample_snapshot_found:
  "\<exists>s e'. snapshot_of 1 sample_node sample_chain 0 0 [] [] 10 sample_engine = (Inr s, e')"
proof -
  have "case fst (snapshot_of 1 sample_node sample_chain 0 0 [] [] 10 sample_engine) of Inl _ \<Rightarrow> False | Inr _ \<Rightarrow> True"
    by code_simp
  then show ?thesis
    by (cases "snapshot_of 1 sample_node sample_chain 0 0 [] [] 10 sample_engine") (auto split: sum.splits)
qed




lemma genesis_check_bottoms_out_witness:
  "verifyHeader 5 sample_node sample_chain sample_header [] = verifyHeader 2 sample_node sample_chain sample_header []"
  using genesis_check_bottoms_out[of sample_chain 3 sample_node sample_header "[]"]
  by (simp add: sample_chain_def sample_block0_def Uint64_def eval_nat_numeral split: if_splits)

text \<open>A fifth block with an empty queue in a loop of three.\<close>

definition empty_queue_node :: node where
  "empty_queue_node = sample_node\<lparr>Env := sample_env\<lparr>decodeHeaderExtra := (\<lambda>_ _ _. Inr empty_extra)\<rparr>\<rparr>"


end
