(* ===== verification/Alien_Seal.thy ===== *)
theory Alien_Seal
  imports Alien_Verify
begin

text \<open>
  Producing a block: what \<open>Finalize\<close> writes into the extra data is what \<open>verifySeal\<close> checks, sealing
  leaves it alone, and the cases in which a block cannot be made or checked.
\<close>

subsection \<open>Collecting events does not touch the queue\<close>

definition queue_part :: "header_extra \<Rightarrow> address list \<times> address list \<times> u64" where
  "queue_part x = (SignerQueue x, SignerMissing x, Ext_LoopStartTime x)"

lemma eventTx_queue:
  "eventTx env cfg gh number snap tx a info ts = Inr ts' \<Longrightarrow> queue_part (TS_extra ts') = queue_part (TS_extra ts)"
  by (auto simp: eventTx_def Let_def res_simps queue_part_def split: if_splits prod.splits)

lemma scTx_queue:
  "scTx snap tx a info ts = Inr (ts', c) \<Longrightarrow> queue_part (TS_extra ts') = queue_part (TS_extra ts)"
  by (auto simp: scTx_def Let_def res_simps queue_part_def split: if_splits prod.splits option.splits)

lemma customTx_queue:
  "customTx env cfg gh number snap tx a ts = Inr (ts', c) \<Longrightarrow> queue_part (TS_extra ts') = queue_part (TS_extra ts)"
  by (auto simp: customTx_def Let_def res_simps dest: eventTx_queue scTx_queue split: if_splits)

lemma processTx_queue:
  assumes "processTx env cfg gh number snap ts tx = Inr ts'"
  shows "queue_part (TS_extra ts') = queue_part (TS_extra ts)"
proof (cases "Tx_Sender tx")
  case (Inr a)
  then obtain ts1 skip where "customTx env cfg gh number snap tx a ts = Inr (ts1, skip)"
    and "ts' = ts1 \<or> (\<exists>vs. ts' = ts1\<lparr>TS_extra := (TS_extra ts1)\<lparr>ModifyPredecessorVotes := vs\<rparr>\<rparr>)"
    using assms by (auto simp: processTx_def res_simps split: if_splits)
  then show ?thesis using customTx_queue by (fastforce simp: queue_part_def)
qed (use assms in \<open>simp add: processTx_def\<close>)

lemma processCustomTx_queue:
  assumes "processCustomTx env cfg gh snapshotAt x hdr st txs receipts = Inr (x', r, st')"
  shows "queue_part x' = queue_part x"
proof -
  obtain snap ts where "foldM (processTx env cfg gh (Uint64 (Hdr_Number hdr)) snap)
      \<lparr>TS_extra = x, TS_balances = st, TS_refund = []\<rparr> txs = Inr ts" "x' = TS_extra ts"
    using assms by (auto simp: processCustomTx_def Let_def res_simps)
  then show ?thesis
    using foldM_keeps[of "processTx env cfg gh (Uint64 (Hdr_Number hdr)) snap" _ txs ts "\<lambda>ts. queue_part (TS_extra ts)"]
      processTx_queue by fastforce
qed

subsection \<open>The extra data of a finished block\<close>

text \<open>The body between vanity and seal is what was encoded, and sealing does not change it.\<close>

lemma length_vanity: "length (vanity x) = extraVanity"
  by (simp add: vanity_def)

lemma go_slice_body:
  assumes "length v = extraVanity" "length s = extraSeal"
  shows "go_slice (v @ b @ s) (int extraVanity) (int (length (v @ b @ s)) - int extraSeal) = Inr b"
  using assms by (simp add: go_slice_def)

lemma sealExtra_eq:
  assumes "length s = extraSeal" "length sig = extraSeal"
  shows "sealExtra (x @ s) sig = x @ sig"
  using assms by (simp add: sealExtra_def)

subsection \<open>The rules do not change\<close>

text \<open>Of the engine's configuration only the period is ever written.\<close>

definition rules :: "engine \<Rightarrow> alien_config" where
  "rules e = (E_config e)\<lparr>Period := 0\<rparr>"

lemma rules_MaxSignerCount: "rules e = rules e' \<Longrightarrow> MaxSignerCount (E_config e) = MaxSignerCount (E_config e')"
  by (drule arg_cong[of _ _ MaxSignerCount]) (simp add: rules_def)

definition keeps_rules :: "'a eng \<Rightarrow> bool" where
  "keeps_rules m \<longleftrightarrow> (\<forall>c. keeps_sm (\<lambda>e. rules e = c) m)"

lemma keeps_rulesD: "keeps_rules m \<Longrightarrow> m e = (r, e') \<Longrightarrow> rules e' = rules e"
  unfolding keeps_rules_def keeps_sm_def by blast

lemma keeps_rulesI: "(\<And>e r e'. m e = (r, e') \<Longrightarrow> rules e' = rules e) \<Longrightarrow> keeps_rules m"
  by (simp add: keeps_rules_def keeps_sm_def)

lemma keeps_rules_bind: "keeps_rules m \<Longrightarrow> (\<And>x. keeps_rules (f x)) \<Longrightarrow> keeps_rules (bind_sm m f)"
  unfolding keeps_rules_def by (blast intro: keeps_sm_bind)

lemma keeps_rules_modify: "(\<And>e. rules (f e) = rules e) \<Longrightarrow> keeps_rules (modify_sm f)"
  by (rule keeps_rulesI) (auto simp: modify_sm_def)

lemma keeps_rules_basic:
  "keeps_rules (lift_sm r)" "keeps_rules (return_sm x)" "keeps_rules (fail_sm err)" "keeps_rules get_sm"
  by (auto intro!: keeps_rulesI simp: lift_sm_def get_sm_def)

lemma keeps_rules_store: "keeps_rules (recents_Add nd s)" "keeps_rules (store nd s)"
  by (auto intro!: keeps_rulesI simp: recents_Add_def store_def modify_sm_def rules_def split: if_splits)

lemmas keeps_rules_intros = keeps_rules_bind keeps_rules_basic keeps_rules_store

lemma genesisSnapshot_rules:
  assumes "\<And>g. keeps_rules (check g)"
  shows "keeps_rules (genesisSnapshot nd chain check votes lcrs)"
proof -
  have "keeps_rules (modify_sm (\<lambda>e. e\<lparr>E_config := (E_config e)\<lparr>Period := p\<rparr>\<rparr>))" for p
    by (rule keeps_rules_modify) (simp add: rules_def)
  then show ?thesis
    unfolding genesisSnapshot_def Let_def using assms
    by (cases "GetHeaderByNumber chain 0") (auto intro!: keeps_rules_intros)
qed

lemma findSnapshot_rules:
  assumes "\<And>g. keeps_rules (check g)" "findSnapshot nd chain check votes lcrs number h parents headers e = (r, e')"
  shows "rules e' = rules e"
  using assms(2)
proof (induction "unat number" arbitrary: number h parents headers rule: less_induct)
  case less
  from less.prems show ?case
  proof (cases rule: findSnapshot_cases)
    case genesis
    show ?thesis
      by (rule keeps_rulesD[OF keeps_rules_bind[OF genesisSnapshot_rules[OF assms(1)] keeps_rules_basic(2)] genesis(2)])
  next
    case (earlier hdr ps)
    show ?thesis by (rule less.hyps[OF earlier(1,3)])
  qed simp_all
qed

lemma snapshotWith_rules:
  assumes "\<And>g. keeps_rules (check g)"
  shows "keeps_rules (snapshotWith nd chain check number h parents votes lcrs)"
proof -
  have "keeps_rules (findSnapshot nd chain check votes lcrs number h parents [])"
    using findSnapshot_rules[OF assms] by (rule keeps_rulesI)
  then show ?thesis
    unfolding snapshotWith_def by (auto intro!: keeps_rules_intros)
qed

lemma verifyHeader_rules: "keeps_rules (verifyHeader d nd chain hdr parents)"
proof (induction d arbitrary: hdr parents)
  case (Suc d)
  have snap: "keeps_rules (snapshotWith nd chain (\<lambda>g. verifyHeader d nd chain g []) number h ps votes lcrs)" for number h ps votes lcrs
    by (rule snapshotWith_rules) (rule Suc.IH)
  have mc: "keeps_rules (modify_sm (\<lambda>e. e\<lparr>mcLoopStartTime := a, mcPeriod := b, mcSignerLength := c\<rparr>))" for a b c
    by (rule keeps_rules_modify) (simp add: rules_def)
  have side: "keeps_rules (verifySideChain nd chain signer hdr)" for signer hdr
    unfolding verifySideChain_def by (auto intro!: keeps_rules_intros mc split: prod.split)
  have seal: "keeps_rules (verifySealWith nd chain (\<lambda>number h ps. snapshotWith nd chain (\<lambda>g. verifyHeader d nd chain g [])
       number h ps [] defaultLoopCntRecalculateSigners) hdr parents)" for hdr parents
    unfolding verifySealWith_def Let_def by (auto intro!: keeps_rules_intros snap side)
  show ?case
    unfolding verifyHeader.simps verifyHeaderWith_def verifyCascadingWith_def Let_def
    by (auto intro!: keeps_rules_intros snap seal split: option.split)
qed (auto intro: keeps_rules_basic)

lemma snapshot_of_rules: "keeps_rules (snapshot_of d nd chain number h parents votes lcrs)"
  unfolding snapshot_of_def by (rule snapshotWith_rules) (rule verifyHeader_rules)

text \<open>A snapshot the engine returns carries the engine's configuration.\<close>

lemma findSnapshot_config:
  assumes "findSnapshot nd chain check votes lcrs number h parents headers e = (Inr (s, hs), e')"
  shows "config s = E_config e'"
  using assms
proof (induction "unat number" arbitrary: number h parents headers rule: less_induct)
  case less
  from less.prems show ?case
  proof (cases rule: findSnapshot_cases)
    case (hit s')
    then show ?thesis by (auto simp: recents_Get_def loadSnapshot_def fillDefaults_def)
  next
    case genesis
    then show ?thesis
      by (auto simp: genesisSnapshot_def res_simps store_def Let_def split: option.splits if_splits)
  next
    case (earlier hdr ps)
    show ?thesis by (rule less.hyps[OF earlier(1,3)])
  qed simp
qed

lemma snapshot_of_config:
  assumes "snapshot_of d nd chain number h parents votes lcrs e = (Inr s, e')"
  shows "config s = E_config e'"
proof -
  obtain s0 new e1 where f: "findSnapshot nd chain (\<lambda>g. verifyHeader d nd chain g []) votes lcrs number h parents [] e = (Inr (s0, new), e1)"
    and a: "apply_snapshot (Env nd) s0 (rev new) = Inr s" and e: "E_config e' = E_config e1"
    using assms by (auto simp: snapshot_of_def snapshotWith_def res_simps recents_Add_def store_def split: if_splits)
  show ?thesis using findSnapshot_config[OF f] apply_snapshot_config[OF a] e by simp
qed

subsection \<open>Finished blocks pass the checks\<close>

lemma mainChainExtra_loop:
  assumes "mainChainExtra nd chain sa cfg snap x hdr st txs receipts = Inr (x2, st')"
  obtains x1 where "queue_part x1 = queue_part x" "loopExtra nd cfg snap (Uint64 (Hdr_Number hdr)) x1 = Inr x2"
proof -
  obtain y r st1 where "processCustomTx (Env nd) cfg (GetHeaderByNumber chain) sa x hdr st txs receipts = Inr (y, r, st1)"
    "loopExtra nd cfg snap (Uint64 (Hdr_Number hdr))
       (y\<lparr>ConfirmedBlockNumber := Uint64 (getLastConfirmedBlockNumber snap (CurrentBlockConfirmations y))\<rparr>) = Inr x2"
    using assms by (auto simp: mainChainExtra_def Let_def res_simps)
  then show ?thesis using processCustomTx_queue by (intro that) (auto simp: queue_part_def)
qed

lemma finalizeMain_eq [res_simps]:
  "finalizeMain nd chain again snap x hdr st txs receipts e = (y, e') \<longleftrightarrow>
    (\<exists>r. (if Uint64 (Hdr_Number hdr) > 1 then again e else (Inl PanicNil, e)) = (r, e') \<and>
      mainChainExtra nd chain (\<lambda>_ _. r) (E_config e') snap x hdr st txs receipts = y)"
  by (auto simp: finalizeMain_def split: prod.splits)

lemma FinalizeE:
  assumes "Finalize d nd chain root assemble hdr st txs receipts e = (Inr (hdr', st'), e')"
    "\<not> SideChain (Chain_Alien chain)" "Uint64 (Hdr_Number hdr) > 1"
  defines "n \<equiv> Uint64 (Hdr_Number hdr)"
  obtains parent pe missing snap e1 x x2 enc where
    "GetHeader chain (ParentHash hdr) (n - 1) = Some parent" "decodeExtra nd (E_config e) parent = Inr pe"
    "missingSigners nd (E_config e) (\<lambda>_. GetHeader chain (ParentHash parent) (n - 2)) parent
       (hdr\<lparr>MixDigest := 0, Hdr_Time := blockTime nd (E_config e) parent, Extra := vanity (Extra hdr)\<rparr>) pe = Inr missing"
    "snapshot_of d nd chain (n - 1) (ParentHash hdr) [] [] defaultLoopCntRecalculateSigners e = (Inr snap, e1)"
    "rules e' = rules e" "SignerQueue x = SignerQueue pe" "SignerMissing x = missing"
    "loopExtra nd (E_config e') snap n x = Inr x2"
    "encodeHeaderExtra (E_config e') (Hdr_Number hdr) x2 = Inr enc"
    "hdr' = assemble (hdr\<lparr>MixDigest := 0, Hdr_Time := blockTime nd (E_config e) parent,
       Extra := vanity (Extra hdr) @ enc @ replicate extraSeal 0, Difficulty := defaultDifficulty, Root := root st',
       UncleHash := uncleHash nd\<rparr>) txs receipts"
proof -
  let ?snapshotAt = "snapshot_of d nd chain (n - 1) (ParentHash hdr) [] [] defaultLoopCntRecalculateSigners"
  obtain parent where parent: "GetHeader chain (ParentHash hdr) (n - 1) = Some parent"
    using assms(1) by (auto simp: Finalize_def n_def Let_def split: option.splits)
  let ?h1 = "hdr\<lparr>MixDigest := 0, Hdr_Time := blockTime nd (E_config e) parent, Extra := vanity (Extra hdr)\<rparr>"
  obtain votes pe x0 snap e1 again e2 x2 enc where
    start: "startExtra nd chain (E_config e) st parent ?h1 = Inr (votes, pe, x0)"
    and snap: "snapshot_of d nd chain (n - 1) (ParentHash hdr) [] votes defaultLoopCntRecalculateSigners e = (Inr snap, e1)"
    and again: "?snapshotAt e1 = (again, e2)"
    and main: "mainChainExtra nd chain (\<lambda>_ _. again) (E_config e2) snap x0 ?h1 st txs receipts = Inr (x2, st')"
    and enc: "encodeHeaderExtra (E_config e2) (Hdr_Number hdr) x2 = Inr enc" and e': "e' = e2"
    and hdr': "hdr' = assemble (?h1\<lparr>Extra := Extra ?h1 @ enc @ replicate extraSeal 0, Difficulty := defaultDifficulty,
       Root := root st', UncleHash := uncleHash nd\<rparr>) txs receipts"
    using assms(1,2,3) parent
    by (auto simp: Finalize_def n_def Let_def res_simps)
  have "n \<noteq> 1" using assms(3) by (auto simp: n_def)
  then obtain missing where pe: "decodeExtra nd (E_config e) parent = Inr pe" "votes = []"
      "missingSigners nd (E_config e) (\<lambda>_. GetHeader chain (ParentHash parent) (n - 2)) parent ?h1 pe = Inr missing"
      "SignerQueue x0 = SignerQueue pe" "SignerMissing x0 = missing"
    using start by (auto simp: startExtra_def n_def Let_def res_simps)
  have "rules e1 = rules e" by (rule keeps_rulesD[OF snapshot_of_rules snap])
  moreover have "rules e2 = rules e1" by (rule keeps_rulesD[OF snapshot_of_rules again])
  ultimately have r: "rules e' = rules e" by (simp add: e')
  obtain x where x: "queue_part x = queue_part x0" "loopExtra nd (E_config e2) snap (Uint64 (Hdr_Number ?h1)) x = Inr x2"
    by (rule mainChainExtra_loop[OF main])
  show ?thesis
    by (rule that[OF parent pe(1,3) snap[unfolded pe(2)] r])
      (use x pe(4,5) enc hdr' e' in \<open>simp_all add: n_def queue_part_def\<close>)
qed

lemma sameQueue_refl: "nat (go_int m) \<le> length q \<Longrightarrow> sameQueue m q q = Inr ()"
proof -
  assume l: "nat (go_int m) \<le> length q"
  have "foldM (\<lambda>_ i. bind_res (go_nth q (int i)) (\<lambda>p. bind_res (go_nth q (int i)) (\<lambda>c.
      if p \<noteq> c then Inl errInvalidSignerQueue else Inr ()))) () is = Inr ()" if "\<forall>i \<in> set is. i < length q" for "is"
    using that by (induction "is") simp_all
  then show ?thesis using l by (simp add: sameQueue_def)
qed

text \<open>With the real codec, decoding does not depend on the configuration.\<close>

lemma decodeExtra_rlp:
  assumes "decodeHeaderExtra (Env nd) = decodeHeaderExtra_rlp"
  shows "decodeExtra nd cfg hdr = decodeExtra nd cfg' hdr"
proof -
  have "decodeHeaderExtra_rlp cfg = decodeHeaderExtra_rlp cfg'"
    by (intro ext) (simp add: decodeHeaderExtra_rlp_def)
  then show ?thesis by (simp add: decodeExtra_def assms)
qed

lemma missingSigners_rules:
  assumes "decodeHeaderExtra (Env nd) = decodeHeaderExtra_rlp" "cfg\<lparr>Period := 0\<rparr> = cfg'\<lparr>Period := 0\<rparr>"
    "Hdr_Number h' = Hdr_Number h" "Coinbase h' = Coinbase h"
  shows "missingSigners nd cfg gp parent h pe = missingSigners nd cfg' gp parent h' pe"
proof -
  have "MaxSignerCount cfg = MaxSignerCount cfg'" "TrantorBlock cfg = TrantorBlock cfg'"
    using arg_cong[OF assms(2), of MaxSignerCount] arg_cong[OF assms(2), of TrantorBlock] by simp_all
  then show ?thesis
    unfolding missingSigners_def IsTrantor_def Let_def decodeExtra_rlp[OF assms(1), of cfg _ cfg']
    by (simp only: assms(3,4))
qed

lemma decodeExtra_sealed:
  assumes "decodeHeaderExtra (Env nd) = decodeHeaderExtra_rlp" "Extra hdr = v @ body @ sig"
    "length v = extraVanity" "length sig = extraSeal" "encodeHeaderExtra cfg n x = Inr body" "length body < 2 ^ 63"
  shows "decodeExtra nd cfg' hdr = Inr x"
  using go_slice_body[OF assms(3,4), of body] decode_encoded_extra[OF assms(5,6)]
  by (simp only: decodeExtra_def assms(1,2) bind_res_simps)

text \<open>The time of a new block is at least a period after its parent's.\<close>

lemma blockTime_period:
  assumes "0 \<le> Hdr_Time parent" "blockTime nd cfg parent < 2 ^ 63" "Hdr_Time parent + uint (Period cfg) < 2 ^ 63"
  shows "\<not> Uint64 (blockTime nd cfg parent) - Uint64 (Hdr_Time parent) < Period cfg"
proof -
  let ?t = "Hdr_Time parent + uint (Period cfg)"
  have p: "0 \<le> uint (Period cfg)" by simp
  then have "wrap_int ?t = ?t" using assms(1,3) by (intro wrap_int_small) linarith+
  then have ge: "?t \<le> blockTime nd cfg parent" by (simp add: blockTime_def Let_def)
  let ?d = "blockTime nd cfg parent - Hdr_Time parent"
  have d1: "uint (Period cfg) \<le> ?d" using ge by linarith
  have "?d < 2 ^ 63" using assms(1,2) by linarith
  then have d2: "?d < 2 ^ 64" by (rule order.strict_trans) simp
  have d3: "0 \<le> ?d" using d1 p by linarith
  have "Uint64 (blockTime nd cfg parent) - Uint64 (Hdr_Time parent) = Uint64 ?d"
    using assms(1) d3 order_trans[OF add_nonneg_nonneg[OF assms(1) p] ge] by (simp add: Uint64_def)
  then have "uint (Uint64 (blockTime nd cfg parent) - Uint64 (Hdr_Time parent)) = ?d"
    by (simp only: uint_Uint64[OF d3 d2])
  then show ?thesis using d1 by (simp add: word_less_def)
qed

lemma loopExtra_verified:
  assumes "loopExtra nd cfg snap n x = Inr x2" "n > 1" "hash_sort (sorter nd)"
    "go_int (MaxSignerCount (config snap)) > 0" "nat (go_int (MaxSignerCount cfg)) \<le> length (SignerQueue x)"
  shows "SignerMissing x2 = SignerMissing x"
    and "n mod MaxSignerCount cfg = 0 \<Longrightarrow> verifySignerQueue (sorter nd) snap (SignerQueue x2) = Inr ()"
    and "n mod MaxSignerCount cfg \<noteq> 0 \<Longrightarrow> sameQueue (MaxSignerCount cfg) (SignerQueue x) (SignerQueue x2) = Inr ()"
    and "MaxSignerCount cfg \<noteq> 0"
proof -
  have n: "n \<noteq> 1" using assms(2) by auto
  show "SignerMissing x2 = SignerMissing x" "MaxSignerCount cfg \<noteq> 0"
    using assms(1) n by (auto simp: loopExtra_def res_simps split: if_splits)
  show "verifySignerQueue (sorter nd) snap (SignerQueue x2) = Inr ()" if z: "n mod MaxSignerCount cfg = 0"
  proof -
    obtain q where q: "createSignerQueue (sorter nd) snap = Inr q" "SignerQueue x2 = q"
      using assms(1) n z by (auto simp: loopExtra_def res_simps)
    have "length q = nat (go_int (MaxSignerCount (config snap)))" by (rule length_createSignerQueue[OF q(1) assms(3)])
    then have "q \<noteq> []" using assms(4) by auto
    then show ?thesis using q by (simp add: verifySignerQueue_iff[OF assms(3)])
  qed
  show "sameQueue (MaxSignerCount cfg) (SignerQueue x) (SignerQueue x2) = Inr ()" if "n mod MaxSignerCount cfg \<noteq> 0"
    using assms(1) n that sameQueue_refl[OF assms(5)] by (auto simp: loopExtra_def res_simps)
qed

text \<open>\<open>types.NewBlock\<close> copies the header and fills in roots and bloom only.\<close>

definition assembles :: "(header \<Rightarrow> transaction list \<Rightarrow> receipt list \<Rightarrow> header) \<Rightarrow> bool" where
  "assembles f \<longleftrightarrow> (\<forall>h txs rs. ParentHash (f h txs rs) = ParentHash h \<and> Hdr_Number (f h txs rs) = Hdr_Number h \<and>
     Coinbase (f h txs rs) = Coinbase h \<and> Hdr_Time (f h txs rs) = Hdr_Time h \<and> Extra (f h txs rs) = Extra h)"

definition sealed_with :: "header \<Rightarrow> byte list \<Rightarrow> header" where
  "sealed_with hdr sig = hdr\<lparr>Extra := sealExtra (Extra hdr) sig\<rparr>"

lemma finalize_verifies:
  assumes "Finalize d nd chain root assemble hdr st txs receipts e = (Inr (hdr', st'), e')"
    "\<not> SideChain (Chain_Alien chain)" "Uint64 (Hdr_Number hdr) > 1"
    "decodeHeaderExtra (Env nd) = decodeHeaderExtra_rlp" "assembles assemble" "hash_sort (sorter nd)"
    "Period (E_config e) = Period (Chain_Alien chain)" "go_int (MaxSignerCount (E_config e)) > 0"
    and parent: "\<And>p x. GetHeader chain (ParentHash hdr) (Uint64 (Hdr_Number hdr) - 1) = Some p \<Longrightarrow>
      0 \<le> Hdr_Time p \<and> Hdr_Time p + uint (Period (E_config e)) < 2 ^ 63 \<and> blockTime nd (E_config e) p < 2 ^ 63 \<and>
      (decodeExtra nd (E_config e) p = Inr x \<longrightarrow> nat (go_int (MaxSignerCount (E_config e))) \<le> length (SignerQueue x))"
    and "length (Extra hdr') < 2 ^ 63" "length sig = extraSeal"
  shows "\<exists>snap e1. snapshot_of d nd chain (Uint64 (Hdr_Number hdr) - 1) (ParentHash hdr) [] []
      defaultLoopCntRecalculateSigners e = (Inr snap, e1) \<and>
    verifyLoop nd chain (E_config e') snap signer [] (sealed_with hdr' sig) = Inr ()"
proof -
  let ?n = "Uint64 (Hdr_Number hdr)" and ?h = "sealed_with hdr' sig"
  obtain parent pe missing snap e1 x x2 body where
    p: "GetHeader chain (ParentHash hdr) (?n - 1) = Some parent" "decodeExtra nd (E_config e) parent = Inr pe"
    and miss: "missingSigners nd (E_config e) (\<lambda>_. GetHeader chain (ParentHash parent) (?n - 2)) parent
       (hdr\<lparr>MixDigest := 0, Hdr_Time := blockTime nd (E_config e) parent, Extra := vanity (Extra hdr)\<rparr>) pe = Inr missing"
    and snap: "snapshot_of d nd chain (?n - 1) (ParentHash hdr) [] [] defaultLoopCntRecalculateSigners e = (Inr snap, e1)"
    and r: "rules e' = rules e" and x: "SignerQueue x = SignerQueue pe" "SignerMissing x = missing"
    and x2: "loopExtra nd (E_config e') snap ?n x = Inr x2" "encodeHeaderExtra (E_config e') (Hdr_Number hdr) x2 = Inr body"
    and hdr': "hdr' = assemble (hdr\<lparr>MixDigest := 0, Hdr_Time := blockTime nd (E_config e) parent,
       Extra := vanity (Extra hdr) @ body @ replicate extraSeal 0, Difficulty := defaultDifficulty, Root := root st',
       UncleHash := uncleHash nd\<rparr>) txs receipts"
    by (rule FinalizeE[OF assms(1-3)])
  note par = parent[OF p(1), of pe]
  have h: "ParentHash ?h = ParentHash hdr" "Hdr_Number ?h = Hdr_Number hdr" "Coinbase ?h = Coinbase hdr"
    "Hdr_Time ?h = blockTime nd (E_config e) parent" "Extra ?h = vanity (Extra hdr) @ body @ sig"
    "Extra hdr' = vanity (Extra hdr) @ body @ replicate extraSeal 0"
    using assms(5) sealExtra_eq[of "replicate extraSeal 0" sig "vanity (Extra hdr) @ body"] assms(11)
    by (simp_all add: sealed_with_def assembles_def hdr')
  have body: "decodeExtra nd (E_config e') ?h = Inr x2"
    by (rule decodeExtra_sealed[OF assms(4) h(5) length_vanity assms(11) x2(2)])
      (use assms(10) h(6) in simp)
  have same: "(E_config e)\<lparr>Period := 0\<rparr> = (E_config e')\<lparr>Period := 0\<rparr>" using r by (simp add: rules_def)
  have mx: "MaxSignerCount (E_config e') = MaxSignerCount (E_config e)"
    by (rule rules_MaxSignerCount[OF r])
  have "rules e1 = rules e" by (rule keeps_rulesD[OF snapshot_of_rules snap])
  then have "MaxSignerCount (E_config e1) = MaxSignerCount (E_config e)"
    by (rule rules_MaxSignerCount)
  then have ms: "go_int (MaxSignerCount (config snap)) > 0" using snapshot_of_config[OF snap] assms(8) by simp
  note lv = loopExtra_verified[OF x2(1) assms(3,6) ms, unfolded mx x]
  have q: "nat (go_int (MaxSignerCount (E_config e))) \<le> length (SignerQueue pe)" using par p(2) by simp
  have m: "missingSigners nd (E_config e') (\<lambda>_. grandParentOf chain [] parent ?n) parent ?h pe = Inr missing"
    using miss missingSigners_rules[OF assms(4) same, of ?h] h(2,3) by (simp add: grandParentOf_def)
  have t: "\<not> Uint64 (Hdr_Time ?h) - Uint64 (Hdr_Time parent) < Period (Chain_Alien chain)"
    using blockTime_period[of parent nd "E_config e"] par h(4) assms(7) by simp
  have "verifyLoop nd chain (E_config e') snap signer [] ?h = Inr ()"
    using p m t lv(1)[OF q] lv(2)[OF q] lv(3)[OF q] lv(4)[OF q] decodeExtra_rlp[OF assms(4), of "E_config e'" parent "E_config e"]
    by (simp add: verifyLoop_def Let_def parentOf_def h(1,2) body u64_mod_def mx)
  then show ?thesis using snap by blast
qed

subsection \<open>Properties\<close>


text \<open>
  A confirmation with a negative block number stops block production: \<open>ufo:1:event:confirm:-1\<close> from a
  signer of block 1 is collected, because only the absolute value is looked at, and extra data that
  contains it has no encoding, so \<open>Finalize\<close> fails.
\<close>

lemma negative_confirmation_blocks_finalize:
  "fst (processEventConfirm sample_env sample_config (\<lambda>n. if n = 1 then Some sample_header else None) []
      [''ufo'', ''1'', ''event'', ''confirm'', ''-1''] 2 tx 9 []) = [\<lparr>Signer = 9, BlockNumber = -1\<rparr>] \<and>
   (\<exists>err. encodeHeaderExtra cfg n (x\<lparr>CurrentBlockConfirmations := [\<lparr>Signer = 9, BlockNumber = -1\<rparr>]\<rparr>) = Inl err)"
proof
  have b: "big_UnmarshalText ''-1'' = Some (-1)" by code_simp
  show "fst (processEventConfirm sample_env sample_config (\<lambda>n. if n = 1 then Some sample_header else None) []
      [''ufo'', ''1'', ''event'', ''confirm'', ''-1''] 2 tx 9 []) = [\<lparr>Signer = 9, BlockNumber = -1\<rparr>]"
    by (simp add: processEventConfirm_def posEventConfirmNumber_def b Uint64_def sample_config_def sample_header_def
        extraVanity_def extraSeal_def sample_env_def empty_extra_def)
  have "\<not> non_negative (x\<lparr>CurrentBlockConfirmations := [\<lparr>Signer = 9, BlockNumber = -1\<rparr>]\<rparr>)"
    by (simp add: non_negative_def)
  then show "\<exists>err. encodeHeaderExtra cfg n (x\<lparr>CurrentBlockConfirmations := [\<lparr>Signer = 9, BlockNumber = -1\<rparr>]\<rparr>) = Inl err"
    using encodeHeaderExtra_iff[of cfg n "x\<lparr>CurrentBlockConfirmations := [\<lparr>Signer = 9, BlockNumber = -1\<rparr>]\<rparr>"]
    by (cases "encodeHeaderExtra cfg n (x\<lparr>CurrentBlockConfirmations := [\<lparr>Signer = 9, BlockNumber = -1\<rparr>]\<rparr>)") auto
qed

text \<open>
  A side chain block is confirmed on the main chain at most once: a transaction is only sent for a block
  above the last one confirmed, which it then becomes.
\<close>

lemma confirmed_once:
  assumes "mcConfirmBlock chain hex sign hdr notice e = (Inr (Some tx), e')"
  shows "Uint64 (Hdr_Number hdr) > lcsc e" "lcsc e' = Uint64 (Hdr_Number hdr)"
    "mcConfirmBlock chain hex sign hdr notice' e' = (Inr None, e')"
proof -
  show "Uint64 (Hdr_Number hdr) > lcsc e" and l: "lcsc e' = Uint64 (Hdr_Number hdr)"
    using assms by (auto simp: mcConfirmBlock_def Let_def split: if_splits sum.splits option.splits)
  show "mcConfirmBlock chain hex sign hdr notice' e' = (Inr None, e')" by (simp add: mcConfirmBlock_def Let_def l)
qed

text \<open>
  When the account cannot sign, say because it is locked, confirming a block does not end with a log
  message: the nil transaction is dereferenced, and the node panics.
\<close>

lemma unsigned_confirmation_panics:
  assumes "E_signer e \<noteq> 0" "lcsc e < Uint64 (Hdr_Number hdr)"
    "MaxSignerCount (E_config e) * scUnconfirmLoop < Uint64 (Hdr_Number hdr)"
    "getTransactionCountFromMainChain chain (E_signer e) = Inr nonce" "getLastLoopInfo chain e hex hdr = Inr info"
    "GetHeaderByNumber chain 0 = Some genesis" "\<And>n a d v. sign n a d v = Inl err"
  shows "fst (mcConfirmBlock chain hex sign hdr notice e) = Inl PanicNil"
  using assms by (simp add: mcConfirmBlock_def Let_def)

subsection \<open>At concrete inputs\<close>

definition fin_node :: node where
  "fin_node = sample_node\<lparr>Env := sample_env\<lparr>decodeHeaderExtra := decodeHeaderExtra_rlp\<rparr>\<rparr>"

definition fin_extra :: header_extra where
  "fin_extra = empty_extra\<lparr>SignerQueue := [0, 0, 0]\<rparr>"

definition fin_body :: "byte list" where
  "fin_body = (case encodeHeaderExtra sample_config 1 fin_extra of Inl _ \<Rightarrow> [] | Inr b \<Rightarrow> b)"

definition fin_parent :: header where
  "fin_parent = sample_header\<lparr>Extra := replicate 32 0 @ fin_body @ replicate 65 0\<rparr>"

definition fin_chain :: chain_reader where
  "fin_chain = sample_chain\<lparr>GetHeader := (\<lambda>h n. if h = 1 \<and> n = 1 then Some fin_parent else None)\<rparr>"

definition fin_header :: header where
  "fin_header = sample_header\<lparr>Hdr_Number := 2, ParentHash := 1\<rparr>"

definition fin_snapshot :: snapshot where
  "fin_snapshot = sample_snapshot\<lparr>Number := 1, Hash := 1\<rparr>"

definition fin_engine :: engine where
  "fin_engine = (New sample_config (\<lambda>_. None))\<lparr>recents := [(1, fin_snapshot)]\<rparr>"

lemma fin_headsize: "headsize 63 = 2" "headsize 77 = 2"
  by code_simp+

lemma fin_encoded: "\<exists>b. encodeHeaderExtra cfg n fin_extra = Inr b \<and> length b < 1000"
  by (simp add: encodeHeaderExtra_def EncodeToBytes_eq T_HeaderExtra_def of_extra_def of_slice_def fin_extra_def
      empty_extra_def enc_list_def length_puthead enc_nat_def enc_string_def rlp_res_def T_Address_def
      of_address_def Address_Bytes_def AddressLength_def sample_headsize fin_headsize)

lemma fin_body: "encodeHeaderExtra sample_config 1 fin_extra = Inr fin_body" "length fin_body < 1000"
  using fin_encoded[of sample_config 1] by (auto simp: fin_body_def)

lemma fin_decode: "decodeExtra fin_node cfg fin_parent = Inr fin_extra"
proof (rule decodeExtra_sealed[OF _ _ _ _ fin_body(1)])
  show "Extra fin_parent = replicate 32 0 @ fin_body @ replicate 65 0" by (simp add: fin_parent_def)
  show "length fin_body < 2 ^ 63" by (rule order.strict_trans[OF fin_body(2)]) simp
qed (simp_all add: fin_node_def extraVanity_def extraSeal_def)

lemma fin_rewards: "\<exists>st'. accumulateRewards sample_config (\<lambda>_. 0) h fin_snapshot [] = Inr st'" if "Hdr_Number h = 2"
proof -
  have v: "calculateVoteReward fin_snapshot cb r = Inr []" for cb r
    by (simp add: calculateVoteReward_def fin_snapshot_def sample_defs)
  have sc: "calculateSCReward fin_snapshot r = ([], r)" for r
    by (rule calculateSCReward_none) (simp add: fin_snapshot_def sample_defs)
  have "\<exists>R. blockRewardOf (Period sample_config) 2 = Inr R" by (rule exI, code_simp)
  then show ?thesis by (auto simp: accumulateRewards_def Let_def v sc that payRefunds_eq)
qed

lemma fin_finalized:
  "\<exists>h st e. Finalize 1 fin_node fin_chain (\<lambda>_. 0) (\<lambda>h _ _. h) fin_header (\<lambda>_. 0) [] [] fin_engine = (Inr (h, st), e) \<and>
    length (Extra h) < 2 ^ 63"
proof -
  have c: "recents_Get 1 fin_engine = Some (fin_snapshot\<lparr>config := E_config fin_engine\<rparr>)"
    by (simp add: recents_Get_def fin_engine_def gget_def)
  have cfg: "E_config fin_engine = sample_config" by (simp add: fin_engine_def New_def sample_config_def)
  have s: "fin_snapshot\<lparr>config := sample_config\<rparr> = fin_snapshot" by (simp add: fin_snapshot_def sample_defs)
  have n: "getLastConfirmedBlockNumber fin_snapshot [] = 0" by code_simp
  let ?e = "fin_engine\<lparr>recents := recents_evict fin_node (gput (recents fin_engine) 1 fin_snapshot)\<rparr>"
  have c2: "recents_Get 1 ?e = Some fin_snapshot"
    by (simp add: recents_Get_def fin_node_def sample_node_def cfg s)
  note snap = snapshot_of_cached[OF c[unfolded cfg s]] snapshot_of_cached[OF c2]
  let ?h1 = "fin_header\<lparr>MixDigest := 0, Hdr_Time := blockTime fin_node sample_config fin_parent, Extra := vanity (Extra fin_header)\<rparr>"
  have start: "startExtra fin_node fin_chain sample_config (\<lambda>_. 0) fin_parent ?h1 = Inr ([], fin_extra, fin_extra)"
  proof -
    have "missingSigners fin_node sample_config gp fin_parent ?h1 fin_extra = Inr []" for gp
      by (simp add: missingSigners_def fin_header_def Uint64_def IsTrantor_def isForked_def sample_config_def u64_mod_def
          getSignerMissing_def fin_extra_def fin_parent_def sample_header_def empty_extra_def)
    moreover have "empty_extra\<lparr>ConfirmedBlockNumber := ConfirmedBlockNumber fin_extra, SignerQueue := SignerQueue fin_extra,
        Ext_LoopStartTime := Ext_LoopStartTime fin_extra, SignerMissing := []\<rparr> = fin_extra"
      by (simp add: fin_extra_def empty_extra_def)
    moreover have "Uint64 (Hdr_Number ?h1) = 2" by (simp add: fin_header_def Uint64_def)
    ultimately show ?thesis by (simp add: startExtra_def fin_decode Let_def)
  qed
  obtain st where st: "accumulateRewards sample_config (\<lambda>_. 0) ?h1 fin_snapshot [] = Inr st"
    using fin_rewards[of ?h1] by (auto simp: fin_header_def)
  have main: "mainChainExtra fin_node fin_chain (\<lambda>_ _. Inr fin_snapshot) sample_config fin_snapshot fin_extra ?h1 (\<lambda>_. 0) [] [] =
      Inr (fin_extra, st)"
    using st
    by (simp add: mainChainExtra_def processCustomTx_def Let_def n loopExtra_def fin_header_def Uint64_def u64_mod_def
        sample_config_def fin_extra_def empty_extra_def rewardError_def fin_chain_def sample_chain_def)
  obtain body where body: "encodeHeaderExtra sample_config 2 fin_extra = Inr body" "length body < 1000"
    using fin_encoded by blast
  have hdr: "Uint64 2 = 2" "ParentHash fin_header = 1" "Hdr_Number fin_header = 2"
    by (simp_all add: fin_header_def Uint64_def)
  have ch: "GetHeader fin_chain 1 1 = Some fin_parent" "\<not> SideChain (Chain_Alien fin_chain)"
    by (simp_all add: fin_chain_def sample_chain_def sample_config_def)
  have hs: "Hash fin_snapshot = 1" by (simp add: fin_snapshot_def)
  show ?thesis
    using start main body snap
    by (simp add: Finalize_def Let_def hdr ch cfg bind_sm_def get_sm_def lift_sm_def finalizeMain_def hs length_vanity
        extraVanity_def extraSeal_def)
qed


end
