(* ===== verification/Alien_Api.thy ===== *)
theory Alien_Api
  imports Alien_Verify
begin

text \<open>
  The interface a side chain uses on its main chain: the methods of \<open>consensus/alien/api.go\<close>.
  \<open>GetSnapshotByHeaderTime\<close> looks for the block of a time by interpolation; its loop has a fuel argument,
  and the theorems say when it ends.
\<close>

subsection \<open>Operations\<close>

text \<open>No number, or \<open>rpc.LatestBlockNumber\<close>, means the current block.\<close>

definition GetSnapshot :: "nat \<Rightarrow> node \<Rightarrow> chain_reader \<Rightarrow> int option \<Rightarrow> snapshot eng" where
  "GetSnapshot d nd chain number =
     (case (if number = None \<or> number = Some (-1) then CurrentHeader chain
            else GetHeaderByNumber chain (word_of_int (the number))) of
        None \<Rightarrow> fail_sm errUnknownBlock
      | Some hdr \<Rightarrow> snapshot_of d nd chain (Uint64 (Hdr_Number hdr)) (header_hash (Env nd) hdr) [] []
                     defaultLoopCntRecalculateSigners)"

definition GetSnapshotAtHash :: "nat \<Rightarrow> node \<Rightarrow> chain_reader \<Rightarrow> hash \<Rightarrow> snapshot eng" where
  "GetSnapshotAtHash d nd chain h =
     (case GetHeaderByHash chain h of
        None \<Rightarrow> fail_sm errUnknownBlock
      | Some hdr \<Rightarrow> snapshot_of d nd chain (Uint64 (Hdr_Number hdr)) (header_hash (Env nd) hdr) [] []
                     defaultLoopCntRecalculateSigners)"

definition GetSnapshotAtNumber :: "nat \<Rightarrow> node \<Rightarrow> chain_reader \<Rightarrow> u64 \<Rightarrow> snapshot eng" where
  "GetSnapshotAtNumber d nd chain number =
     (case GetHeaderByNumber chain number of
        None \<Rightarrow> fail_sm errUnknownBlock
      | Some hdr \<Rightarrow> snapshot_of d nd chain (Uint64 (Hdr_Number hdr)) (header_hash (Env nd) hdr) [] []
                     defaultLoopCntRecalculateSigners)"

text \<open>\<open>(*big.Int).Div\<close>: the remainder is never negative.\<close>

definition big_Div :: "int \<Rightarrow> int \<Rightarrow> int" where
  "big_Div a b = (if b > 0 then a div b else - (a div - b))"

text \<open>When the interval is down to two blocks, the period becomes the time between them, once.\<close>

definition narrowPeriod :: "chain_reader \<Rightarrow> int \<Rightarrow> int \<Rightarrow> int \<Rightarrow> bool \<Rightarrow> (int \<times> bool) option" where
  "narrowPeriod chain minN maxN period isNext =
     (if maxN = minN \<or> maxN = minN + 1
      then (if \<not> isNext \<and> maxN = minN + 1
            then (case (GetHeaderByNumber chain (Uint64 maxN), GetHeaderByNumber chain (Uint64 minN)) of
                    (Some maxH, Some minH) \<Rightarrow> Some (Hdr_Time maxH - Hdr_Time minH, True)
                  | _ \<Rightarrow> None)
            else None)
      else Some (period, isNext))"

definition nextNumber :: "int \<Rightarrow> header \<Rightarrow> int \<Rightarrow> int \<Rightarrow> int \<Rightarrow> int" where
  "nextNumber target hdr minN maxN period =
     (let n = big_Div (target - Hdr_Time hdr) period + Hdr_Number hdr
      in if n \<ge> maxN \<or> n \<le> minN then (maxN + minN) div 2 else n)"

primrec timeSearch :: "nat \<Rightarrow> chain_reader \<Rightarrow> int \<Rightarrow> header \<Rightarrow> int \<Rightarrow> int \<Rightarrow> int \<Rightarrow> bool \<Rightarrow> header option res" where
  "timeSearch 0 chain target hdr minN maxN period isNext = Inl NotTerminating"
| "timeSearch (Suc k) chain target hdr minN maxN period isNext =
     (if target \<ge> Hdr_Time hdr \<and> target < Hdr_Time hdr + period then Inr (Some hdr)
      else (case narrowPeriod chain minN maxN period isNext of
              None \<Rightarrow> Inr None
            | Some (p, nx) \<Rightarrow>
                if p = 0 then Inl PanicDivide
                else (case GetHeaderByNumber chain (Uint64 (nextNumber target hdr minN maxN p)) of
                        None \<Rightarrow> Inr None
                      | Some h \<Rightarrow>
                          timeSearch k chain target h
                            (if Hdr_Time h \<ge> target then minN else if Hdr_Number h > minN then Hdr_Number h else minN)
                            (if Hdr_Time h \<ge> target \<and> Hdr_Number h < maxN then Hdr_Number h else maxN) p nx)))"

text \<open>The signers as a side chain sees them: replaced by the coinbases they have set for it.\<close>

definition replaceCoinbase :: "snapshot \<Rightarrow> hash \<Rightarrow> address \<Rightarrow> address" where
  "replaceCoinbase snap scHash signer =
     (case gget (SCCoinbase snap) signer of
        None \<Rightarrow> signer
      | Some m \<Rightarrow> (case gget m scHash of None \<Rightarrow> signer | Some a \<Rightarrow> a))"

definition mcView :: "snapshot \<Rightarrow> hash \<Rightarrow> mc_snapshot" where
  "mcView snap scHash =
     \<lparr>MS_LoopStartTime = LoopStartTime snap, MS_Period = Snap_Period snap,
      MS_Signers = map (replaceCoinbase snap scHash) (Signers snap), MS_Number = Number snap,
      MS_SCNoticeMap = (case gget (SCNoticeMap snap) scHash of None \<Rightarrow> [] | Some nt \<Rightarrow> [(scHash, nt)])\<rparr>"

text \<open>
  An error of \<open>snapshot\<close> comes with a nil snapshot, which is dereferenced all the same; a panic stays what
  it is.  The test for a missing current header comes after its first use.
\<close>

definition GetSnapshotByHeaderTime :: "nat \<Rightarrow> nat \<Rightarrow> node \<Rightarrow> chain_reader \<Rightarrow> u64 \<Rightarrow> hash \<Rightarrow> mc_snapshot eng" where
  "GetSnapshotByHeaderTime fuel d nd chain targetTime scHash =
     (case CurrentHeader chain of
        None \<Rightarrow> fail_sm PanicNil
      | Some hdr \<Rightarrow>
          let period = uint (Period (Chain_Alien chain)); target = uint targetTime in
          if target > Hdr_Time hdr + period then fail_sm errUnknownBlock
          else bind_sm (lift_sm (timeSearch fuel chain target hdr (uint (MaxSignerCount (Chain_Alien chain)))
                 (Hdr_Number hdr) period False)) (\<lambda>found.
               case found of
                 None \<Rightarrow> fail_sm errUnknownBlock
               | Some h \<Rightarrow>
                   bind_sm (map_error (\<lambda>err. if is_panic err then err else PanicNil) (snapshot_of d nd chain (Uint64 (Hdr_Number h))
                     (header_hash (Env nd) h) [] [] defaultLoopCntRecalculateSigners)) (\<lambda>snap.
                   return_sm (mcView snap scHash))))"

subsection \<open>The search\<close>

lemma uint_pos: "w \<noteq> 0 \<Longrightarrow> 0 < uint w" for w :: u64
  using uint_ge_0[of w] by (simp add: unsigned_eq_0_iff order.strict_iff_order)

definition numbered :: "chain_reader \<Rightarrow> bool" where
  "numbered chain \<longleftrightarrow> (\<forall>n h. 0 \<le> n \<longrightarrow> n < 2 ^ 64 \<longrightarrow> GetHeaderByNumber chain (Uint64 n) = Some h \<longrightarrow> Hdr_Number h = n)"

lemma nextNumber_between:
  assumes "minN + 2 \<le> maxN"
  shows "minN < nextNumber target hdr minN maxN p" "nextNumber target hdr minN maxN p < maxN"
  using assms by (auto simp: nextNumber_def Let_def)

lemma nextNumber_adjacent: "nextNumber target hdr minN (minN + 1) p = minN"
  by (auto simp: nextNumber_def Let_def)

lemma timeSearch_terminates:
  assumes "numbered chain" "0 \<le> minN" "minN \<le> maxN" "maxN < 2 ^ 64"
    "nat (maxN - minN) + (if isNext then 1 else 2) \<le> fuel"
  shows "timeSearch fuel chain target hdr minN maxN period isNext \<noteq> Inl NotTerminating"
  using assms(2-)
proof (induction fuel arbitrary: hdr minN maxN period isNext)
  case 0
  then show ?case by (simp split: if_splits)
next
  case (Suc k)
  have num: "Hdr_Number h = n" if "GetHeaderByNumber chain (Uint64 n) = Some h" "0 \<le> n" "n < 2 ^ 64" for n h
    using assms(1) that unfolding numbered_def by blast
  consider "minN + 2 \<le> maxN" | "maxN = minN + 1" "\<not> isNext" | "maxN = minN \<or> (maxN = minN + 1 \<and> isNext)"
    using Suc.prems(2) by linarith
  then show ?case
  proof cases
    case 1
    have nar: "narrowPeriod chain minN maxN period isNext = Some (period, isNext)" using 1 by (simp add: narrowPeriod_def)
    let ?n = "nextNumber target hdr minN maxN period"
    note b = nextNumber_between[OF 1, of target hdr period]
    have "Hdr_Number h = ?n" if "GetHeaderByNumber chain (Uint64 ?n) = Some h" for h
      by (rule num[OF that]) (use b Suc.prems in linarith)+
    then show ?thesis using b Suc.prems nar Suc.IH by (auto split: option.split)
  next
    case 2
    have "Hdr_Number h = minN" if "GetHeaderByNumber chain (Uint64 minN) = Some h" for h
      by (rule num[OF that]) (use Suc.prems 2 in linarith)+
    moreover obtain k' where "k = Suc k'" using Suc.prems(4) 2 by (cases k) auto
    ultimately show ?thesis
      using Suc.prems Suc.IH 2 nextNumber_adjacent[of target hdr minN]
      by (auto simp: narrowPeriod_def split: option.split)
  next
    case 3
    then have "narrowPeriod chain minN maxN period isNext = None" by (auto simp: narrowPeriod_def)
    then show ?thesis by simp
  qed
qed

text \<open>
  A chain without gaps up to block \<open>N\<close>, with block times at least a period apart.  \<open>Finalize\<close> makes
  such times; \<open>verifyHeader\<close> only asks that they do not decrease, so this is an assumption on the chain.
\<close>

definition timed :: "chain_reader \<Rightarrow> int \<Rightarrow> int \<Rightarrow> bool" where
  "timed chain p N \<longleftrightarrow>
     (\<forall>n. 0 \<le> n \<and> n \<le> N \<longrightarrow> (\<exists>h. GetHeaderByNumber chain (Uint64 n) = Some h \<and> Hdr_Number h = n)) \<and>
     (\<forall>n lo hi. 0 \<le> n \<and> n < N \<longrightarrow> GetHeaderByNumber chain (Uint64 n) = Some lo \<longrightarrow>
        GetHeaderByNumber chain (Uint64 (n + 1)) = Some hi \<longrightarrow> Hdr_Time lo + p \<le> Hdr_Time hi)"

text \<open>The last block at or before a time.\<close>

definition last_before :: "chain_reader \<Rightarrow> int \<Rightarrow> int \<Rightarrow> int \<Rightarrow> header \<Rightarrow> bool" where
  "last_before chain N target n h \<longleftrightarrow>
     0 \<le> n \<and> n \<le> N \<and> GetHeaderByNumber chain (Uint64 n) = Some h \<and> Hdr_Time h \<le> target \<and>
     (\<forall>hi. n < N \<longrightarrow> GetHeaderByNumber chain (Uint64 (n + 1)) = Some hi \<longrightarrow> target < Hdr_Time hi)"

lemma timed_block:
  assumes "timed chain p N" "0 \<le> n" "n \<le> N"
  obtains h where "GetHeaderByNumber chain (Uint64 n) = Some h" "Hdr_Number h = n"
  using assms unfolding timed_def by blast

lemma timed_gap:
  assumes "timed chain p N" "0 \<le> n" "n < N" "GetHeaderByNumber chain (Uint64 n) = Some lo"
    "GetHeaderByNumber chain (Uint64 (n + 1)) = Some hi"
  shows "Hdr_Time lo + p \<le> Hdr_Time hi"
  using assms unfolding timed_def by blast

lemma last_beforeI:
  assumes "timed chain p N" "0 \<le> n" "n \<le> N" "GetHeaderByNumber chain (Uint64 n) = Some h"
    "Hdr_Time h \<le> target" "target < Hdr_Time h + p"
  shows "last_before chain N target n h"
  unfolding last_before_def using assms timed_gap[OF assms(1,2)] by fastforce

lemma timeSearch_hit:
  "Hdr_Time hdr \<le> target \<Longrightarrow> target < Hdr_Time hdr + p \<Longrightarrow> 0 < fuel \<Longrightarrow>
   timeSearch fuel chain target hdr minN maxN p isNext = Inr (Some hdr)"
  by (cases fuel) simp_all

text \<open>Two blocks left: the time between them is the last period tried, and the earlier one is it.\<close>

lemma timeSearch_two:
  assumes "timed chain p N" "0 < p" "0 \<le> minN" "minN + 1 \<le> N" "2 \<le> fuel"
    "GetHeaderByNumber chain (Uint64 minN) = Some lo" "GetHeaderByNumber chain (Uint64 (minN + 1)) = Some hi"
    "Hdr_Time lo \<le> target" "target < Hdr_Time hi"
    "\<not> (Hdr_Time hdr \<le> target \<and> target < Hdr_Time hdr + p)"
  shows "timeSearch fuel chain target hdr minN (minN + 1) p False = Inr (Some lo) \<and> last_before chain N target minN lo"
proof -
  obtain k where k: "fuel = Suc k" "0 < k" using assms(5) by (cases fuel) auto
  have gap: "0 < Hdr_Time hi - Hdr_Time lo" using timed_gap[OF assms(1,3) _ assms(6,7)] assms(2,4) by linarith
  have "timeSearch k chain target lo a b (Hdr_Time hi - Hdr_Time lo) True = Inr (Some lo)" for a b
    using assms(8,9) k by (intro timeSearch_hit) simp_all
  then have "timeSearch fuel chain target hdr minN (minN + 1) p False = Inr (Some lo)"
    using assms(6,7,10) gap nextNumber_adjacent[of target hdr minN] by (auto simp: k narrowPeriod_def)
  then show ?thesis using assms by (auto simp: last_before_def)
qed

lemma timeSearch_finds:
  assumes "timed chain p N" "0 < p" "N < 2 ^ 64" "0 \<le> minN" "minN < maxN" "maxN \<le> N"
    "nat (maxN - minN) + 1 \<le> fuel" "GetHeaderByNumber chain (Uint64 minN) = Some lo" "Hdr_Time lo \<le> target"
    "GetHeaderByNumber chain (Uint64 maxN) = Some hi" "target < Hdr_Time hi"
    "0 \<le> k" "k \<le> N" "GetHeaderByNumber chain (Uint64 k) = Some hdr"
  shows "\<exists>n h. timeSearch fuel chain target hdr minN maxN p False = Inr (Some h) \<and> last_before chain N target n h"
  using assms(4-)
proof (induction fuel arbitrary: hdr k minN maxN lo hi)
  case 0
  then show ?case by simp
next
  case (Suc f)
  show ?case
  proof (cases "Hdr_Time hdr \<le> target \<and> target < Hdr_Time hdr + p")
    case True
    then show ?thesis using last_beforeI[OF assms(1)] Suc.prems by auto
  next
    case far: False
    show ?thesis
    proof (cases "maxN = minN + 1")
      case True
      then show ?thesis
        using timeSearch_two[OF assms(1,2), of minN "Suc f" lo hi target hdr] far Suc.prems by auto
    next
      case False
      let ?n = "nextNumber target hdr minN maxN p"
      have two: "minN + 2 \<le> maxN" using False Suc.prems(2) by linarith
      note b = nextNumber_between[OF two, of target hdr p]
      have nN: "0 \<le> ?n" "?n \<le> N" using b Suc.prems by linarith+
      obtain h where h: "GetHeaderByNumber chain (Uint64 ?n) = Some h" "Hdr_Number h = ?n"
        by (rule timed_block[OF assms(1) nN])
      have step: "timeSearch (Suc f) chain target hdr minN maxN p False =
          timeSearch f chain target h (if Hdr_Time h \<ge> target then minN else ?n)
            (if Hdr_Time h \<ge> target then ?n else maxN) p False"
        using far two h b assms(2) by (auto simp: narrowPeriod_def)
      consider "Hdr_Time h = target" | "Hdr_Time h > target" | "Hdr_Time h < target" by linarith
      then show ?thesis
      proof cases
        case 1
        then show ?thesis unfolding step
          using timeSearch_hit[of h target p f] last_beforeI[OF assms(1) nN h(1)] Suc.prems(4) two assms(2) by fastforce
      next
        case 2
        then show ?thesis unfolding step using Suc.IH[of minN ?n lo h ?n h] Suc.prems b nN h by simp
      next
        case 3
        then show ?thesis unfolding step using Suc.IH[of ?n maxN h hi ?n h] Suc.prems b nN h by simp
      qed
    qed
  qed
qed

lemma timeSearch_stuck:
  assumes "GetHeaderByNumber chain (Uint64 maxN) = Some hdr" "Hdr_Number hdr = maxN" "target < Hdr_Time hdr"
    "0 < period"
  shows "timeSearch fuel chain target hdr (maxN + 1) maxN period isNext = Inl NotTerminating"
proof (induction fuel)
  case 0
  show ?case by simp
next
  case (Suc k)
  have "nextNumber target hdr (maxN + 1) maxN period = maxN"
    using assms by (auto simp: nextNumber_def Let_def)
  then show ?case using assms Suc by (simp add: narrowPeriod_def)
qed

text \<open>
  C27. On a chain without gaps whose block times are at least a period apart, with at least \<open>MaxSignerCount\<close>
  blocks, \<open>GetSnapshotByHeaderTime\<close> ends for every time from block \<open>MaxSignerCount\<close> to the end of the current
  slot.  It answers with the snapshot of the last block at or before that time, as the side chain sees it.
\<close>

theorem header_time_search:
  assumes "timed chain (uint (Period (Chain_Alien chain))) (Hdr_Number hdr)" "Period (Chain_Alien chain) \<noteq> 0"
    "CurrentHeader chain = Some hdr" "GetHeaderByNumber chain (Uint64 (Hdr_Number hdr)) = Some hdr"
    "Hdr_Number hdr < 2 ^ 64" "uint (MaxSignerCount (Chain_Alien chain)) \<le> Hdr_Number hdr"
    "GetHeaderByNumber chain (MaxSignerCount (Chain_Alien chain)) = Some lo" "Hdr_Time lo \<le> uint t"
    "uint t < Hdr_Time hdr + uint (Period (Chain_Alien chain))"
    "nat (Hdr_Number hdr - uint (MaxSignerCount (Chain_Alien chain))) + 1 \<le> fuel"
  shows "\<exists>n h. last_before chain (Hdr_Number hdr) (uint t) n h \<and>
    GetSnapshotByHeaderTime fuel d nd chain t scHash =
      bind_sm (map_error (\<lambda>err. if is_panic err then err else PanicNil)
        (snapshot_of d nd chain (Uint64 (Hdr_Number h)) (header_hash (Env nd) h) [] []
          defaultLoopCntRecalculateSigners)) (\<lambda>snap. return_sm (mcView snap scHash))"
proof -
  let ?p = "uint (Period (Chain_Alien chain))" and ?m = "uint (MaxSignerCount (Chain_Alien chain))"
  have p: "0 < ?p" using assms(2) by (rule uint_pos)
  have m: "GetHeaderByNumber chain (Uint64 ?m) = Some lo" using assms(7) by (simp add: Uint64_def)
  have "\<exists>n h. timeSearch fuel chain (uint t) hdr ?m (Hdr_Number hdr) ?p False = Inr (Some h) \<and>
      last_before chain (Hdr_Number hdr) (uint t) n h"
  proof (cases "uint t < Hdr_Time hdr")
    case True
    have "?m \<noteq> Hdr_Number hdr" using True m assms(4,8) by (metis not_less option.inject)
    then have "?m < Hdr_Number hdr" using assms(6) by linarith
    from timeSearch_finds[OF assms(1) p assms(5) _ this order.refl assms(10) m assms(8,4) True _ order.refl assms(4)]
    show ?thesis using assms(6) uint_ge_0[of "MaxSignerCount (Chain_Alien chain)"] by simp
  next
    case False
    have "0 \<le> Hdr_Number hdr" using assms(6) uint_ge_0[of "MaxSignerCount (Chain_Alien chain)"] by linarith
    from last_beforeI[OF assms(1) this order.refl assms(4) _ assms(9)] False
    have "last_before chain (Hdr_Number hdr) (uint t) (Hdr_Number hdr) hdr" by simp
    moreover have "timeSearch fuel chain (uint t) hdr ?m (Hdr_Number hdr) ?p False = Inr (Some hdr)"
      using False assms(9,10) by (intro timeSearch_hit) simp_all
    ultimately show ?thesis by blast
  qed
  then obtain n h where found: "timeSearch fuel chain (uint t) hdr ?m (Hdr_Number hdr) ?p False = Inr (Some h)"
    and lst: "last_before chain (Hdr_Number hdr) (uint t) n h" by blast
  have "GetSnapshotByHeaderTime fuel d nd chain t scHash =
      bind_sm (map_error (\<lambda>err. if is_panic err then err else PanicNil)
        (snapshot_of d nd chain (Uint64 (Hdr_Number h)) (header_hash (Env nd) h) [] []
          defaultLoopCntRecalculateSigners)) (\<lambda>snap. return_sm (mcView snap scHash))"
    using assms(3,9) found
    by (simp add: GetSnapshotByHeaderTime_def Let_def bind_sm_def[of "lift_sm _"] lift_sm_def fun_eq_iff)
  with lst show ?thesis by blast
qed

text \<open>
  C28. When the chain is one block short of \<open>MaxSignerCount\<close> and a time before the current block is asked for,
  the interval of the search is empty, the middle of it is always the current block, and the loop never ends.
\<close>

theorem header_time_search_loops:
  assumes "CurrentHeader chain = Some hdr" "GetHeaderByNumber chain (Uint64 (Hdr_Number hdr)) = Some hdr"
    "uint (MaxSignerCount (Chain_Alien chain)) = Hdr_Number hdr + 1"
    "uint t < Hdr_Time hdr" "Period (Chain_Alien chain) \<noteq> 0"
  shows "GetSnapshotByHeaderTime fuel d nd chain t scHash e = (Inl NotTerminating, e)"
proof -
  have p: "0 < uint (Period (Chain_Alien chain))" using assms(5) by (rule uint_pos)
  have "timeSearch fuel chain (uint t) hdr (Hdr_Number hdr + 1) (Hdr_Number hdr)
      (uint (Period (Chain_Alien chain))) False = Inl NotTerminating"
    by (rule timeSearch_stuck[OF assms(2) refl assms(4) p])
  then show ?thesis
    using assms(1,3,4) p by (simp add: GetSnapshotByHeaderTime_def Let_def bind_sm_def lift_sm_def)
qed

subsection \<open>Side chain and main chain\<close>

lemma mcSnapshot_index:
  fixes q :: u64
  assumes "uint q < 2 ^ 63"
  shows "go_rem (go_int q) (int n) = int (unat q mod n)"
proof -
  have "go_int q = int (unat q)" using sint_eq_uint_small[OF assms] by (simp add: go_int_def)
  moreover have "go_rem (int k) (int n) = int (k mod n)" for k
    by (cases k) (simp_all add: go_rem_def zmod_int)
  ultimately show ?thesis by (simp only:)
qed

text \<open>
  C23. A side chain that asks its main chain for the snapshot of a time lets exactly one coinbase sign: the one
  set for this side chain by the signer who is in turn on the main chain at that time, or that signer's own
  address if none is set.
\<close>

theorem side_chain_follows_main:
  assumes "SideChain (Chain_Alien chain)" "GetHeaderByNumber chain 0 = Some genesis"
    "MCRPCClient chain = Some client"
    "alien_getSnapshotByHeaderTime client t (ParentHash genesis) = Inr (Some (mcView snap (ParentHash genesis)))"
    "Snap_Period snap = Period (config snap)" "Period (config snap) \<noteq> 0" "Signers snap \<noteq> []"
    "length (Signers snap) < 2 ^ 64" "uint ((t - LoopStartTime snap) div Period (config snap)) < 2 ^ 63"
  shows "(\<exists>r. mcSnapshot chain signer t = Inr r) \<longleftrightarrow>
    (\<exists>a. inturn snap a t = Inr True \<and> signer = replaceCoinbase snap (ParentHash genesis) a)"
proof -
  let ?n = "length (Signers snap)" and ?i = "slot_of snap t mod length (Signers snap)"
  have i: "?i < ?n" using assms(7) by simp
  have idx: "go_rem (go_int ((t - LoopStartTime snap) div Period (config snap))) (int ?n) = int ?i"
    using mcSnapshot_index[OF assms(9), of ?n] by (simp add: slot_of_def unat_div)
  have nth: "go_nth (map (replaceCoinbase snap (ParentHash genesis)) (Signers snap)) (int ?i)
      = Inr (replaceCoinbase snap (ParentHash genesis) (Signers snap ! ?i))"
    using i by (subst go_nth_in_range) simp_all
  have "(\<exists>r. mcSnapshot chain signer t = Inr r) \<longleftrightarrow>
      replaceCoinbase snap (ParentHash genesis) (Signers snap ! ?i) = signer"
    using assms(1-7) idx nth i
    by (simp add: mcSnapshot_def getMainChainSnapshotByTime_def mcView_def Let_def not_le)
  then show ?thesis using inturn_eq[OF assms(6-8)] by auto
qed

subsection \<open>At concrete inputs\<close>

text \<open>Blocks three seconds apart, except for one missed slot before block 6.\<close>

definition sample_block :: "int \<Rightarrow> header" where
  "sample_block n = sample_header\<lparr>Hdr_Number := n, Hdr_Time := 1000 + 3 * n + (if n \<ge> 6 then 3 else 0)\<rparr>"

definition long_chain :: "int \<Rightarrow> chain_reader" where
  "long_chain N = sample_chain\<lparr>GetHeaderByNumber := (\<lambda>n. if uint n \<le> N then Some (sample_block (uint n)) else None),
     CurrentHeader := Some (sample_block N)\<rparr>"

lemma long_chain_timed: "N < 2 ^ 64 \<Longrightarrow> timed (long_chain N) 3 N"
  by (auto simp: timed_def long_chain_def sample_chain_def sample_block_def uint_Uint64 split: if_splits)

theorem header_time_search_witness:
  "\<exists>n h. last_before (long_chain 8) 8 1016 n h \<and>
     GetSnapshotByHeaderTime 6 2 sample_node (long_chain 8) 1016 0 =
       bind_sm (map_error (\<lambda>err. if is_panic err then err else PanicNil)
         (snapshot_of 2 sample_node (long_chain 8) (Uint64 (Hdr_Number h)) (header_hash (Env sample_node) h) [] []
           defaultLoopCntRecalculateSigners)) (\<lambda>snap. return_sm (mcView snap 0))"
  using header_time_search[of "long_chain 8" "sample_block 8" "sample_block 3" 1016 6 2 sample_node 0]
    long_chain_timed[of 8]
  by (simp add: long_chain_def sample_chain_def sample_block_def sample_config_def uint_Uint64)

theorem header_time_search_loops_witness:
  "GetSnapshotByHeaderTime 100 2 sample_node (long_chain 2) 1004 0 sample_engine = (Inl NotTerminating, sample_engine)"
  by (rule header_time_search_loops[where hdr = "sample_block 2"])
    (simp_all add: long_chain_def sample_chain_def sample_block_def sample_config_def uint_Uint64)

text \<open>A main chain on which the second of three signers has set a coinbase for the side chain.\<close>

definition main_snapshot :: snapshot where
  "main_snapshot = sample_snapshot\<lparr>Signers := [1, 2, 3], SCCoinbase := [(2, [(0, 22)])]\<rparr>"

definition side_chain :: chain_reader where
  "side_chain = sample_chain\<lparr>Chain_Alien := sample_config\<lparr>SideChain := True\<rparr>,
     MCRPCClient := Some \<lparr>alien_getSnapshotByHeaderTime = (\<lambda>_ h. Inr (Some (mcView main_snapshot h))),
       eth_sendRawTransaction = (\<lambda>_. Inr 0), eth_getTransactionCount = (\<lambda>_. Inr 0), net_version = Inr 0\<rparr>\<rparr>"

theorem side_chain_follows_main_witness:
  "(\<exists>r. mcSnapshot side_chain 22 1003 = Inr r) \<longleftrightarrow>
     (\<exists>a. inturn main_snapshot a 1003 = Inr True \<and> 22 = replaceCoinbase main_snapshot 0 a)"
  using side_chain_follows_main[of side_chain sample_block0 _ 1003 main_snapshot 22]
  by (simp add: side_chain_def sample_chain_def sample_block0_def sample_header_def main_snapshot_def sample_defs)

end
