(* ===== verification/Trie_Keys.thy ===== *)
theory Trie_Keys
  imports Common_Types
begin

text \<open>
  The three encodings of trie keys (\<open>trie/encoding.go\<close>): bytes, one byte per nibble with an optional
  terminator 16, and the compact form stored on disk.  Each conversion is the inverse of the one back.
\<close>

unbundle bit_operations_syntax

subsection \<open>Operations\<close>

definition hasTerm :: "byte list \<Rightarrow> bool" where
  "hasTerm s = (length s > 0 \<and> s ! (length s - 1) = 16)"

text \<open>The target always has room for half the nibbles, so it is the result here.\<close>

fun decodeNibbles :: "byte list \<Rightarrow> byte list res" where
  "decodeNibbles [] = Inr []"
| "decodeNibbles [x] = Inl PanicIndex"
| "decodeNibbles (x # y # nibbles) = bind_res (decodeNibbles nibbles) (\<lambda>bs. Inr ((push_bit 4 x OR y) # bs))"

definition keybytesToHex :: "byte list \<Rightarrow> byte list" where
  "keybytesToHex str = concat (map (\<lambda>b. [b div 16, b mod 16]) str) @ [16]"

definition hexToKeybytes :: "byte list \<Rightarrow> byte list res" where
  "hexToKeybytes hex =
     (let h = (if hasTerm hex then butlast hex else hex)
      in if odd (length h) then Inl PanicOther else decodeNibbles h)"

definition hexToCompact :: "byte list \<Rightarrow> byte list res" where
  "hexToCompact hex =
     (let terminator = (if hasTerm hex then 1 else 0) :: byte;
          h = (if hasTerm hex then butlast hex else hex);
          flag = push_bit 5 terminator
      in if odd (length h)
         then bind_res (decodeNibbles (drop 1 h)) (\<lambda>bs. Inr ((flag OR push_bit 4 1 OR h ! 0) # bs))
         else bind_res (decodeNibbles h) (\<lambda>bs. Inr (flag # bs)))"

definition compactToHex :: "byte list \<Rightarrow> byte list res" where
  "compactToHex compact =
     (let base = butlast (keybytesToHex compact)
      in if base = [] then Inl PanicIndex
         else let base' = (if base ! 0 \<ge> 2 then base @ [16] else base);
                  chop = 2 - (base ! 0 AND 1)
              in Inr (drop (unat chop) base'))"

fun prefixLen :: "byte list \<Rightarrow> byte list \<Rightarrow> nat" where
  "prefixLen (x # a) (y # b) = (if x \<noteq> y then 0 else Suc (prefixLen a b))"
| "prefixLen a b = 0"

subsection \<open>Nibbles\<close>

definition nibbles :: "byte list \<Rightarrow> bool" where
  "nibbles ns \<longleftrightarrow> (\<forall>x \<in> set ns. x < 16)"

text \<open>The path of a value in a trie: nibbles and the terminator.\<close>

definition hexkey :: "byte list \<Rightarrow> bool" where
  "hexkey k \<longleftrightarrow> (\<exists>ns. nibbles ns \<and> k = ns @ [16])"

lemma nibbles_simps [simp]:
  "nibbles []"
  "nibbles (x # ns) \<longleftrightarrow> x < 16 \<and> nibbles ns"
  "nibbles (ns @ ms) \<longleftrightarrow> nibbles ns \<and> nibbles ms"
  by (auto simp: nibbles_def)

lemma join_nibbles:
  assumes "x < (16 :: byte)" "y < 16"
  shows "unat (push_bit 4 x OR y) = unat x * 16 + unat y"
proof -
  have x: "unat x < 16" and y: "unat y < 16" using assms by (simp_all add: word_less_nat_alt)
  have "take_bit 4 (unat y) = unat y" using y by (simp add: take_bit_nat_eq_self)
  then have "bit (unat y) n \<Longrightarrow> n < 4" for n by (metis bit_take_bit_iff)
  then have "push_bit 4 (unat x) + unat y = push_bit 4 (unat x) OR unat y"
    by (intro disjunctive_add) (meson bit_push_bit_iff not_le)
  moreover have "unat (push_bit 4 x) = push_bit 4 (unat x)"
    using x by (simp add: push_bit_eq_mult unat_word_ariths)
  ultimately show ?thesis by (simp add: unsigned_or_eq push_bit_eq_mult)
qed

lemma split_joined:
  assumes "x < (16 :: byte)" "y < 16"
  shows "(push_bit 4 x OR y) div 16 = x" "(push_bit 4 x OR y) mod 16 = y"
  using join_nibbles[OF assms] assms by (simp_all add: word_unat_eq_iff unat_div unat_mod word_less_nat_alt)

lemma byte_nibbles: "(b :: byte) div 16 < 16" "b mod 16 < 16"
  using unat_byte_less[of b] by (simp_all add: word_less_nat_alt unat_div unat_mod)

lemma join_split: "push_bit 4 (b div 16) OR (b mod 16) = (b :: byte)"
  using join_nibbles[OF byte_nibbles, of b b] by (simp add: word_unat_eq_iff unat_div unat_mod)

definition split_bytes :: "byte list \<Rightarrow> byte list" where
  "split_bytes bs = concat (map (\<lambda>b. [b div 16, b mod 16]) bs)"

lemma split_bytes_simps [simp]:
  "split_bytes [] = []"
  "split_bytes (b # bs) = b div 16 # b mod 16 # split_bytes bs"
  by (simp_all add: split_bytes_def)

lemma split_bytes_nibbles: "nibbles (split_bytes bs)" "even (length (split_bytes bs))"
  by (induction bs) (simp_all add: byte_nibbles)

lemma decodeNibbles_split: "decodeNibbles (split_bytes bs) = Inr bs"
  by (induction bs) (simp_all add: join_split)

lemma split_decodeNibbles:
  "nibbles ns \<Longrightarrow> even (length ns) \<Longrightarrow> \<exists>bs. decodeNibbles ns = Inr bs \<and> split_bytes bs = ns"
  by (induction ns rule: decodeNibbles.induct) (auto simp: split_joined)

lemma keybytesToHex_eq: "keybytesToHex bs = split_bytes bs @ [16]"
  by (simp add: keybytesToHex_def split_bytes_def)

lemma hasTerm_snoc [simp]: "hasTerm (ns @ [16])"
  by (simp add: hasTerm_def)

lemma hasTerm_nibbles [simp]: "nibbles ns \<Longrightarrow> \<not> hasTerm ns"
  by (cases ns rule: rev_cases) (auto simp: hasTerm_def)

lemma keybytesToHex_hexkey: "hexkey (keybytesToHex bs)"
  by (auto simp: hexkey_def keybytesToHex_eq split_bytes_nibbles)

subsection \<open>Round trips\<close>

text \<open>A path in a trie: nibbles, perhaps with the terminator.\<close>

definition path_with :: "byte list \<Rightarrow> bool \<Rightarrow> byte list" where
  "path_with ns term = ns @ (if term then [16] else [])"

lemma hexToCompact_path:
  assumes "nibbles ns"
  shows "hexToCompact (path_with ns term) =
    (let flag = (if term then 32 else 0) in
     if odd (length ns) then bind_res (decodeNibbles (tl ns)) (\<lambda>bs. Inr ((flag OR 16 OR hd ns) # bs))
     else bind_res (decodeNibbles ns) (\<lambda>bs. Inr (flag # bs)))"
proof -
  have "odd (length ns) \<Longrightarrow> hd ns = ns ! 0" by (cases ns) auto
  then show ?thesis using assms by (cases "term") (simp_all add: hexToCompact_def path_with_def Let_def drop_Suc push_bit_eq_mult)
qed

lemma compactToHex_Cons:
  "compactToHex (b # bs) =
    Inr (drop (if even (unat b div 16) then 2 else 1)
      (path_with (b div 16 # b mod 16 # split_bytes bs) (32 \<le> unat b)))"
proof -
  have "bit (unat (b div 16)) 0 \<longleftrightarrow> bit (b div 16) 0" by (simp only: bit_unsigned_iff) simp
  then have "even (unat b div 16) \<longleftrightarrow> even (b div 16)" by (simp add: bit_0 unat_div)
  then have "unat (2 - (b div 16 AND 1)) = (if even (unat b div 16) then 2 else 1)"
    by (auto simp: and_one_eq mod_2_eq_odd)
  moreover have "2 \<le> unat b div 16 \<longleftrightarrow> 32 \<le> unat b" by linarith
  ultimately show ?thesis
    by (simp add: compactToHex_def keybytesToHex_eq Let_def path_with_def word_le_nat_alt unat_div)
qed

lemma flag_or: "(32 OR 16 OR x :: byte) = 48 OR x"
  by (simp add: or.assoc[symmetric])

lemma flag_nibble:
  assumes "x < (16 :: byte)"
  shows "unat (16 OR x) = 16 + unat x" "unat (48 OR x) = 48 + unat x"
  using join_nibbles[of 1 x] join_nibbles[of 3 x] assms by (simp_all add: push_bit_eq_mult)

text \<open>Compact keys: flag 0 to 3, and no stray nibble for an even number of nibbles.\<close>

definition compact_ok :: "byte list \<Rightarrow> bool" where
  "compact_ok c = (case c of [] \<Rightarrow> False | b # _ \<Rightarrow> unat b < 64 \<and> (even (unat b div 16) \<longrightarrow> unat b mod 16 = 0))"

lemma compact_of_path:
  assumes "nibbles ns"
  obtains c where "hexToCompact (path_with ns term) = Inr c" "compact_ok c" "compactToHex c = Inr (path_with ns term)"
proof (cases "odd (length ns)")
  case True
  then obtain x ms where ns: "ns = x # ms" "even (length ms)" "x < 16" "nibbles ms" using assms by (cases ns) auto
  obtain bs where bs: "decodeNibbles ms = Inr bs" "split_bytes bs = ms"
    using split_decodeNibbles[OF ns(4,2)] by blast
  let ?b = "(if term then 32 else 0) OR 16 OR x"
  have b: "unat ?b = (if term then 48 else 16) + unat x" using flag_nibble[OF ns(3)] by (simp add: flag_or)
  have x: "unat x < 16" using ns(3) by (simp add: word_less_nat_alt)
  have a: "(48 + unat x) mod 16 = unat x" "(48 + unat x) div 16 = 3" "(16 + unat x) div 16 = 1" using x by presburger+
  have "?b mod 16 = x" using b x a(1) by (simp add: word_unat_eq_iff unat_mod)
  then show ?thesis
    using that[of "?b # bs"] b x a bs ns hexToCompact_path[OF assms, of "term"]
    by (simp add: compactToHex_Cons path_with_def compact_ok_def)
next
  case False
  then obtain bs where bs: "decodeNibbles ns = Inr bs" "split_bytes bs = ns"
    using split_decodeNibbles[of ns] assms by auto
  then show ?thesis
    using that[of "(if term then 32 else 0) # bs"] False hexToCompact_path[OF assms, of "term"]
    by (simp add: compactToHex_Cons path_with_def compact_ok_def)
qed

lemma path_of_compact:
  assumes "compact_ok c"
  obtains ns t where "nibbles ns" "compactToHex c = Inr (path_with ns t)" "hexToCompact (path_with ns t) = Inr c"
proof -
  obtain b bs where c: "c = b # bs" "unat b < 64" "even (unat b div 16) \<longrightarrow> unat b mod 16 = 0"
    using assms by (auto simp: compact_ok_def split: list.splits)
  let ?ns = "if even (unat b div 16) then split_bytes bs else b mod 16 # split_bytes bs" and ?t = "32 \<le> unat b"
  have n: "nibbles ?ns" by (simp add: split_bytes_nibbles byte_nibbles)
  have h: "compactToHex c = Inr (path_with ?ns ?t)" by (simp add: c(1) compactToHex_Cons path_with_def)
  have "unat b div 16 < 4" using c(2) by simp
  then have "unat b div 16 \<in> {0, 1, 2, 3}" by auto
  then have "(if even (unat b div 16) then (if ?t then 32 else 0) else (if ?t then 32 else 0) OR 16 OR b mod 16) = b"
    using c(3) flag_nibble[OF byte_nibbles(2)[of b]]
    by (auto simp: word_unat_eq_iff flag_or unat_mod split: if_splits) presburger+
  then have "hexToCompact (path_with ?ns ?t) = Inr c"
    using hexToCompact_path[OF n, of ?t] split_bytes_nibbles[of bs] by (auto simp: c(1) decodeNibbles_split split: if_splits)
  then show ?thesis using that n h by blast
qed

lemma hexToKeybytes_keybytesToHex: "hexToKeybytes (keybytesToHex bs) = Inr bs"
  by (simp add: hexToKeybytes_def keybytesToHex_eq split_bytes_nibbles decodeNibbles_split)

text \<open>
  C40.  The key encodings of the trie lose nothing: bytes survive the way to nibbles and back, every path
  of nibbles, with or without terminator, survives the compact form, and every compact key with a valid
  flag is the compact form of the path it stands for.
\<close>

theorem trie_key_codecs:
  assumes "nibbles ns" "compact_ok c"
  shows "hexToKeybytes (keybytesToHex bs) = Inr bs \<and>
    (\<exists>d. hexToCompact (path_with ns t) = Inr d \<and> compactToHex d = Inr (path_with ns t)) \<and>
    (\<exists>p. compactToHex c = Inr p \<and> hexToCompact p = Inr c)"
  using hexToKeybytes_keybytesToHex compact_of_path[OF assms(1)] path_of_compact[OF assms(2)] by metis

theorem trie_key_codecs_witness:
  "hexToKeybytes (keybytesToHex [0xAB, 7]) = Inr [0xAB, 7] \<and>
   (\<exists>d. hexToCompact (path_with [1, 2, 3] True) = Inr d \<and> compactToHex d = Inr (path_with [1, 2, 3] True)) \<and>
   (\<exists>p. compactToHex [0x31, 0x23] = Inr p \<and> hexToCompact p = Inr [0x31, 0x23])"
  by (rule trie_key_codecs) (simp_all add: compact_ok_def)

subsection \<open>Common prefixes\<close>

lemma prefixLen_le: "prefixLen a b \<le> length a" "prefixLen a b \<le> length b"
  by (induction a b rule: prefixLen.induct) simp_all

lemma prefixLen_take: "take (prefixLen a b) a = take (prefixLen a b) b"
  by (induction a b rule: prefixLen.induct) simp_all

lemma prefixLen_differ:
  "prefixLen a b < length a \<Longrightarrow> prefixLen a b < length b \<Longrightarrow> a ! prefixLen a b \<noteq> b ! prefixLen a b"
  by (induction a b rule: prefixLen.induct) auto

lemma prefixLen_append [simp]: "prefixLen (k @ a) k = length k"
  by (induction k) simp_all

end
