(* ===== verification/Rlp_Raw.thy ===== *)
theory Rlp_Raw
  imports Rlp_Decode
begin

text \<open>
  Splitting encoded values without decoding them (\<open>rlp/raw.go\<close>).  The theory shows what \<open>Split\<close>
  accepts: exactly one byte below \<open>0x80\<close>, or a canonical header followed by as many bytes as it says;
  and that \<open>CountValues\<close> ends and counts the values.
\<close>

subsection \<open>Operations\<close>

definition ListSize :: "u64 \<Rightarrow> u64" where
  "ListSize contentSize = of_nat (headsize contentSize) + contentSize"

text \<open>The \<open>switch\<close> on \<open>slen\<close> spells the big-endian value of the first \<open>slen\<close> bytes.\<close>

definition readSize :: "byte list \<Rightarrow> nat \<Rightarrow> rlperr + u64" where
  "readSize b slen =
     (if slen > length b then Inl ErrUnexpectedEOF
      else (let s = of_nat (be_nat (take slen b)) :: u64
            in if s < 56 \<or> b ! 0 = 0 then Inl ErrCanonSize else Inr s))"

definition readKind_raw :: "byte list \<Rightarrow> rlperr + (rkind \<times> u64 \<times> u64)" where
  "readKind_raw buf =
     (case buf of [] \<Rightarrow> Inl ErrUnexpectedEOF
      | b # rest \<Rightarrow>
        bind_res
          (if b < 0x80 then Inr (KByte, 0, 1)
           else if b < 0xB8 then
             (if (ucast (b - 0x80) :: u64) = 1 \<and> rest \<noteq> [] \<and> hd rest < 128 then Inl ErrCanonSize
              else Inr (KString, 1, ucast (b - 0x80)))
           else if b < 0xC0 then
             bind_res (readSize rest (unat (b - 0xB7))) (\<lambda>cs. Inr (KString, ucast (b - 0xB7) + 1, cs))
           else if b < 0xF8 then Inr (KList, 1, ucast (b - 0xC0))
           else bind_res (readSize rest (unat (b - 0xF7))) (\<lambda>cs. Inr (KList, ucast (b - 0xF7) + 1, cs)))
          (\<lambda>(k, tagsize, contentsize).
             if contentsize > of_nat (length buf) - tagsize then Inl ErrValueTooLarge
             else Inr (k, tagsize, contentsize)))"

definition Split :: "byte list \<Rightarrow> rlperr + (rkind \<times> byte list \<times> byte list)" where
  "Split b = bind_res (readKind_raw b)
     (\<lambda>(k, ts, cs). Inr (k, take (unat cs) (drop (unat ts) b), drop (unat (ts + cs)) b))"

definition SplitString :: "byte list \<Rightarrow> rlperr + (byte list \<times> byte list)" where
  "SplitString b = bind_res (Split b)
     (\<lambda>(k, content, rest). if k = KList then Inl ErrExpectedString else Inr (content, rest))"

definition SplitList :: "byte list \<Rightarrow> rlperr + (byte list \<times> byte list)" where
  "SplitList b = bind_res (Split b)
     (\<lambda>(k, content, rest). if k \<noteq> KList then Inl ErrExpectedList else Inr (content, rest))"

text \<open>Every value has at least one byte, so the loop of \<open>CountValues\<close> ends.  The sum of tag and content
  size is at most the length of the slice and does not overflow.\<close>

lemma readKind_raw_progress:
  assumes "readKind_raw b = Inr (k, ts, cs)"
  shows "0 < unat ts + unat cs"
proof -
  obtain x rest where b: "b = x # rest" using assms by (cases b) (auto simp: readKind_raw_def)
  have "(ucast (y :: byte) :: u64) + 1 \<noteq> 0" for y
  proof -
    have "unat ((ucast y :: u64) + 1) = unat y + 1"
      using unat_byte_less[of y] by (simp add: unat_word_ariths)
    then show ?thesis by (metis add_is_0 one_neq_zero unat_0)
  qed
  then have "ts \<noteq> 0 \<or> cs = 1"
    using assms b by (auto simp: readKind_raw_def res_simps split: if_splits)
  then show ?thesis by (auto simp: unat_gt_0)
qed

function CountValues :: "byte list \<Rightarrow> rlperr + nat" where
  "CountValues b =
     (if b = [] then Inr 0
      else (case readKind_raw b of
              Inl err \<Rightarrow> Inl err
            | Inr (k, tagsize, sz) \<Rightarrow>
                bind_res (CountValues (drop (unat tagsize + unat sz) b)) (\<lambda>i. Inr (i + 1))))"
  by auto

termination CountValues
proof (relation "measure length")
  fix b k ts cs p q
  assume a: "b \<noteq> []" "readKind_raw b = Inr p" "(k, q) = p" "(ts, cs) = q"
  then have "0 < unat ts + unat cs" using readKind_raw_progress[of b k ts cs] by simp
  then show "(drop (unat ts + unat cs) b, b) \<in> measure length" using a(1) by simp
qed simp

declare CountValues.simps [simp del]

subsection \<open>What a split is\<close>

text \<open>The encoded item that \<open>Split\<close> cuts off, given its kind and content.\<close>

definition item_bytes :: "rkind \<Rightarrow> byte list \<Rightarrow> byte list" where
  "item_bytes k c = (if k = KByte then c else headbytes k (of_nat (length c)) @ c)"

definition item_ok :: "rkind \<Rightarrow> byte list \<Rightarrow> bool" where
  "item_ok k c = (case k of KByte \<Rightarrow> length c = 1 \<and> c ! 0 < 0x80
     | KString \<Rightarrow> \<not> (length c = 1 \<and> c ! 0 < 0x80) | KList \<Rightarrow> True)"

text \<open>The header part: kind, tag and size.\<close>

lemma readSize_ok:
  assumes "readSize b n = Inr z" "1 \<le> n" "n \<le> 8"
  shows "take n b = putint z \<and> length (putint z) = n \<and> 56 \<le> z \<and> b = putint z @ drop n b"
proof -
  have l: "n \<le> length b" "b ! 0 \<noteq> 0" "56 \<le> z" "z = of_nat (be_nat (take n b))"
    using assms(1) by (auto simp: readSize_def Let_def not_less split: if_splits)
  have "unat z = be_nat (take n b)" using be_nat_u64[of "take n b"] l(4) assms(3) by simp
  then have "putint z = take n b" using putint_bytes[of "take n b" z] l(1,2) assms(2) by (cases b) auto
  then show ?thesis using l(1,3) by (metis append_take_drop_id length_take min.absorb2)
qed

lemma readSize_putint:
  assumes "56 \<le> z"
  shows "readSize (putint z @ r) (length (putint z)) = Inr z"
proof -
  have "z \<noteq> 0" using assms by auto
  then have "putint z \<noteq> [] \<and> putint z ! 0 \<noteq> 0"
    using putint_nat_bytes[of z] nat_bytes_hd[of "unat z"] by (simp add: unat_eq_0)
  then show ?thesis using assms intsize_le_8[of z] by (auto simp: readSize_def nth_append not_less)
qed

lemma u64_room:
  assumes "n + m < 2 ^ 64"
  shows "z > of_nat (n + m) - (of_nat n :: u64) \<longleftrightarrow> unat z > m"
proof -
  have "unat (of_nat m :: u64) = m" using assms by (intro unat_of_nat_u64) simp
  then show ?thesis by (simp add: word_less_nat_alt)
qed

lemma readKind_raw_head:
  assumes "k \<noteq> KByte" "unat z \<le> length r" "length (headbytes k z @ r) < 2 ^ 64"
    and "k = KString \<Longrightarrow> z = 1 \<Longrightarrow> \<not> hd r < 128"
  shows "readKind_raw (headbytes k z @ r) = Inr (k, of_nat (length (headbytes k z)), z)"
proof -
  obtain t l where tl: "headbytes k z = puthead t l z" "k = KString \<and> t = 0x80 \<and> l = 0xB7 \<or> k = KList \<and> t = 0xC0 \<and> l = 0xF7"
    using assms(1) by (cases k) auto
  have fit: "\<not> z > of_nat (length (headbytes k z @ r)) - (of_nat (length (headbytes k z)) :: u64)"
    using u64_room[of "length (headbytes k z)" "length r" z] assms(2,3) by simp
  show ?thesis
  proof (cases "z < 56")
    case True
    let ?b = "t + ucast z"
    have u: "unat (ucast z :: byte) = unat z" "unat z < 56"
      using True by (simp_all add: word_less_nat_alt unsigned_ucast_eq take_bit_eq_mod)
    have b: "unat ?b = unat t + unat z" using tl(2) u by (auto simp: unat_word_ariths)
    have bk: "ucast (?b - t) = z" using u by (simp add: word_unat_eq_iff)
    have h: "headbytes k z = [?b]" using True by (simp add: tl(1) puthead_def)
    have c: "\<not> (k = KString \<and> z = 1 \<and> r \<noteq> [] \<and> hd r < 128)" using assms(4) by blast
    have fit1: "\<not> z > of_nat (length (?b # r)) - (1 :: u64)" using fit unfolding h by simp
    from tl(2) show ?thesis
      unfolding h
    proof (elim disjE conjE)
      assume k: "k = KString" "t = 0x80"
      then have q: "\<not> ?b < 0x80" "?b < 0xB8" using b u by (simp_all only: word_less_nat_alt) simp_all
      have c1: "\<not> (z = 1 \<and> r \<noteq> [] \<and> hd r < 128)" using c k(1) by simp
      have "readKind_raw (?b # r) = Inr (KString, 1, z)"
        using q bk k(2) fit1 c1 by (simp add: readKind_raw_def)
      then show "readKind_raw ([?b] @ r) = Inr (k, of_nat (length [?b]), z)" using k(1) by simp
    next
      assume k: "k = KList" "t = 0xC0"
      then have q: "\<not> ?b < 0x80" "\<not> ?b < 0xB8" "\<not> ?b < 0xC0" "?b < 0xF8"
        using b u by (simp_all only: word_less_nat_alt) simp_all
      have "readKind_raw (?b # r) = Inr (KList, 1, z)" using q bk k(2) fit1 by (simp add: readKind_raw_def)
      then show "readKind_raw ([?b] @ r) = Inr (k, of_nat (length [?b]), z)" using k(1) by simp
    qed
  next
    case False
    let ?n = "length (putint z)" let ?b = "l + of_nat ?n"
    have n: "1 \<le> ?n" "?n \<le> 8" using intsize_le_8[of z] by auto
    have u: "unat (of_nat ?n :: byte) = ?n" using n by (intro unat_of_nat_byte) simp
    have b: "unat ?b = unat l + ?n" using tl(2) u n by (auto simp: unat_word_ariths)
    have u2: "unat (of_nat ?n :: u64) = ?n" using n by (intro unat_of_nat_u64) simp
    have bk: "unat (?b - l) = ?n" "ucast (?b - l) = (of_nat ?n :: u64)" using u u2 by (simp_all add: word_unat_eq_iff)
    have h: "headbytes k z = ?b # putint z" using False by (simp add: tl(1) puthead_def)
    have rs: "readSize (putint z @ r) ?n = Inr z" using readSize_putint False by (simp add: not_less)
    have fit1: "\<not> z > of_nat (length (?b # putint z @ r)) - (of_nat ?n + 1 :: u64)"
      using fit unfolding h by (simp add: add.commute)
    from tl(2) show ?thesis
      unfolding h
    proof (elim disjE conjE)
      assume k: "k = KString" "l = 0xB7"
      then have q: "\<not> ?b < 0x80" "\<not> ?b < 0xB8" "?b < 0xC0" using b n by (simp_all only: word_less_nat_alt) simp_all
      have "readKind_raw (?b # putint z @ r) = Inr (KString, of_nat ?n + 1, z)"
        using q bk[unfolded k(2)] k(2) rs fit1 by (simp add: readKind_raw_def del: length_putint)
      then show "readKind_raw ((?b # putint z) @ r) = Inr (k, of_nat (length (?b # putint z)), z)"
        using k(1) by (simp add: add.commute)
    next
      assume k: "k = KList" "l = 0xF7"
      then have q: "\<not> ?b < 0x80" "\<not> ?b < 0xB8" "\<not> ?b < 0xC0" "\<not> ?b < 0xF8"
        using b n by (simp_all only: word_less_nat_alt) simp_all
      have "readKind_raw (?b # putint z @ r) = Inr (KList, of_nat ?n + 1, z)"
        using q bk[unfolded k(2)] k(2) rs fit1 by (simp add: readKind_raw_def del: length_putint)
      then show "readKind_raw ((?b # putint z) @ r) = Inr (k, of_nat (length (?b # putint z)), z)"
        using k(1) by (simp add: add.commute)
    qed
  qed
qed

lemma readKind_raw_ok:
  assumes "readKind_raw buf = Inr (k, ts, cs)" "length buf < 2 ^ 64"
  shows "if k = KByte then ts = 0 \<and> cs = 1 \<and> (\<exists>x r. buf = x # r \<and> x < 0x80)
    else \<exists>r. buf = headbytes k cs @ r \<and> unat ts = length (headbytes k cs) \<and> unat cs \<le> length r
      \<and> (k = KString \<and> cs = 1 \<longrightarrow> \<not> hd r < 128)"
proof -
  obtain b rest where buf: "buf = b # rest" using assms(1) by (cases buf) (auto simp: readKind_raw_def)
  have fit: "\<not> cs > of_nat (length buf) - ts"
    using assms(1) buf by (auto simp: readKind_raw_def res_simps split: if_splits)
  have one: "unat cs \<le> length rest" if "ts = 1"
    using u64_room[of 1 "length rest" cs] fit that assms(2) buf by simp
  have long: "\<exists>r. buf = headbytes k cs @ r \<and> unat ts = length (headbytes k cs) \<and> unat cs \<le> length r \<and> cs \<noteq> 1"
    if r: "readSize rest (unat (b - l)) = Inr cs" and l: "l < b" "b \<le> l + 8" "unat l \<le> 247"
      and ts: "ts = ucast (b - l) + 1" and h: "headbytes k cs = puthead tg l cs" for l tg
  proof -
    have n: "1 \<le> unat (b - l)" "unat (b - l) \<le> 8" using long_head[OF l] by auto
    note rs = readSize_ok[OF r n]
    have hb: "headbytes k cs = b # putint cs" using long_head[OF l, of cs tg] rs h by auto
    let ?r = "drop (unat (b - l)) rest"
    have b1: "buf = headbytes k cs @ ?r" using rs hb buf by simp
    have ts1: "ts = of_nat (length (headbytes k cs))" using ts hb rs by (simp add: add.commute)
    have len: "length buf = length (headbytes k cs) + length ?r" using b1 by (metis length_append)
    have "unat cs \<le> length ?r"
      using u64_room[of "length (headbytes k cs)" "length ?r" cs] fit assms(2) len ts1 by simp
    moreover have "unat ts = length (headbytes k cs)"
      using ts1 len assms(2) unat_of_nat_u64[of "length (headbytes k cs)"] by simp
    moreover have "cs \<noteq> 1" using rs by (auto simp: word_le_nat_alt)
    ultimately show ?thesis using b1 by blast
  qed
  consider "b < 0x80" | "0x80 \<le> b" "b < 0xB8" | "0xB7 < b" "b \<le> 0xBF" | "0xC0 \<le> b" "b < 0xF8" | "0xF7 < b"
    by (auto simp: word_less_nat_alt word_le_nat_alt) linarith
  then show ?thesis
  proof cases
    case 1
    then show ?thesis using assms(1) buf by (auto simp: readKind_raw_def res_simps split: if_splits)
  next
    case 2
    then have "\<not> b < 0x80" by simp
    then have e: "k = KString" "ts = 1" "cs = ucast (b - 0x80)" "\<not> (cs = 1 \<and> rest \<noteq> [] \<and> hd rest < 128)"
      using assms(1) buf 2 by (auto simp: readKind_raw_def res_simps split: if_splits)
    have c: "unat cs \<le> length rest" using one[OF e(2)] .
    then have c1: "\<not> (cs = 1 \<and> hd rest < 128)" using e(4) by auto
    have "headbytes k cs = [b]" using short_head[of "0x80" b "0xB7"] 2 e by simp
    then show ?thesis using c c1 buf e(1,2) by (auto simp del: headbytes.simps intro!: exI[of _ rest])
  next
    case 3
    then have "\<not> b < 0x80" "\<not> b < 0xB8" "b < 0xC0" by (simp_all add: word_less_nat_alt word_le_nat_alt)
    then have e: "k = KString" "ts = ucast (b - 0xB7) + 1" "readSize rest (unat (b - 0xB7)) = Inr cs"
      using assms(1) buf by (auto simp: readKind_raw_def res_simps split: if_splits)
    show ?thesis using long[OF e(3) _ _ _ e(2), of "0x80"] 3 e(1) by auto
  next
    case 4
    then have "\<not> b < 0x80" "\<not> b < 0xB8" "\<not> b < 0xC0" by (simp_all add: word_less_nat_alt word_le_nat_alt)
    then have e: "k = KList" "ts = 1" "cs = ucast (b - 0xC0)"
      using assms(1) buf 4 by (auto simp: readKind_raw_def res_simps split: if_splits)
    then show ?thesis using short_head[of "0xC0" b "0xF7"] 4 one buf by (auto intro!: exI[of _ rest])
  next
    case 5
    then have "\<not> b < 0x80" "\<not> b < 0xB8" "\<not> b < 0xC0" "\<not> b < 0xF8"
      by (simp_all add: word_less_nat_alt word_le_nat_alt)
    then have e: "k = KList" "ts = ucast (b - 0xF7) + 1" "readSize rest (unat (b - 0xF7)) = Inr cs"
      using assms(1) buf by (auto simp: readKind_raw_def res_simps split: if_splits)
    have "b \<le> 0xF7 + 8" using unat_byte_less[of b] by (simp add: word_le_nat_alt)
    then show ?thesis using long[OF e(3) _ _ _ e(2), of "0xC0"] 5 e(1) by auto
  qed
qed

lemma Split_item:
  assumes "item_ok k c" "length (item_bytes k c @ rest) < 2 ^ 64"
  shows "Split (item_bytes k c @ rest) = Inr (k, c, rest)"
proof (cases "k = KByte")
  case True
  then obtain x where x: "c = [x]" "x < 0x80" using assms(1) by (cases c) (auto simp: item_ok_def)
  have "\<not> (1 :: u64) > of_nat (length (x # rest)) - 0"
    using u64_room[of 0 "length (x # rest)" 1] assms(2) x(1) True by (simp add: item_bytes_def)
  then show ?thesis using True x by (simp add: Split_def readKind_raw_def item_bytes_def)
next
  case False
  let ?z = "of_nat (length c) :: u64" let ?h = "headbytes k ?z"
  have i: "item_bytes k c @ rest = ?h @ c @ rest" using False by (simp add: item_bytes_def)
  have l: "length ?h + length c < 2 ^ 64" using assms(2) unfolding i by simp
  have z: "unat ?z = length c" using l by (intro unat_of_nat_u64) simp
  have h: "unat (of_nat (length ?h) :: u64) = length ?h" "unat (of_nat (length ?h + length c) :: u64) = length ?h + length c"
    using l by (intro unat_of_nat_u64, simp)+
  have c1: "\<not> hd (c @ rest) < 128" if "k = KString" "?z = 1"
  proof -
    have "length c = 1" using that(2) z by (metis unat_1)
    then show ?thesis using assms(1) that(1) by (cases c) (auto simp: item_ok_def)
  qed
  have "readKind_raw (?h @ c @ rest) = Inr (k, of_nat (length ?h), ?z)"
    by (rule readKind_raw_head[OF False]) (use z assms(2) c1 in \<open>auto simp: i\<close>)
  then show ?thesis unfolding i Split_def using z h by simp
qed

lemma CountValues_items:
  assumes "\<forall>(k, c) \<in> set items. item_ok k c" "length (concat (map (\<lambda>(k, c). item_bytes k c) items)) < 2 ^ 64"
  shows "CountValues (concat (map (\<lambda>(k, c). item_bytes k c) items)) = Inr (length items)"
  using assms
proof (induction items)
  case Nil
  then show ?case by (simp add: CountValues.simps)
next
  case (Cons kc items)
  obtain k c where kc: "kc = (k, c)" by (cases kc)
  let ?rest = "concat (map (\<lambda>(k, c). item_bytes k c) items)" let ?b = "item_bytes k c @ ?rest"
  have l: "length ?b < 2 ^ 64" using Cons.prems(2) kc by simp
  have s: "Split ?b = Inr (k, c, ?rest)" using Split_item[of k c ?rest] Cons.prems(1) kc l by auto
  then obtain ts cs where r: "readKind_raw ?b = Inr (k, ts, cs)" by (auto simp: Split_def res_simps)
  have d: "drop (unat ts + unat cs) ?b = ?rest"
  proof (cases "k = KByte")
    case True
    then show ?thesis using readKind_raw_ok[OF r l] Cons.prems(1) kc by (simp add: item_bytes_def item_ok_def)
  next
    case False
    then obtain q where q: "?b = headbytes k cs @ q" "unat ts = length (headbytes k cs)" "unat cs \<le> length q"
      using readKind_raw_ok[OF r l] by auto
    have "unat ts + unat cs < 2 ^ 64" using q l by (metis add_left_mono length_append order.strict_trans1)
    then have "unat (ts + cs) = unat ts + unat cs" by (simp only: unat_word_ariths(1) len64 mod_less)
    then show ?thesis using s r by (simp add: Split_def)
  qed
  have "?b \<noteq> []" using r by (cases ?b) (auto simp: readKind_raw_def)
  then show ?case using Cons r d l kc by (simp add: CountValues.simps[of ?b])
qed

text \<open>
  Splitting is exact: \<open>Split\<close> cuts a kind, a content and a rest off an input exactly if the input
  is the encoding of that item followed by the rest; headers with superfluous bytes and strings that
  should have been single bytes are rejected.
\<close>

lemma rlp_split_exact:
  assumes "length b < 2 ^ 63"
  shows "Split b = Inr (k, c, rest) \<longleftrightarrow> b = item_bytes k c @ rest \<and> item_ok k c"
proof
  assume "b = item_bytes k c @ rest \<and> item_ok k c"
  then show "Split b = Inr (k, c, rest)" using Split_item[of k c rest] assms by simp
next
  assume s: "Split b = Inr (k, c, rest)"
  then obtain ts cs where r: "readKind_raw b = Inr (k, ts, cs)"
    and c: "c = take (unat cs) (drop (unat ts) b)" "rest = drop (unat (ts + cs)) b"
    by (auto simp: Split_def res_simps)
  have l: "length b < 2 ^ 64" using assms by simp
  note ok = readKind_raw_ok[OF r l]
  show "b = item_bytes k c @ rest \<and> item_ok k c"
  proof (cases "k = KByte")
    case True
    then show ?thesis using ok c by (auto simp: item_bytes_def item_ok_def)
  next
    case False
    then obtain q where q: "b = headbytes k cs @ q" "unat ts = length (headbytes k cs)" "unat cs \<le> length q"
      "k = KString \<and> cs = 1 \<longrightarrow> \<not> hd q < 128" using ok by auto
    have "unat ts + unat cs < 2 ^ 64" using q l by simp
    then have "unat (ts + cs) = unat ts + unat cs"
      by (simp only: unat_word_ariths(1) len64 mod_less)
    then have c': "c = take (unat cs) q" "rest = drop (unat cs) q" using c q(1,2) by simp_all
    then have len: "length c = unat cs" using q(3) by simp
    then have z: "of_nat (length c) = cs" by simp
    have "item_ok k c"
    proof (cases k)
      case KString
      have "\<not> (length c = 1 \<and> c ! 0 < 0x80)"
      proof
        assume a: "length c = 1 \<and> c ! 0 < 0x80"
        then have "cs = 1" using z by (metis of_nat_1)
        then show False using a q(4) KString c'(1) len by (cases q) auto
      qed
      then show ?thesis using KString by (simp add: item_ok_def)
    qed (use False in \<open>simp_all add: item_ok_def\<close>)
    then show ?thesis using False q(1) c' z by (simp add: item_bytes_def)
  qed
qed

lemma rlp_split_exact_witness:
  "Split [0x82, 7, 8, 9] = Inr (KString, [7, 8], [9]) \<longleftrightarrow>
    [0x82, 7, 8, 9] = item_bytes KString [7, 8] @ [9] \<and> item_ok KString [7, 8]"
  by (rule rlp_split_exact) simp

end
