(* ===== verification/Trie.thy ===== *)
theory Trie
  imports Trie_Keys Rlp_Raw
begin

text \<open>
  Merkle Patricia tries (\<open>trie/trie.go\<close>, \<open>trie/node.go\<close>): nodes, their decoding from the database, and
  lookup, insertion and deletion, which load nodes on demand.  The recursion goes through the database, so
  the operations have a fuel argument.
\<close>

subsection \<open>Nodes\<close>

type_synonym u16 = "16 word"

record node_flag =
  fl_hash :: "byte list option"
  fl_gen :: u16
  fl_dirty :: bool

text \<open>A Go \<open>node\<close> is an interface; its nil value is a node of its own here.\<close>

datatype tnode =
    NilNode
  | ValueNode "byte list"
  | HashNode "byte list"
  | ShortNode "byte list" tnode node_flag
  | FullNode "tnode list" node_flag

datatype trie_error =
    MissingNodeError hash "byte list"
  | DecodeError
  | TriePanic
  | OutOfFuel

record trie =
  T_db :: "hash \<Rightarrow> byte list option"
  T_root :: tnode
  cachegen :: u16
  cachelimit :: u16

definition newFlag :: "trie \<Rightarrow> node_flag" where
  "newFlag t = \<lparr>fl_hash = None, fl_gen = cachegen t, fl_dirty = True\<rparr>"

definition child :: "tnode list \<Rightarrow> byte \<Rightarrow> trie_error + tnode" where
  "child cs b = (if unat b < length cs then Inr (cs ! unat b) else Inl TriePanic)"

definition set_child :: "tnode list \<Rightarrow> byte \<Rightarrow> tnode \<Rightarrow> trie_error + tnode list" where
  "set_child cs b n = (if unat b < length cs then Inr (cs[unat b := n]) else Inl TriePanic)"

subsection \<open>Decoding\<close>

definition rlp_err :: "rlperr + 'a \<Rightarrow> trie_error + 'a" where
  "rlp_err r = (case r of Inl _ \<Rightarrow> Inl DecodeError | Inr x \<Rightarrow> Inr x)"

definition panic_err :: "'a res \<Rightarrow> trie_error + 'a" where
  "panic_err r = (case r of Inl _ \<Rightarrow> Inl TriePanic | Inr x \<Rightarrow> Inr x)"

text \<open>\<open>dec\<close> is \<open>decodeNode\<close> without a hash, for a node embedded in its parent.\<close>

definition decodeRefWith :: "(byte list \<Rightarrow> trie_error + tnode) \<Rightarrow> byte list \<Rightarrow> trie_error + (tnode \<times> byte list)" where
  "decodeRefWith dec buf =
     bind_res (rlp_err (Split buf)) (\<lambda>(kind, val, rest).
       if kind = KList
       then (if length buf - length rest > HashLength then Inl DecodeError
             else bind_res (dec buf) (\<lambda>n. Inr (n, rest)))
       else if kind = KString \<and> length val = 0 then Inr (NilNode, rest)
       else if kind = KString \<and> length val = 32 then Inr (HashNode val, rest)
       else Inl DecodeError)"

definition decodeShortWith :: "(byte list \<Rightarrow> trie_error + tnode) \<Rightarrow> byte list option \<Rightarrow> byte list \<Rightarrow> u16 \<Rightarrow> trie_error + tnode" where
  "decodeShortWith dec h elems gen =
     bind_res (rlp_err (SplitString elems)) (\<lambda>(kbuf, rest).
     let flag = \<lparr>fl_hash = h, fl_gen = gen, fl_dirty = False\<rparr> in
     bind_res (panic_err (compactToHex kbuf)) (\<lambda>key.
       if hasTerm key
       then bind_res (rlp_err (SplitString rest)) (\<lambda>(val, _). Inr (ShortNode key (ValueNode val) flag))
       else bind_res (decodeRefWith dec rest) (\<lambda>(r, _). Inr (ShortNode key r flag))))"

primrec decodeRefs :: "(byte list \<Rightarrow> trie_error + tnode) \<Rightarrow> nat \<Rightarrow> byte list \<Rightarrow> trie_error + (tnode list \<times> byte list)" where
  "decodeRefs dec 0 elems = Inr ([], elems)"
| "decodeRefs dec (Suc n) elems =
     bind_res (decodeRefWith dec elems) (\<lambda>(cld, rest).
     bind_res (decodeRefs dec n rest) (\<lambda>(clds, rest'). Inr (cld # clds, rest')))"

definition decodeFullWith :: "(byte list \<Rightarrow> trie_error + tnode) \<Rightarrow> byte list option \<Rightarrow> byte list \<Rightarrow> u16 \<Rightarrow> trie_error + tnode" where
  "decodeFullWith dec h elems gen =
     bind_res (decodeRefs dec 16 elems) (\<lambda>(clds, rest).
     bind_res (rlp_err (SplitString rest)) (\<lambda>(val, _).
       Inr (FullNode (clds @ [if length val > 0 then ValueNode val else NilNode])
         \<lparr>fl_hash = h, fl_gen = gen, fl_dirty = False\<rparr>)))"

text \<open>An embedded node is shorter than the node it is in, so the length of the input bounds the depth.\<close>

primrec decodeNodeN :: "nat \<Rightarrow> byte list option \<Rightarrow> byte list \<Rightarrow> u16 \<Rightarrow> trie_error + tnode" where
  "decodeNodeN 0 h buf gen = Inl DecodeError"
| "decodeNodeN (Suc d) h buf gen =
     (if length buf = 0 then Inl DecodeError
      else bind_res (rlp_err (SplitList buf)) (\<lambda>(elems, _).
           let dec = (\<lambda>b. decodeNodeN d None b gen) in
           (case CountValues elems of
              Inr c \<Rightarrow> if c = 2 then decodeShortWith dec h elems gen
                      else if c = 17 then decodeFullWith dec h elems gen
                      else Inl DecodeError
            | Inl _ \<Rightarrow> Inl DecodeError)))"

definition decodeNode :: "byte list option \<Rightarrow> byte list \<Rightarrow> u16 \<Rightarrow> trie_error + tnode" where
  "decodeNode h buf gen = decodeNodeN (length buf) h buf gen"

definition mustDecodeNode :: "byte list option \<Rightarrow> byte list \<Rightarrow> u16 \<Rightarrow> trie_error + tnode" where
  "mustDecodeNode h buf gen = (case decodeNode h buf gen of Inl _ \<Rightarrow> Inl TriePanic | Inr n \<Rightarrow> Inr n)"

definition resolveHash :: "trie \<Rightarrow> byte list \<Rightarrow> byte list \<Rightarrow> trie_error + tnode" where
  "resolveHash t n prefix =
     (let h = BytesToHash n in
      case T_db t h of None \<Rightarrow> Inl (MissingNodeError h prefix) | Some buf \<Rightarrow> mustDecodeNode (Some n) buf (cachegen t))"

definition resolve :: "trie \<Rightarrow> tnode \<Rightarrow> byte list \<Rightarrow> trie_error + tnode" where
  "resolve t n prefix = (case n of HashNode h \<Rightarrow> resolveHash t h prefix | _ \<Rightarrow> Inr n)"

subsection \<open>Lookup\<close>

text \<open>The value, if any, the node with what was loaded on the way, and whether anything was.\<close>

primrec tryGet :: "nat \<Rightarrow> trie \<Rightarrow> tnode \<Rightarrow> byte list \<Rightarrow> nat \<Rightarrow> trie_error + (byte list option \<times> tnode \<times> bool)" where
  "tryGet 0 t n key pos = Inl OutOfFuel"
| "tryGet (Suc f) t n key pos =
     (case n of
        NilNode \<Rightarrow> Inr (None, NilNode, False)
      | ValueNode v \<Rightarrow> Inr (Some v, n, False)
      | ShortNode k val fl \<Rightarrow>
          if length key < pos + length k \<or> take (length k) (drop pos key) \<noteq> k then Inr (None, n, False)
          else bind_res (tryGet f t val key (pos + length k)) (\<lambda>(value, newnode, didResolve).
               Inr (value, if didResolve then ShortNode k newnode (fl\<lparr>fl_gen := cachegen t\<rparr>) else n, didResolve))
      | FullNode cs fl \<Rightarrow>
          if pos \<ge> length key then Inl TriePanic
          else bind_res (child cs (key ! pos)) (\<lambda>c.
               bind_res (tryGet f t c key (pos + 1)) (\<lambda>(value, newnode, didResolve).
               Inr (value, if didResolve then FullNode (cs[unat (key ! pos) := newnode]) (fl\<lparr>fl_gen := cachegen t\<rparr>) else n,
                 didResolve)))
      | HashNode h \<Rightarrow>
          bind_res (resolveHash t h (take pos key)) (\<lambda>c.
          bind_res (tryGet f t c key pos) (\<lambda>(value, newnode, _). Inr (value, newnode, True))))"

definition TryGet :: "nat \<Rightarrow> trie \<Rightarrow> byte list \<Rightarrow> trie_error + (byte list option \<times> trie)" where
  "TryGet fuel t key =
     bind_res (tryGet fuel t (T_root t) (keybytesToHex key) 0) (\<lambda>(value, newroot, didResolve).
     Inr (value, if didResolve then t\<lparr>T_root := newroot\<rparr> else t))"

subsection \<open>Insertion\<close>

text \<open>The node that replaces a short node where two keys part.\<close>

primrec insert_node :: "nat \<Rightarrow> trie \<Rightarrow> tnode \<Rightarrow> byte list \<Rightarrow> byte list \<Rightarrow> tnode \<Rightarrow> trie_error + (bool \<times> tnode)" where
  "insert_node 0 t n prefix key value = Inl OutOfFuel"
| "insert_node (Suc f) t n prefix key value =
     (if length key = 0
      then (case n of
              ValueNode v \<Rightarrow> (case value of ValueNode w \<Rightarrow> Inr (v \<noteq> w, value) | _ \<Rightarrow> Inl TriePanic)
            | _ \<Rightarrow> Inr (True, value))
      else (case n of
        ShortNode k val fl \<Rightarrow>
          let matchlen = prefixLen key k in
          if matchlen = length k
          then bind_res (insert_node f t val (prefix @ take matchlen key) (drop matchlen key) value) (\<lambda>(dirty, nn).
               if \<not> dirty then Inr (False, n) else Inr (True, ShortNode k nn (newFlag t)))
          else bind_res (insert_node f t NilNode (prefix @ take (matchlen + 1) k) (drop (matchlen + 1) k) val) (\<lambda>(_, c1).
               bind_res (set_child (replicate 17 NilNode) (k ! matchlen) c1) (\<lambda>cs1.
               if matchlen \<ge> length key then Inl TriePanic
               else bind_res (insert_node f t NilNode (prefix @ take (matchlen + 1) key) (drop (matchlen + 1) key) value) (\<lambda>(_, c2).
               bind_res (set_child cs1 (key ! matchlen) c2) (\<lambda>cs2.
               let branch = FullNode cs2 (newFlag t) in
               if matchlen = 0 then Inr (True, branch)
               else Inr (True, ShortNode (take matchlen key) branch (newFlag t))))))
      | FullNode cs fl \<Rightarrow>
          bind_res (child cs (key ! 0)) (\<lambda>c.
          bind_res (insert_node f t c (prefix @ [key ! 0]) (drop 1 key) value) (\<lambda>(dirty, nn).
          if \<not> dirty then Inr (False, n)
          else bind_res (set_child cs (key ! 0) nn) (\<lambda>cs'. Inr (True, FullNode cs' (newFlag t)))))
      | NilNode \<Rightarrow> Inr (True, ShortNode key value (newFlag t))
      | HashNode h \<Rightarrow>
          bind_res (resolveHash t h prefix) (\<lambda>rn.
          bind_res (insert_node f t rn prefix key value) (\<lambda>(dirty, nn).
          if \<not> dirty then Inr (False, rn) else Inr (True, nn)))
      | ValueNode v \<Rightarrow> Inl TriePanic))"

subsection \<open>Deletion\<close>

text \<open>The index of the only child that is left, if there is only one.\<close>

definition onlyChild :: "tnode list \<Rightarrow> nat option" where
  "onlyChild cs = (case filter (\<lambda>i. cs ! i \<noteq> NilNode) [0..<length cs] of [i] \<Rightarrow> Some i | _ \<Rightarrow> None)"

primrec delete_node :: "nat \<Rightarrow> trie \<Rightarrow> tnode \<Rightarrow> byte list \<Rightarrow> byte list \<Rightarrow> trie_error + (bool \<times> tnode)" where
  "delete_node 0 t n prefix key = Inl OutOfFuel"
| "delete_node (Suc f) t n prefix key =
     (case n of
        ShortNode k val fl \<Rightarrow>
          let matchlen = prefixLen key k in
          if matchlen < length k then Inr (False, n)
          else if matchlen = length key then Inr (True, NilNode)
          else bind_res (delete_node f t val (prefix @ take (length k) key) (drop (length k) key)) (\<lambda>(dirty, c).
               if \<not> dirty then Inr (False, n)
               else (case c of
                       ShortNode k' val' _ \<Rightarrow> Inr (True, ShortNode (k @ k') val' (newFlag t))
                     | _ \<Rightarrow> Inr (True, ShortNode k c (newFlag t))))
      | FullNode cs fl \<Rightarrow>
          if length key = 0 then Inl TriePanic
          else bind_res (child cs (key ! 0)) (\<lambda>c.
               bind_res (delete_node f t c (prefix @ [key ! 0]) (drop 1 key)) (\<lambda>(dirty, nn).
               if \<not> dirty then Inr (False, n)
               else bind_res (set_child cs (key ! 0) nn) (\<lambda>cs'.
                 (case onlyChild cs' of
                    None \<Rightarrow> Inr (True, FullNode cs' (newFlag t))
                  | Some pos \<Rightarrow>
                      if pos \<noteq> 16
                      then bind_res (resolve t (cs' ! pos) prefix) (\<lambda>cnode.
                           (case cnode of
                              ShortNode k' val' _ \<Rightarrow> Inr (True, ShortNode (of_nat pos # k') val' (newFlag t))
                            | _ \<Rightarrow> Inr (True, ShortNode [of_nat pos] (cs' ! pos) (newFlag t))))
                      else Inr (True, ShortNode [of_nat pos] (cs' ! pos) (newFlag t))))))
      | ValueNode v \<Rightarrow> Inr (True, NilNode)
      | NilNode \<Rightarrow> Inr (False, NilNode)
      | HashNode h \<Rightarrow>
          bind_res (resolveHash t h prefix) (\<lambda>rn.
          bind_res (delete_node f t rn prefix key) (\<lambda>(dirty, nn).
          if \<not> dirty then Inr (False, rn) else Inr (True, nn))))"

definition TryUpdate :: "nat \<Rightarrow> trie \<Rightarrow> byte list \<Rightarrow> byte list \<Rightarrow> trie_error + trie" where
  "TryUpdate fuel t key value =
     (let k = keybytesToHex key in
      bind_res (if length value \<noteq> 0 then insert_node fuel t (T_root t) [] k (ValueNode value)
                else delete_node fuel t (T_root t) [] k) (\<lambda>(_, n). Inr (t\<lparr>T_root := n\<rparr>)))"

definition TryDelete :: "nat \<Rightarrow> trie \<Rightarrow> byte list \<Rightarrow> trie_error + trie" where
  "TryDelete fuel t key =
     bind_res (delete_node fuel t (T_root t) [] (keybytesToHex key)) (\<lambda>(_, n). Inr (t\<lparr>T_root := n\<rparr>))"

end
