(* ===== verification/Trie_Tree.thy ===== *)
theory Trie_Tree
  imports Trie_Keys
begin

text \<open>
  Tries without the database: trees of leaves, extensions and branches, the map from paths to values they
  stand for, and their canonical form.  A canonical tree is determined by its map, so it does not depend on
  the order in which the values came in.
\<close>

datatype ptree =
    Leaf "byte list" "byte list"
  | Ext "byte list" ptree
  | Branch "ptree option list" "byte list option"

primrec is_branch :: "ptree \<Rightarrow> bool" where
  "is_branch (Leaf k v) = False"
| "is_branch (Ext k p) = False"
| "is_branch (Branch cs v) = True"

lemma is_branchE:
  assumes "is_branch p"
  obtains cs v where "p = Branch cs v"
  using assms by (cases p) auto

lemma size_child [termination_simp]:
  "i < length cs \<Longrightarrow> cs ! i = Some p \<Longrightarrow> size p < Suc (size_list (size_option size) cs)"
proof -
  assume "i < length cs" "cs ! i = Some p"
  then have "Some p \<in> set cs" by (metis nth_mem)
  then have "Suc (size p) \<le> size_list (size_option size) cs" by (rule size_list_estimation') simp
  then show ?thesis by simp
qed

fun plookup :: "ptree \<Rightarrow> byte list \<Rightarrow> byte list option" where
  "plookup (Leaf k v) x = (if x = k then Some v else None)"
| "plookup (Ext k p) x = (if take (length k) x = k then plookup p (drop (length k) x) else None)"
| "plookup (Branch cs v) [] = None"
| "plookup (Branch cs v) (c # x) =
     (if c = 16 then (if x = [] then v else None)
      else if unat c < length cs then (case cs ! unat c of None \<Rightarrow> None | Some p \<Rightarrow> plookup p x) else None)"

text \<open>An entry of a branch: a child, or at 16 its value.\<close>

definition entry :: "ptree option list \<Rightarrow> byte list option \<Rightarrow> byte \<Rightarrow> bool" where
  "entry cs v c \<longleftrightarrow> (if c = 16 then v \<noteq> None else unat c < length cs \<and> cs ! unat c \<noteq> None)"

inductive pwf :: "ptree \<Rightarrow> bool" where
  pwf_Leaf: "hexkey k \<Longrightarrow> v \<noteq> [] \<Longrightarrow> pwf (Leaf k v)"
| pwf_Ext: "k \<noteq> [] \<Longrightarrow> nibbles k \<Longrightarrow> is_branch p \<Longrightarrow> pwf p \<Longrightarrow> pwf (Ext k p)"
| pwf_Branch: "length cs = 16 \<Longrightarrow> (\<And>p. Some p \<in> set cs \<Longrightarrow> pwf p) \<Longrightarrow> v \<noteq> Some [] \<Longrightarrow>
    entry cs v a \<Longrightarrow> entry cs v b \<Longrightarrow> a \<noteq> b \<Longrightarrow> pwf (Branch cs v)"

inductive_simps pwf_simps [simp]: "pwf (Leaf k v)" "pwf (Ext k p)"
inductive_cases pwf_BranchE: "pwf (Branch cs v)"

lemma hexkey_simps [simp]:
  "\<not> hexkey []"
  "hexkey (c # x) \<longleftrightarrow> (c = 16 \<and> x = [] \<or> c < 16 \<and> hexkey x)"
proof -
  show "\<not> hexkey []" by (simp add: hexkey_def)
  show "hexkey (c # x) \<longleftrightarrow> (c = 16 \<and> x = [] \<or> c < 16 \<and> hexkey x)"
    by (auto simp: hexkey_def Cons_eq_append_conv)
qed

lemma hexkey_append: "nibbles k \<Longrightarrow> hexkey (k @ x) \<longleftrightarrow> hexkey x"
  by (induction k) auto

text \<open>Every path in a canonical tree is a path to a value, and values are not empty.\<close>

lemma plookup_hexkey: "pwf p \<Longrightarrow> plookup p x = Some v \<Longrightarrow> hexkey x \<and> v \<noteq> []"
proof (induction arbitrary: x v rule: pwf.induct)
  case (pwf_Leaf k w)
  then show ?case by (simp split: if_splits)
next
  case (pwf_Ext k p)
  then have "x = k @ drop (length k) x" "hexkey (drop (length k) x)" "v \<noteq> []"
    by (auto split: if_splits) (metis append_take_drop_id)
  then show ?case using hexkey_append[OF pwf_Ext.hyps(2)] by metis
next
  case (pwf_Branch cs w a b)
  then obtain c y where x: "x = c # y" by (cases x) auto
  show ?case
  proof (cases "c = 16")
    case True
    then show ?thesis using pwf_Branch x by (auto split: if_splits)
  next
    case False
    then obtain p where p: "unat c < 16" "cs ! unat c = Some p" "plookup p y = Some v"
      using pwf_Branch x by (auto split: if_splits option.splits)
    then have "Some p \<in> set cs" using pwf_Branch.hyps(1) by (metis nth_mem)
    then show ?thesis using pwf_Branch.IH p x by (auto simp: word_less_nat_alt)
  qed
qed

lemma entry_path:
  assumes "pwf (Branch cs v)" "entry cs v c" "\<And>p. Some p \<in> set cs \<Longrightarrow> \<exists>x. plookup p x \<noteq> None"
  obtains x where "plookup (Branch cs v) (c # x) \<noteq> None"
proof (cases "c = 16")
  case True
  then show ?thesis using that[of "[]"] assms(2) by (simp add: entry_def)
next
  case False
  then obtain p where p: "unat c < length cs" "cs ! unat c = Some p" using assms(2) by (auto simp: entry_def)
  then obtain x where "plookup p x \<noteq> None" using assms(3) by (metis nth_mem)
  then show ?thesis using that[of x] p False by simp
qed

lemma pwf_nonempty: "pwf p \<Longrightarrow> \<exists>x. plookup p x \<noteq> None"
proof (induction rule: pwf.induct)
  case (pwf_Leaf k v)
  then show ?case by auto
next
  case (pwf_Ext k p)
  then obtain x where "plookup p x \<noteq> None" by blast
  then have "plookup (Ext k p) (k @ x) \<noteq> None" by simp
  then show ?case by blast
next
  case (pwf_Branch cs v a b)
  then have "pwf (Branch cs v)" using pwf.pwf_Branch by blast
  then show ?case using entry_path[of cs v a] pwf_Branch by metis
qed

text \<open>The first steps of the paths in a branch are its entries; there are two of them.\<close>

lemma branch_entry:
  "pwf (Branch cs v) \<Longrightarrow> entry cs v c \<longleftrightarrow> (\<exists>x. plookup (Branch cs v) (c # x) \<noteq> None)"
proof
  assume b: "pwf (Branch cs v)" "entry cs v c"
  then show "\<exists>x. plookup (Branch cs v) (c # x) \<noteq> None"
    using entry_path[OF b] pwf_nonempty by (metis pwf_BranchE)
next
  assume "\<exists>x. plookup (Branch cs v) (c # x) \<noteq> None"
  then show "entry cs v c" by (auto simp: entry_def split: if_splits option.splits)
qed

lemma branch_two:
  assumes "pwf (Branch cs v)"
  obtains a x b y where "a \<noteq> b" "plookup (Branch cs v) (a # x) \<noteq> None" "plookup (Branch cs v) (b # y) \<noteq> None"
  using assms branch_entry[OF assms] by (metis pwf_BranchE)

subsection \<open>A canonical tree is determined by its map\<close>

lemma branch_parts:
  assumes "pwf (Branch cs v)" "pwf (Branch ds w)" "plookup (Branch cs v) = plookup (Branch ds w)"
  shows "v = w" and "i < 16 \<Longrightarrow> cs ! i = None \<longleftrightarrow> ds ! i = None"
    and "i < 16 \<Longrightarrow> cs ! i = Some p \<Longrightarrow> ds ! i = Some q \<Longrightarrow> plookup p = plookup q"
proof -
  have len: "length cs = 16" "length ds = 16" using assms(1,2) by (auto elim: pwf_BranchE)
  show "v = w" using fun_cong[OF assms(3), of "[16]"] by simp
  have n: "unat (of_nat i :: byte) = i" "(of_nat i :: byte) \<noteq> 16" if "i < 16" for i
    using that unat_of_nat_byte[of i] by (auto simp: word_unat_eq_iff)
  have "entry cs v c \<longleftrightarrow> entry ds w c" for c
    using branch_entry[OF assms(1), of c] branch_entry[OF assms(2), of c] by (simp only: assms(3))
  from this[of "of_nat i"] show "cs ! i = None \<longleftrightarrow> ds ! i = None" if "i < 16"
    using len that n[OF that] by (simp only: entry_def) auto
  show "plookup p = plookup q" if "i < 16" "cs ! i = Some p" "ds ! i = Some q"
  proof
    fix x
    show "plookup p x = plookup q x" using fun_cong[OF assms(3), of "of_nat i # x"] that len by (simp add: n)
  qed
qed

lemma ext_prefix: "plookup (Ext k p) x \<noteq> None \<Longrightarrow> take (length k) x = k"
  by (auto split: if_splits)

lemma ext_ext_prefix:
  assumes "pwf (Ext k p)" "pwf (Ext l q)" "plookup (Ext k p) = plookup (Ext l q)"
  shows "length l \<le> length k"
proof (rule ccontr)
  assume "\<not> length l \<le> length k"
  obtain cs v where p: "p = Branch cs v" "pwf (Branch cs v)" using assms(1) by (auto elim: is_branchE)
  obtain a x b y where ab: "a \<noteq> b" "plookup (Branch cs v) (a # x) \<noteq> None" "plookup (Branch cs v) (b # y) \<noteq> None"
    by (rule branch_two[OF p(2)])
  have "plookup (Ext l q) (k @ a # x) \<noteq> None" "plookup (Ext l q) (k @ b # y) \<noteq> None"
    unfolding assms(3)[symmetric] using ab by (simp_all add: p(1))
  note pre = this[THEN ext_prefix]
  have "l ! length k = a" "l ! length k = b"
    using pre \<open>\<not> length l \<le> length k\<close> by (metis nth_append_length nth_take not_le)+
  then show False using ab(1) by simp
qed

lemma ext_ext:
  assumes "pwf (Ext k p)" "pwf (Ext l q)" "plookup (Ext k p) = plookup (Ext l q)"
  shows "k = l" "plookup p = plookup q"
proof -
  have len: "length k = length l"
    using ext_ext_prefix[OF assms] ext_ext_prefix[OF assms(2,1) assms(3)[symmetric]] by simp
  obtain x where x: "plookup (Ext k p) x \<noteq> None" using pwf_nonempty[OF assms(1)] by blast
  have "take (length l) x = l" by (rule ext_prefix[OF x[unfolded assms(3)]])
  then show kl: "k = l" using ext_prefix[OF x] len by simp
  show "plookup p = plookup q"
  proof
    fix x
    show "plookup p x = plookup q x" using fun_cong[OF assms(3), of "k @ x"] kl by simp
  qed
qed

text \<open>Leaves have one path, extensions share their first step, branches do neither.\<close>

lemma shapes_differ:
  assumes "pwf (Branch cs v)"
  shows "plookup (Branch cs v) \<noteq> plookup (Leaf k w)"
    and "pwf (Ext l p) \<Longrightarrow> plookup (Branch cs v) \<noteq> plookup (Ext l p)"
    and "plookup (Ext l (Branch cs v)) \<noteq> plookup (Leaf k w)"
proof -
  obtain a x b y where ab: "a \<noteq> b" "plookup (Branch cs v) (a # x) \<noteq> None" "plookup (Branch cs v) (b # y) \<noteq> None"
    by (rule branch_two[OF assms])
  have leaf: "z = k" if "plookup (Leaf k w) z \<noteq> None" for z using that by (simp split: if_splits)
  show "plookup (Branch cs v) \<noteq> plookup (Leaf k w)" using ab leaf by (metis list.inject)
  show "plookup (Ext l (Branch cs v)) \<noteq> plookup (Leaf k w)"
  proof
    assume e: "plookup (Ext l (Branch cs v)) = plookup (Leaf k w)"
    have "plookup (Ext l (Branch cs v)) (l @ a # x) \<noteq> None" "plookup (Ext l (Branch cs v)) (l @ b # y) \<noteq> None"
      using ab by simp_all
    note keys = this[unfolded e, THEN leaf]
    then have "l @ a # x = l @ b # y" by simp
    then show False using ab(1) by simp
  qed
  show "plookup (Branch cs v) \<noteq> plookup (Ext l p)" if "pwf (Ext l p)"
  proof
    assume e: "plookup (Branch cs v) = plookup (Ext l p)"
    have "take (length l) (a # x) = l" "take (length l) (b # y) = l"
      by (rule ext_prefix[OF ab(2)[unfolded e]], rule ext_prefix[OF ab(3)[unfolded e]])
    then show False using that ab(1) by (cases l) auto
  qed
qed

lemma tree_unique:
  assumes "pwf p" "pwf q" "plookup p = plookup q"
  shows "p = q"
  using assms
proof (induction arbitrary: q rule: pwf.induct)
  case (pwf_Leaf k v)
  show ?case
  proof (cases q)
    case (Leaf l w)
    then show ?thesis using fun_cong[OF pwf_Leaf.prems(2), of k] by (simp split: if_splits)
  next
    case (Ext l p)
    then obtain cs w where p: "p = Branch cs w" "pwf (Branch cs w)" using pwf_Leaf.prems(1) by (auto elim: is_branchE)
    show ?thesis using shapes_differ(3)[OF p(2), of l k v] pwf_Leaf.prems(2) unfolding Ext p(1) by metis
  next
    case (Branch cs w)
    then show ?thesis using shapes_differ(1)[of cs w k v] pwf_Leaf.prems by metis
  qed
next
  case (pwf_Ext k p)
  then have e: "pwf (Ext k p)" by simp
  show ?case
  proof (cases q)
    case (Leaf l w)
    obtain cs u where p: "p = Branch cs u" "pwf (Branch cs u)" using e by (auto elim: is_branchE)
    show ?thesis using shapes_differ(3)[OF p(2), of k l w] pwf_Ext.prems(2) unfolding Leaf p(1) by metis
  next
    case (Ext l q')
    have q: "pwf (Ext l q')" "plookup (Ext k p) = plookup (Ext l q')" using pwf_Ext.prems unfolding Ext .
    then have "pwf q'" by simp
    then show ?thesis using ext_ext[OF e q] pwf_Ext.IH[of q'] Ext by simp
  next
    case (Branch cs w)
    then show ?thesis using shapes_differ(2)[of cs w k p] e pwf_Ext.prems by metis
  qed
next
  case (pwf_Branch cs v a b)
  then have e: "pwf (Branch cs v)" using pwf.pwf_Branch by blast
  show ?case
  proof (cases q)
    case (Leaf l w)
    then show ?thesis using shapes_differ(1)[OF e, of l w] pwf_Branch.prems by metis
  next
    case (Ext l q')
    then show ?thesis using shapes_differ(2)[OF e, of l q'] pwf_Branch.prems by metis
  next
    case (Branch ds w)
    have q: "pwf (Branch ds w)" "plookup (Branch cs v) = plookup (Branch ds w)" using pwf_Branch.prems unfolding Branch .
    note parts = branch_parts[OF e q]
    have len: "length cs = 16" "length ds = 16" using e q(1) by (auto elim: pwf_BranchE)
    have "cs ! i = ds ! i" if i: "i < 16" for i
    proof (cases "cs ! i")
      case None
      then show ?thesis using parts(2)[OF i] by simp
    next
      case (Some p)
      then obtain r where r: "ds ! i = Some r" using parts(2)[OF i] by auto
      have "Some p \<in> set cs" "Some r \<in> set ds" using Some r i len by (metis nth_mem)+
      then show ?thesis
        using pwf_Branch.IH[of p r] parts(3)[OF i Some r] q(1) Some r by (auto elim: pwf_BranchE)
    qed
    then show ?thesis using Branch parts(1) len by (simp add: list_eq_iff_nth_eq)
  qed
qed

end
