(* ===== verification/Trie_Map.thy ===== *)
theory Trie_Map
  imports Trie Trie_Tree
begin

text \<open>
  Tries implement maps: nodes, partly in memory and partly in the database, represent canonical trees, and
  lookup, insertion and deletion act on them as on the map from keys to values.  They end, and never
  panic, on every such trie.
\<close>

subsection \<open>Trees as maps\<close>

text \<open>A map moved below a path.\<close>

definition shift :: "byte list \<Rightarrow> (byte list \<Rightarrow> 'v option) \<Rightarrow> byte list \<Rightarrow> 'v option" where
  "shift q m x = (if take (length q) x = q then m (drop (length q) x) else None)"

lemma take_prefix: "take (length q) x = q \<longleftrightarrow> (\<exists>y. x = q @ y)"
  by (metis append_eq_conv_conj)

lemma shift_append [simp]: "shift q m (q @ x) = m x"
  by (simp add: shift_def)

lemma shift_Nil [simp]: "shift [] m = m"
  by (simp add: shift_def fun_eq_iff)

lemma shift_upd: "shift q (m(x := y)) = (shift q m)(q @ x := y)"
  by (auto simp: shift_def fun_eq_iff take_prefix)

lemma shift_outside: "\<nexists>y. x = q @ y \<Longrightarrow> shift q m x = None"
  by (auto simp: shift_def take_prefix)

lemma shift_shift: "shift q (shift k m) = shift (q @ k) m"
proof
  fix x
  show "shift q (shift k m) x = shift (q @ k) m x"
  proof (cases "\<exists>y. x = q @ y")
    case True
    then obtain y where x: "x = q @ y" by blast
    show ?thesis
    proof (cases "\<exists>z. y = k @ z")
      case True
      then show ?thesis using x shift_append[of "q @ k" m] by auto
    next
      case False
      then show ?thesis using x shift_outside[of x "q @ k" m] shift_outside[of y k m] by simp
    qed
  next
    case False
    then show ?thesis using shift_outside[of x q] shift_outside[of x "q @ k" m] by auto
  qed
qed

lemma plookup_Ext: "plookup (Ext k p) = shift k (plookup p)"
  by (simp add: fun_eq_iff shift_def)

lemma plookup_Leaf: "plookup (Leaf (q @ k) v) = shift q (plookup (Leaf k v))"
  by (auto simp: fun_eq_iff shift_def take_prefix)

definition olookup :: "ptree option \<Rightarrow> byte list \<Rightarrow> byte list option" where
  "olookup po x = (case po of None \<Rightarrow> None | Some p \<Rightarrow> plookup p x)"

lemma olookup_simps [simp]: "olookup None = Map.empty" "olookup (Some p) = plookup p"
  by (auto simp: olookup_def)

lemma plookup_Branch:
  "length ps = 16 \<Longrightarrow> plookup (Branch ps v) (c # y) =
    (if c = 16 then (if y = [] then v else None) else if c < 16 then olookup (ps ! unat c) y else None)"
  by (simp add: olookup_def word_less_nat_alt)

declare plookup.simps(4) [simp del]

definition mkExt :: "byte list \<Rightarrow> ptree \<Rightarrow> ptree" where
  "mkExt k p = (if k = [] then p else (case p of Leaf l v \<Rightarrow> Leaf (k @ l) v | Ext l q \<Rightarrow> Ext (k @ l) q | Branch _ _ \<Rightarrow> Ext k p))"

lemma plookup_mkExt: "plookup (mkExt k p) = shift k (plookup p)"
  by (simp add: mkExt_def plookup_Leaf plookup_Ext shift_shift del: plookup.simps split: ptree.split)

lemma hexkey_nibbles_append: "nibbles k \<Longrightarrow> hexkey x \<Longrightarrow> hexkey (k @ x)"
  by (simp add: hexkey_append)

lemma pwf_mkExt: "nibbles k \<Longrightarrow> pwf p \<Longrightarrow> pwf (mkExt k p)"
  by (auto simp: mkExt_def hexkey_append split: ptree.split)

subsection \<open>Entries of a branch\<close>

text \<open>A branch with the entry at one place replaced; at 16 this is its value.\<close>

lemma pwf_BranchI:
  assumes "length ps = 16" "\<And>i p. i < 16 \<Longrightarrow> ps ! i = Some p \<Longrightarrow> pwf p" "v \<noteq> Some []" "entry ps v a" "entry ps v b" "a \<noteq> b"
  shows "pwf (Branch ps v)"
  using assms by (intro pwf_Branch[of ps v a b]) (auto simp: in_set_conv_nth)

lemma pwf_BranchD:
  assumes "pwf (Branch ps v)"
  shows "length ps = 16" "i < 16 \<Longrightarrow> ps ! i = Some p \<Longrightarrow> pwf p" "v \<noteq> Some []"
  using assms by (auto elim!: pwf_BranchE) (metis nth_mem)

lemma entry_upd:
  assumes "length ps = 16" "c < 16"
  shows "entry (ps[unat c := po]) v a \<longleftrightarrow> (if a = c then po \<noteq> None else entry ps v a)"
    and "entry ps w a \<longleftrightarrow> (if a = 16 then w \<noteq> None else entry ps v a)"
  using assms by (auto simp: entry_def word_less_nat_alt nth_list_update word_unat_eq_iff)

lemma plookup_Branch_child:
  assumes "length ps = 16" "c < 16" "olookup po = (olookup (ps ! unat c))(x := y)"
  shows "plookup (Branch (ps[unat c := po]) v) = (plookup (Branch ps v))(c # x := y)"
proof
  fix z
  have n: "d < 16 \<Longrightarrow> ps[unat c := po] ! unat d = (if d = c then po else ps ! unat d)" for d
    using assms(1,2) by (auto simp: word_less_nat_alt nth_list_update word_unat_eq_iff)
  show "plookup (Branch (ps[unat c := po]) v) z = ((plookup (Branch ps v))(c # x := y)) z"
    using assms by (cases z) (auto simp: plookup_Branch n)
qed

lemma plookup_Branch_value:
  assumes "length ps = 16"
  shows "plookup (Branch ps w) = (plookup (Branch ps v))([16] := w)"
proof
  fix z
  show "plookup (Branch ps w) z = ((plookup (Branch ps v))([16] := w)) z"
    using assms by (cases z) (auto simp: plookup_Branch)
qed

subsection \<open>Representation\<close>

definition value_node :: "byte list option \<Rightarrow> tnode" where
  "value_node v = (case v of None \<Rightarrow> NilNode | Some x \<Rightarrow> ValueNode x)"

inductive rep :: "(byte list \<Rightarrow> byte list \<Rightarrow> trie_error + tnode) \<Rightarrow> tnode \<Rightarrow> ptree \<Rightarrow> bool" for r where
  rep_Leaf: "rep r (ShortNode k (ValueNode v) f) (Leaf k v)"
| rep_Ext: "rep r n p \<Longrightarrow> rep r (ShortNode k n f) (Ext k p)"
| rep_Branch: "length cs = 17 \<Longrightarrow> length ps = 16 \<Longrightarrow> cs ! 16 = value_node v \<Longrightarrow>
    (\<And>i. i < 16 \<Longrightarrow> ps ! i = None \<Longrightarrow> cs ! i = NilNode) \<Longrightarrow>
    (\<And>i p. i < 16 \<Longrightarrow> ps ! i = Some p \<Longrightarrow> rep r (cs ! i) p) \<Longrightarrow> rep r (FullNode cs f) (Branch ps v)"
| rep_Hash: "(\<And>prefix. r h prefix = Inr n) \<Longrightarrow> (\<And>h'. n \<noteq> HashNode h') \<Longrightarrow> rep r n p \<Longrightarrow> rep r (HashNode h) p"

inductive_cases rep_NilE [elim!]: "rep r NilNode p"
inductive_cases rep_ValueE [elim!]: "rep r (ValueNode v) p"
inductive_cases rep_FullE: "rep r (FullNode cs f) p"
inductive_cases rep_HashE: "rep r (HashNode h) p"
inductive_cases rep_BranchE: "rep r n (Branch ps v)"
inductive_simps rep_Short: "rep r (ShortNode k n f) p"

definition repo :: "(byte list \<Rightarrow> byte list \<Rightarrow> trie_error + tnode) \<Rightarrow> tnode \<Rightarrow> ptree option \<Rightarrow> bool" where
  "repo r n po = (case po of None \<Rightarrow> n = NilNode | Some p \<Rightarrow> rep r n p)"

lemma repo_simps [simp]: "repo r n None \<longleftrightarrow> n = NilNode" "repo r n (Some p) \<longleftrightarrow> rep r n p" "repo r NilNode po \<longleftrightarrow> po = None"
  by (auto simp: repo_def split: option.splits)

text \<open>The children of a branch.\<close>

definition repb :: "(byte list \<Rightarrow> byte list \<Rightarrow> trie_error + tnode) \<Rightarrow> tnode list \<Rightarrow> ptree option list \<Rightarrow> byte list option \<Rightarrow> bool" where
  "repb r cs ps v \<longleftrightarrow> length cs = 17 \<and> length ps = 16 \<and> cs ! 16 = value_node v \<and> (\<forall>i<16. repo r (cs ! i) (ps ! i))"

lemma rep_Full: "rep r (FullNode cs f) p \<longleftrightarrow> (\<exists>ps v. p = Branch ps v \<and> repb r cs ps v)"
proof
  assume "rep r (FullNode cs f) p"
  then show "\<exists>ps v. p = Branch ps v \<and> repb r cs ps v"
    by (rule rep_FullE) (auto simp: repb_def repo_def split: option.split)
next
  assume "\<exists>ps v. p = Branch ps v \<and> repb r cs ps v"
  then obtain ps v where p: "p = Branch ps v" "repb r cs ps v" by blast
  then show "rep r (FullNode cs f) p"
    unfolding p(1) by (intro rep_Branch) (auto simp: repb_def repo_def split: option.splits)
qed

lemma repb_child: "repb r cs ps v \<Longrightarrow> c < (16 :: byte) \<Longrightarrow> repo r n po \<Longrightarrow> repb r (cs[unat c := n]) (ps[unat c := po]) v"
  by (auto simp: repb_def nth_list_update word_less_nat_alt)

lemma repb_value: "repb r cs ps v \<Longrightarrow> repb r (cs[16 := value_node w]) ps w"
  by (auto simp: repb_def nth_list_update)

definition cost :: "tnode \<Rightarrow> nat" where
  "cost n = (case n of HashNode _ \<Rightarrow> 1 | _ \<Rightarrow> 0)"

lemma cost_simps [simp]: "cost NilNode = 0" "cost (ValueNode v) = 0" "cost (HashNode h) = 1" "cost (ShortNode k n f) = 0"
    "cost (FullNode cs f) = 0" "cost n \<le> 1"
  by (auto simp: cost_def split: tnode.split)

subsection \<open>Lookup\<close>

lemma tryGet_value:
  "0 < f \<Longrightarrow> tryGet f t (value_node v) key pos = Inr (v, value_node v, False)"
  by (cases f) (auto simp: value_node_def split: option.split)

lemma tryGet_Nil: "0 < f \<Longrightarrow> tryGet f t NilNode key pos = Inr (None, NilNode, False)"
  by (cases f) auto

lemma repb_entry:
  assumes "repb r cs ps v"
  shows "c < (16 :: byte) \<Longrightarrow> child cs c = Inr (cs ! unat c)" "child cs 16 = Inr (value_node v)"
    "c < 16 \<Longrightarrow> repo r (cs ! unat c) (ps ! unat c)"
  using assms by (auto simp: child_def repb_def word_less_nat_alt)

lemma hexkey_drop: "hexkey (drop pos key) \<Longrightarrow> pos < length key"
  by (cases "pos < length key") auto

lemma hexkey_prefix_free: "hexkey k \<Longrightarrow> hexkey (k @ y) \<Longrightarrow> y = []"
  by (induction k) auto

lemma drop_append_eq: "drop pos key = k @ y \<Longrightarrow> k @ y \<noteq> [] \<Longrightarrow> pos + length k + length y = length key \<and> drop (pos + length k) key = y"
  by (metis append_eq_conv_conj add.commute drop_drop drop_eq_Nil length_append length_drop le_add_diff_inverse nat_le_linear
      add.assoc)

definition got :: "trie \<Rightarrow> ptree \<Rightarrow> byte list \<Rightarrow> trie_error + (byte list option \<times> tnode \<times> bool) \<Rightarrow> bool" where
  "got t p x res \<longleftrightarrow> (\<exists>n' d. res = Inr (plookup p x, n', d) \<and> rep (resolveHash t) n' p)"

lemma tryGet_Leaf:
  assumes "hexkey k" "hexkey (drop pos key)" "2 \<le> fuel"
  shows "got t (Leaf k v) (drop pos key) (tryGet fuel t (ShortNode k (ValueNode v) f) key pos)"
proof -
  note lt = hexkey_drop[OF assms(2)]
  obtain g where g: "fuel = Suc (Suc g)" using assms(3) by (cases fuel; cases "fuel - 1") auto
  show ?thesis
  proof (cases "drop pos key = k")
    case True
    then have "\<not> length key < pos + length k" "take (length k) (drop pos key) = k" using lt by auto
    then show ?thesis using True g by (auto simp: got_def intro: rep_Leaf)
  next
    case False
    have "take (length k) (drop pos key) \<noteq> k"
    proof
      assume "take (length k) (drop pos key) = k"
      then obtain y where y: "drop pos key = k @ y" by (metis append_take_drop_id)
      then show False using hexkey_prefix_free[of k y] assms False by auto
    qed
    then show ?thesis using False g by (auto simp: got_def intro: rep_Leaf)
  qed
qed

lemma tryGet_Ext:
  assumes "rep (resolveHash t) n p" "pwf (Ext k p)" "hexkey (drop pos key)"
    and "\<And>y. drop pos key = k @ y \<Longrightarrow> hexkey y \<Longrightarrow> got t p y (tryGet g t n key (pos + length k))"
  shows "got t (Ext k p) (drop pos key) (tryGet (Suc g) t (ShortNode k n f) key pos)"
proof (cases "\<exists>y. drop pos key = k @ y")
  case True
  then obtain y where y: "drop pos key = k @ y" by blast
  have k: "k \<noteq> []" "hexkey y" using assms(2,3) y hexkey_append[of k y] by auto
  have e: "pos + length k + length y = length key" using drop_append_eq[OF y] k(1) by auto
  from assms(4)[OF y k(2)] obtain n' d where
    "tryGet g t n key (pos + length k) = Inr (plookup p y, n', d)" "rep (resolveHash t) n' p"
    by (auto simp: got_def)
  then show ?thesis using y e assms(1) by (auto simp: got_def plookup_Ext simp del: plookup.simps intro: rep_Ext)
next
  case False
  then have "take (length k) (drop pos key) \<noteq> k" by (simp add: take_prefix)
  then show ?thesis
    using False shift_outside[of "drop pos key" k "plookup p"] assms(1)
    by (auto simp: got_def plookup_Ext simp del: plookup.simps intro: rep_Ext)
qed

lemma tryGet_Branch:
  assumes "repb (resolveHash t) cs ps v" "pwf (Branch ps v)" "hexkey (drop pos key)" "0 < g"
    and "\<And>p. key ! pos < 16 \<Longrightarrow> hexkey (drop (pos + 1) key) \<Longrightarrow> ps ! unat (key ! pos) = Some p \<Longrightarrow>
      got t p (drop (pos + 1) key) (tryGet g t (cs ! unat (key ! pos)) key (pos + 1))"
  shows "got t (Branch ps v) (drop pos key) (tryGet (Suc g) t (FullNode cs f) key pos)"
proof -
  note len = pwf_BranchD(1)[OF assms(2)] and lt = hexkey_drop[OF assms(3)]
  let ?c = "key ! pos" and ?y = "drop (pos + 1) key"
  have x: "drop pos key = ?c # ?y" using lt by (simp add: Cons_nth_drop_Suc)
  have full: "rep (resolveHash t) (FullNode cs f) (Branch ps v)" using assms(1) by (auto simp: rep_Full)
  consider (val) "?c = 16" "?y = []" | (none) "?c < 16" "ps ! unat ?c = None" | (sub) p where "?c < 16" "hexkey ?y" "ps ! unat ?c = Some p"
    using assms(3) unfolding x by (cases "ps ! unat ?c") auto
  then show ?thesis
  proof cases
    case val
    then show ?thesis
      using lt full tryGet_value[OF assms(4), of t v key "pos + 1"] repb_entry(2)[OF assms(1)] len
      unfolding x by (auto simp: got_def plookup_Branch)
  next
    case none
    then show ?thesis
      using lt repb_entry(1,3)[OF assms(1) none(1)] full tryGet_Nil[OF assms(4), of t key "pos + 1"] len
      unfolding x by (auto simp: got_def plookup_Branch)
  next
    case sub
    obtain n' d where n': "tryGet g t (cs ! unat ?c) key (pos + 1) = Inr (plookup p ?y, n', d)" "rep (resolveHash t) n' p"
      using assms(5)[OF sub] by (auto simp: got_def)
    have "ps[unat ?c := Some p] = ps" using sub(3) by (metis list_update_id)
    then have "repb (resolveHash t) (cs[unat ?c := n']) ps v"
      using repb_child[OF assms(1) sub(1), of n' "Some p"] n'(2) by simp
    then have "rep (resolveHash t) (FullNode (cs[unat ?c := n']) f') (Branch ps v)" for f' by (auto simp: rep_Full)
    then show ?thesis
      using lt sub repb_entry(1)[OF assms(1) sub(1)] full n'(1) len unfolding x by (auto simp: got_def plookup_Branch)
  qed
qed

lemma rep_repb:
  assumes "length cs = 17" "length ps = 16" "cs ! 16 = value_node v" "\<And>i. i < 16 \<Longrightarrow> ps ! i = None \<Longrightarrow> cs ! i = NilNode"
    "\<And>i p. i < 16 \<Longrightarrow> ps ! i = Some p \<Longrightarrow> rep r (cs ! i) p"
  shows "repb r cs ps v"
  using assms by (auto simp: repb_def repo_def split: option.split)

lemma tryGet_rep:
  assumes "rep (resolveHash t) n p" "pwf p" "hexkey (drop pos key)" "2 * (length key - pos) + 1 + cost n \<le> fuel"
  shows "got t p (drop pos key) (tryGet fuel t n key pos)"
  using assms
proof (induction arbitrary: pos fuel rule: rep.induct)
  case (rep_Leaf k v f)
  then show ?case using hexkey_drop[OF rep_Leaf.prems(2)] by (intro tryGet_Leaf) auto
next
  case (rep_Ext n p k f)
  obtain g where g: "fuel = Suc g" using rep_Ext.prems by (cases fuel) auto
  have "got t p y (tryGet g t n key (pos + length k))" if y: "drop pos key = k @ y" "hexkey y" for y
  proof -
    have k: "k \<noteq> []" "pwf p" using rep_Ext.prems by auto
    have e: "pos + length k + length y = length key" "drop (pos + length k) key = y" using drop_append_eq[OF y(1)] k(1) by auto
    have "2 * (length key - (pos + length k)) + 1 + cost n \<le> g"
      using rep_Ext.prems(3) g e(1) k(1) cost_simps(6)[of n] by (cases k) auto
    then show ?thesis using rep_Ext.IH[of "pos + length k" g] k(2) y(2) e(2) by simp
  qed
  then show ?case unfolding g using tryGet_Ext[OF rep_Ext.hyps rep_Ext.prems(1,2)] by blast
next
  case (rep_Branch cs ps v f)
  note rb = rep_repb[OF rep_Branch.hyps(1-4) rep_Branch.hyps(5)] and lt = hexkey_drop[OF rep_Branch.prems(2)]
  obtain g where g: "fuel = Suc g" "2 * (length key - pos) \<le> g" using rep_Branch.prems by (cases fuel) auto
  have "got t p (drop (pos + 1) key) (tryGet g t (cs ! unat (key ! pos)) key (pos + 1))"
    if "key ! pos < 16" "hexkey (drop (pos + 1) key)" "ps ! unat (key ! pos) = Some p" for p
    using that lt g(2) cost_simps(6)[of "cs ! unat (key ! pos)"] pwf_BranchD(2)[OF rep_Branch.prems(1), of "unat (key ! pos)" p]
    by (intro rep_Branch.IH) (auto simp: word_less_nat_alt)
  moreover have "0 < g" using g(2) lt by simp
  ultimately show ?case unfolding g(1) using tryGet_Branch[OF rb rep_Branch.prems(1,2)] by blast
next
  case (rep_Hash h n p)
  then obtain g where g: "fuel = Suc g" by (cases fuel) auto
  have "cost n = 0" using rep_Hash.hyps(2) by (cases n) auto
  then have "got t p (drop pos key) (tryGet g t n key pos)" using rep_Hash g by (intro rep_Hash.IH) auto
  then show ?case using g rep_Hash.hyps(1) by (auto simp: got_def)
qed

subsection \<open>Insertion\<close>

lemma hexkey_appendD: "hexkey (q @ y) \<Longrightarrow> y \<noteq> [] \<Longrightarrow> nibbles q \<and> hexkey y"
  by (induction q) auto

lemma hexkey_not_nibbles: "hexkey x \<Longrightarrow> \<not> nibbles (x @ y)"
  by (induction x) auto

lemma prefixLen_branch: "a \<noteq> b \<Longrightarrow> prefixLen (q @ a # xs) (q @ b # ks) = length q"
  by (induction q) auto

text \<open>A path either continues the key of a short node or parts from it.\<close>

lemma key_cases:
  assumes "hexkey x" "hexkey k \<or> nibbles k"
  obtains (continues) y where "x = k @ y" "prefixLen x k = length k"
    | (parts) q a xs b ks where "x = q @ a # xs" "k = q @ b # ks" "a \<noteq> b" "prefixLen x k = length q"
proof -
  let ?m = "prefixLen x k"
  show ?thesis
  proof (cases "?m = length k")
    case True
    then have "take (length k) x = k" using prefixLen_take[of x k] by simp
    then show ?thesis using continues True by (metis append_take_drop_id)
  next
    case False
    then have m: "?m < length k" using prefixLen_le(2)[of x k] by simp
    have "?m < length x"
    proof (rule ccontr)
      assume n: "\<not> ?m < length x"
      then have "x = take ?m k" using prefixLen_take[of x k] by simp
      then obtain r where k: "k = x @ r" by (metis append_take_drop_id)
      have "length x < length k" using m n by linarith
      then have "r \<noteq> []" using k by auto
      then show False using hexkey_prefix_free[of x r] hexkey_not_nibbles[of x r] assms k by auto
    qed
    then show ?thesis
      using parts[of "take ?m x" "x ! ?m" "drop (Suc ?m) x" "k ! ?m" "drop (Suc ?m) k"] m
        prefixLen_take[of x k] prefixLen_differ[of x k] id_take_nth_drop[of ?m x] id_take_nth_drop[of ?m k] by simp
  qed
qed

definition nshort :: "trie \<Rightarrow> byte list \<Rightarrow> tnode \<Rightarrow> tnode" where
  "nshort t k n = (if k = [] then n else ShortNode k n (newFlag t))"

lemma insert_Nil: "0 < f \<Longrightarrow> insert_node f t NilNode pre key value = Inr (True, nshort t key value)"
  by (cases f) (auto simp: nshort_def)

lemma insert_parts:
  assumes "a \<noteq> b" "unat a < 17" "unat b < 17" "0 < g"
  shows "insert_node (Suc g) t (ShortNode (q @ b # ks) val fl) pre (q @ a # xs) value =
    Inr (True, nshort t q (FullNode ((replicate 17 NilNode)[unat b := nshort t ks val, unat a := nshort t xs value]) (newFlag t)))"
  using assms by (simp add: prefixLen_branch insert_Nil set_child_def nth_append nshort_def Let_def)

lemma rep_nshort:
  "rep r n p \<Longrightarrow> is_branch p \<Longrightarrow> rep r (nshort t k n) (mkExt k p)"
  by (auto simp: nshort_def mkExt_def intro: rep_Ext elim!: is_branchE)

text \<open>Branches under construction.\<close>

definition branch_ok :: "ptree option list \<Rightarrow> byte list option \<Rightarrow> bool" where
  "branch_ok ps u \<longleftrightarrow> length ps = 16 \<and> (\<forall>i<16. \<forall>p. ps ! i = Some p \<longrightarrow> pwf p) \<and> u \<noteq> Some []"

lemma branch_ok_pwf: "branch_ok ps u \<Longrightarrow> entry ps u a \<Longrightarrow> entry ps u b \<Longrightarrow> a \<noteq> b \<Longrightarrow> pwf (Branch ps u)"
  by (rule pwf_BranchI) (auto simp: branch_ok_def)

lemma branch_ok_child: "branch_ok ps u \<Longrightarrow> (\<And>p. po = Some p \<Longrightarrow> pwf p) \<Longrightarrow> branch_ok (ps[i := po]) u"
  by (cases "i < length ps") (auto simp: branch_ok_def nth_list_update split: if_splits)

lemma no_entry:
  assumes "\<not> entry ps u c" "branch_ok ps u" "c < 16"
  shows "ps ! unat c = None"
  using assms by (auto simp: entry_def branch_ok_def word_less_nat_alt split: if_splits)

lemma put_leaf:
  assumes "repb r cs ps u" "branch_ok ps u" "\<not> entry ps u a" "hexkey (a # xs)" "v \<noteq> []"
  obtains ps' u' where "repb r (cs[unat a := nshort t xs (ValueNode v)]) ps' u'" "branch_ok ps' u'"
    "plookup (Branch ps' u') = (plookup (Branch ps u))(a # xs \<mapsto> v)" "\<And>c. entry ps' u' c \<longleftrightarrow> c = a \<or> entry ps u c"
proof -
  have len: "length ps = 16" using assms(2) by (simp add: branch_ok_def)
  consider "a = 16" "xs = []" | "a < 16" "hexkey xs" using assms(4) by auto
  then show ?thesis
  proof cases
    case 1
    have "nshort t xs (ValueNode v) = value_node (Some v)" by (simp add: 1 nshort_def value_node_def)
    then show ?thesis
      using that[of ps "Some v"] 1 repb_value[OF assms(1), of "Some v"] assms(2,5) plookup_Branch_value[OF len, of "Some v" u]
        entry_upd(2)[of ps 0 "Some v" _ u] len by (auto simp: branch_ok_def)
  next
    case 2
    let ?l = "Some (Leaf xs v)"
    have "repo r (nshort t xs (ValueNode v)) ?l" using 2(2) by (auto simp: nshort_def intro: rep_Leaf)
    note rb = repb_child[OF assms(1) 2(1) this]
    have "olookup ?l = (olookup (ps ! unat a))(xs \<mapsto> v)"
      using no_entry[OF assms(3,2) 2(1)] by (auto simp: fun_eq_iff)
    note pl = plookup_Branch_child[OF len 2(1) this, of u]
    have ok: "branch_ok (ps[unat a := ?l]) u" using 2(2) assms(5) by (intro branch_ok_child[OF assms(2)]) auto
    show ?thesis by (rule that[OF rb ok pl]) (simp add: entry_upd(1)[OF len 2(1)])
  qed
qed

definition no_children :: "tnode list" where
  "no_children = replicate 17 NilNode"

lemma no_children:
  "repb r no_children (replicate 16 None) None" "branch_ok (replicate 16 None) None"
  "plookup (Branch (replicate 16 None) None) = Map.empty" "\<not> entry (replicate 16 None) None c"
proof -
  show "plookup (Branch (replicate 16 None) None) = Map.empty"
  proof
    fix x
    show "plookup (Branch (replicate 16 None) None) x = None"
      by (cases x) (auto simp: plookup_Branch word_less_nat_alt)
  qed
qed (auto simp: no_children_def repb_def branch_ok_def entry_def value_node_def)

text \<open>The node that was there becomes the first entry of the new branch.\<close>

lemma put_short:
  assumes "rep r (ShortNode (b # ks) val f) s" "pwf s"
  obtains ps u where "repb r (no_children[unat b := nshort t ks val]) ps u" "branch_ok ps u"
    "plookup (Branch ps u) = plookup s" "\<And>c. entry ps u c \<longleftrightarrow> c = b"
  using assms(1)
proof (cases rule: rep.cases)
  case (rep_Leaf v)
  then have "hexkey (b # ks)" "v \<noteq> []" using assms(2) by auto
  from put_leaf[OF no_children(1,2,4) this, where t = t and r = r] show ?thesis
    using that rep_Leaf no_children(3,4) by (auto simp: fun_eq_iff)
next
  case (rep_Ext p)
  then have p: "b < 16" "nibbles ks" "is_branch p" "pwf p" using assms(2) by auto
  let ?q = "mkExt ks p"
  have "rep r (nshort t ks val) ?q" using rep_nshort[OF rep_Ext(2) p(3)] .
  moreover have "plookup (Branch ((replicate 16 None)[unat b := Some ?q]) None) = plookup s"
  proof
    fix x
    have "plookup s = shift (b # ks) (plookup p)" by (simp add: rep_Ext(1) plookup_Ext del: plookup.simps)
    then show "plookup (Branch ((replicate 16 None)[unat b := Some ?q]) None) x = plookup s x"
      using p(1) by (cases x) (auto simp: plookup_Branch plookup_mkExt shift_def nth_list_update word_less_nat_alt word_unat_eq_iff)
  qed
  ultimately show ?thesis
    using that[of "(replicate 16 None)[unat b := Some ?q]" None] repb_child[OF no_children(1) p(1), of r "nshort t ks val" "Some ?q"]
      branch_ok_child[OF no_children(2), of "Some ?q"] pwf_mkExt[OF p(2,4)] entry_upd(1)[of "replicate 16 None" b] p(1) no_children(4)
    by simp
qed

definition inserted :: "(byte list \<Rightarrow> byte list \<Rightarrow> trie_error + tnode) \<Rightarrow> ptree option \<Rightarrow> byte list \<Rightarrow> byte list \<Rightarrow> bool \<times> tnode \<Rightarrow> bool" where
  "inserted r po x v res \<longleftrightarrow> (\<exists>p'. rep r (snd res) p' \<and> pwf p' \<and> plookup p' = (olookup po)(x \<mapsto> v) \<and>
     (\<not> fst res \<longrightarrow> po = Some p') \<and> (\<forall>p. po = Some p \<longrightarrow> is_branch p \<longrightarrow> is_branch p'))"

lemma insertedI:
  "rep r n p' \<Longrightarrow> pwf p' \<Longrightarrow> plookup p' = (olookup po)(x \<mapsto> v) \<Longrightarrow> (\<not> d \<Longrightarrow> po = Some p') \<Longrightarrow>
   (\<And>p. po = Some p \<Longrightarrow> is_branch p \<Longrightarrow> is_branch p') \<Longrightarrow> inserted r po x v (d, n)"
  by (auto simp: inserted_def)

lemma insertedE:
  assumes "inserted r po x v (d, n)"
  obtains p' where "rep r n p'" "pwf p'" "plookup p' = (olookup po)(x \<mapsto> v)" "\<not> d \<longrightarrow> po = Some p'"
    "\<forall>p. po = Some p \<longrightarrow> is_branch p \<longrightarrow> is_branch p'"
  using assms unfolding inserted_def fst_conv snd_conv by blast

lemma short_tail:
  assumes "rep r (ShortNode (q @ b # ks) val f) s" "pwf s"
  obtains s' where "rep r (ShortNode (b # ks) val f) s'" "pwf s'" "plookup s = shift q (plookup s')" "nibbles q"
    "\<not> is_branch s" "unat b < 17"
  using assms(1)
proof (cases rule: rep.cases)
  case (rep_Leaf v)
  then have "nibbles q" "hexkey (b # ks)" "v \<noteq> []" using assms(2) hexkey_appendD[of q "b # ks"] by auto
  then show ?thesis
    using that[of "Leaf (b # ks) v"] rep_Leaf plookup_Leaf[of q "b # ks" v] rep.rep_Leaf[of r "b # ks" v f]
    by (auto simp: word_less_nat_alt simp del: plookup.simps)
next
  case (rep_Ext p)
  then have "nibbles q" "b < 16" "nibbles ks" "is_branch p" "pwf p" using assms(2) by auto
  then show ?thesis
    using that[of "Ext (b # ks) p"] rep_Ext shift_shift[of q "b # ks" "plookup p"] rep.rep_Ext[of r val p "b # ks" f]
    by (auto simp: plookup_Ext word_less_nat_alt simp del: plookup.simps)
qed

lemma insert_parting:
  assumes "rep (resolveHash t) (ShortNode (q @ b # ks) val f) s" "pwf s" "hexkey (q @ a # xs)" "a \<noteq> b" "v \<noteq> []" "0 < g"
  shows "\<exists>res. insert_node (Suc g) t (ShortNode (q @ b # ks) val f) pre (q @ a # xs) (ValueNode v) = Inr res \<and>
    inserted (resolveHash t) (Some s) (q @ a # xs) v res"
proof -
  obtain s' where s': "rep (resolveHash t) (ShortNode (b # ks) val f) s'" "pwf s'" "plookup s = shift q (plookup s')"
    "nibbles q" "\<not> is_branch s" "unat b < 17" by (rule short_tail[OF assms(1,2)])
  have a: "hexkey (a # xs)" "unat a < 17" using hexkey_appendD[OF assms(3)] by (auto simp: word_less_nat_alt)
  obtain ps u where b: "repb (resolveHash t) (no_children[unat b := nshort t ks val]) ps u" "branch_ok ps u"
    "plookup (Branch ps u) = plookup s'" "\<And>c. entry ps u c \<longleftrightarrow> c = b" by (rule put_short[OF s'(1,2), where t = t]) blast
  have "\<not> entry ps u a" using b(4) assms(4) by simp
  from put_leaf[OF b(1,2) this a(1) assms(5), where t = t] obtain ps' u' where
    c: "repb (resolveHash t) (no_children[unat b := nshort t ks val, unat a := nshort t xs (ValueNode v)]) ps' u'"
      "branch_ok ps' u'" "plookup (Branch ps' u') = (plookup (Branch ps u))(a # xs \<mapsto> v)"
      "\<And>c. entry ps' u' c \<longleftrightarrow> c = a \<or> entry ps u c" by blast
  have w: "pwf (Branch ps' u')" using branch_ok_pwf[OF c(2), of a b] c(4) b(4) assms(4) by simp
  let ?n = "nshort t q (FullNode (no_children[unat b := nshort t ks val, unat a := nshort t xs (ValueNode v)]) (newFlag t))"
  have "rep (resolveHash t) ?n (mkExt q (Branch ps' u'))" using c(1) by (intro rep_nshort) (auto simp: rep_Full)
  moreover have "plookup (mkExt q (Branch ps' u')) = (plookup s)(q @ a # xs \<mapsto> v)"
    by (simp add: plookup_mkExt c(3) b(3) shift_upd s'(3))
  ultimately have "inserted (resolveHash t) (Some s) (q @ a # xs) v (True, ?n)"
    using pwf_mkExt[OF s'(4) w] s'(5) by (auto simp: inserted_def)
  then show ?thesis using insert_parts[OF assms(4) a(2) s'(6) assms(6)] by (simp add: no_children_def)
qed

lemma insert_value:
  "0 < g \<Longrightarrow> insert_node g t (value_node u) pre [] (ValueNode v) = Inr (u \<noteq> Some v, ValueNode v)"
  by (cases g) (auto simp: value_node_def split: option.split)

lemma insert_Leaf:
  assumes "pwf (Leaf k w)" "hexkey x" "v \<noteq> []" "0 < g"
  shows "\<exists>res. insert_node (Suc g) t (ShortNode k (ValueNode w) f) pre x (ValueNode v) = Inr res \<and>
    inserted (resolveHash t) (Some (Leaf k w)) x v res"
proof -
  have k: "hexkey k" using assms(1) by simp
  have "hexkey k \<or> nibbles k" using k by simp
  with assms(2) show ?thesis
  proof (cases rule: key_cases)
    case (continues y)
    then have x: "x = k" "k \<noteq> []" using hexkey_prefix_free[OF k, of y] assms(2) by auto
    have "plookup (Leaf k v) = (plookup (Leaf k w))(k \<mapsto> v)" by (auto simp: fun_eq_iff)
    then have "inserted (resolveHash t) (Some (Leaf k w)) k v (w \<noteq> v, ShortNode k (ValueNode v) f')" for f'
      using k assms(3) by (intro insertedI[OF rep_Leaf]) (auto simp del: plookup.simps)
    then show ?thesis
      using x continues(2) insert_value[OF assms(4), of t "Some w"] by (cases "w = v") (auto simp: value_node_def Let_def)
  next
    case (parts q a xs b ks)
    show ?thesis unfolding parts(1,2)
      using insert_parting[of t q b ks "ValueNode w" f "Leaf k w" a xs v g pre] assms parts rep_Leaf[of "resolveHash t" k w f]
      by auto
  qed
qed

lemma insert_Ext:
  assumes "rep (resolveHash t) n p" "pwf (Ext k p)" "hexkey x" "v \<noteq> []" "0 < g"
    and "\<And>y pre. x = k @ y \<Longrightarrow> hexkey y \<Longrightarrow>
      \<exists>res. insert_node g t n pre y (ValueNode v) = Inr res \<and> inserted (resolveHash t) (Some p) y v res"
  shows "\<exists>res. insert_node (Suc g) t (ShortNode k n f) pre x (ValueNode v) = Inr res \<and>
    inserted (resolveHash t) (Some (Ext k p)) x v res"
proof -
  have k: "nibbles k" "k \<noteq> []" "is_branch p" using assms(2) by auto
  have re: "rep (resolveHash t) (ShortNode k n f) (Ext k p)" using assms(1) by (rule rep_Ext)
  have "hexkey k \<or> nibbles k" using k by simp
  with assms(3) show ?thesis
  proof (cases rule: key_cases)
    case (continues y)
    have y: "hexkey y" using assms(3) continues(1) hexkey_append[OF k(1)] by simp
    obtain d n' where sub1: "insert_node g t n (pre @ k) y (ValueNode v) = Inr (d, n')"
      "inserted (resolveHash t) (Some p) y v (d, n')" using assms(6)[OF continues(1) y, of "pre @ k"] by auto
    obtain p' where sub: "rep (resolveHash t) n' p'" "pwf p'" "plookup p' = (plookup p)(y \<mapsto> v)" "\<not> d \<longrightarrow> p = p'"
      "is_branch p'" using insertedE[OF sub1(2)] k(3) by (metis olookup_simps(2) option.inject)
    have pl: "plookup (Ext k p') = (plookup (Ext k p))(x \<mapsto> v)"
      by (simp add: plookup_Ext sub(3) shift_upd continues(1) del: plookup.simps)
    have "inserted (resolveHash t) (Some (Ext k p)) x v (d, if d then ShortNode k n' (newFlag t) else ShortNode k n f)"
      using re rep_Ext[OF sub(1)] pl sub k by (intro insertedI[of _ _ "Ext k p'"]) (auto simp del: plookup.simps)
    then show ?thesis using continues sub1(1) k(2) by (auto simp: Let_def split: if_splits)
  next
    case (parts q a xs b ks)
    show ?thesis unfolding parts(1,2)
      using insert_parting[of t q b ks n f "Ext k p" a xs v g pre] assms parts re by auto
  qed
qed

lemma branch_grows:
  assumes "pwf (Branch ps u)" "branch_ok ps' u'" "\<And>c. entry ps u c \<Longrightarrow> entry ps' u' c"
  shows "pwf (Branch ps' u')"
  using assms(1) by (rule pwf_BranchE) (use assms(2,3) branch_ok_pwf in blast)

lemma pwf_branch_ok: "pwf (Branch ps u) \<Longrightarrow> branch_ok ps u"
  using pwf_BranchD[of ps u] by (auto simp: branch_ok_def)

lemma insert_Branch_value:
  assumes "repb (resolveHash t) cs ps u" "pwf (Branch ps u)" "v \<noteq> []" "0 < g"
  shows "\<exists>res. insert_node (Suc g) t (FullNode cs f) pre [16] (ValueNode v) = Inr res \<and>
    inserted (resolveHash t) (Some (Branch ps u)) [16] v res"
proof -
  note len = pwf_BranchD(1)[OF assms(2)]
  have e: "entry ps u c \<Longrightarrow> entry ps (Some v) c" for c by (simp add: entry_def split: if_splits)
  have w: "pwf (Branch ps (Some v))"
    using pwf_branch_ok[OF assms(2)] assms(3) e by (intro branch_grows[OF assms(2)]) (auto simp: branch_ok_def)
  have rv: "rep (resolveHash t) (FullNode (cs[16 := ValueNode v]) f') (Branch ps (Some v))" for f'
    using repb_value[OF assms(1), of "Some v"] by (auto simp: rep_Full value_node_def)
  have "inserted (resolveHash t) (Some (Branch ps u)) [16] v
      (u \<noteq> Some v, if u \<noteq> Some v then FullNode (cs[16 := ValueNode v]) (newFlag t) else FullNode cs f)"
    using rv w plookup_Branch_value[OF len, of "Some v" u] assms(1)
    by (intro insertedI[of _ _ "Branch ps (Some v)"]) (auto simp: rep_Full)
  then show ?thesis
    using insert_value[OF assms(4), of t u] repb_entry(2)[OF assms(1)] assms(1)
    by (cases "u = Some v") (auto simp: set_child_def repb_def)
qed

lemma insert_Branch_child:
  assumes "repb (resolveHash t) cs ps u" "pwf (Branch ps u)" "c < 16"
    "insert_node g t (cs ! unat c) (pre @ [c]) y (ValueNode v) = Inr (d, n)"
    "inserted (resolveHash t) (ps ! unat c) y v (d, n)"
  shows "\<exists>res. insert_node (Suc g) t (FullNode cs f) pre (c # y) (ValueNode v) = Inr res \<and>
    inserted (resolveHash t) (Some (Branch ps u)) (c # y) v res"
proof -
  note len = pwf_BranchD(1)[OF assms(2)]
  have i: "unat c < 17" "length cs = 17" using assms(1,3) by (auto simp: word_less_nat_alt repb_def)
  obtain q where q: "rep (resolveHash t) n q" "pwf q" "plookup q = (olookup (ps ! unat c))(y \<mapsto> v)"
    "\<not> d \<longrightarrow> ps ! unat c = Some q" by (rule insertedE[OF assms(5)])
  let ?ps = "ps[unat c := Some q]"
  have w: "pwf (Branch ?ps u)"
    using branch_ok_child[OF pwf_branch_ok[OF assms(2)], of "Some q"] q(2) entry_upd(1)[OF len assms(3)]
    by (intro branch_grows[OF assms(2)]) auto
  have pl: "plookup (Branch ?ps u) = (plookup (Branch ps u))(c # y \<mapsto> v)"
    using plookup_Branch_child[OF len assms(3), of "Some q" y "Some v" u] q(3) by simp
  have same: "\<not> d \<Longrightarrow> ?ps = ps" using q(4) by (metis list_update_id)
  have "rep (resolveHash t) (FullNode (cs[unat c := n]) f') (Branch ?ps u)" for f'
    using repb_child[OF assms(1,3), of n "Some q"] q(1) by (auto simp: rep_Full)
  then have "inserted (resolveHash t) (Some (Branch ps u)) (c # y) v
      (d, if d then FullNode (cs[unat c := n]) (newFlag t) else FullNode cs f)"
    using w pl same assms(1) by (intro insertedI[of _ _ "Branch ?ps u"]) (auto simp: rep_Full)
  then show ?thesis
    using assms(4) repb_entry(1)[OF assms(1,3)] i by (cases d) (auto simp: set_child_def)
qed

lemma insert_Branch:
  assumes "repb (resolveHash t) cs ps u" "pwf (Branch ps u)" "hexkey x" "v \<noteq> []" "0 < g"
    and "\<And>c y p pre. x = c # y \<Longrightarrow> c < 16 \<Longrightarrow> hexkey y \<Longrightarrow> ps ! unat c = Some p \<Longrightarrow>
      \<exists>res. insert_node g t (cs ! unat c) pre y (ValueNode v) = Inr res \<and> inserted (resolveHash t) (Some p) y v res"
  shows "\<exists>res. insert_node (Suc g) t (FullNode cs f) pre x (ValueNode v) = Inr res \<and>
    inserted (resolveHash t) (Some (Branch ps u)) x v res"
proof -
  obtain c y where x: "x = c # y" using assms(3) by (cases x) auto
  consider "c = 16" "y = []" | "c < 16" "hexkey y" using assms(3) x by auto
  then show ?thesis
  proof cases
    case 1
    then show ?thesis using insert_Branch_value[OF assms(1,2,4,5)] x by simp
  next
    case 2
    have "\<exists>d n. insert_node g t (cs ! unat c) (pre @ [c]) y (ValueNode v) = Inr (d, n) \<and>
        inserted (resolveHash t) (ps ! unat c) y v (d, n)"
    proof (cases "ps ! unat c")
      case None
      then have "cs ! unat c = NilNode" using repb_entry(3)[OF assms(1) 2(1)] by simp
      moreover have "inserted (resolveHash t) None y v (True, nshort t y (ValueNode v))"
        using 2(2) assms(4) by (intro insertedI[of _ _ "Leaf y v"]) (auto simp: nshort_def fun_eq_iff intro: rep_Leaf)
      ultimately show ?thesis using insert_Nil[OF assms(5)] None by auto
    next
      case (Some p)
      then show ?thesis using assms(6)[OF x 2 Some, of "pre @ [c]"] by auto
    qed
    then show ?thesis using insert_Branch_child[OF assms(1,2) 2(1)] x by blast
  qed
qed

lemma insert_rep:
  assumes "rep (resolveHash t) n p" "pwf p" "hexkey x" "v \<noteq> []" "2 * length x + 1 + cost n \<le> fuel"
  shows "\<exists>res. insert_node fuel t n pre x (ValueNode v) = Inr res \<and> inserted (resolveHash t) (Some p) x v res"
  using assms
proof (induction arbitrary: x fuel pre rule: rep.induct)
  case (rep_Leaf k w f)
  obtain g where g: "fuel = Suc g" "0 < g" using rep_Leaf.prems by (cases fuel) (auto simp: hexkey_def)
  show ?case unfolding g(1) using insert_Leaf[OF rep_Leaf.prems(1-3) g(2)] .
next
  case (rep_Ext n p k f)
  obtain g where g: "fuel = Suc g" "0 < g" using rep_Ext.prems by (cases fuel) (auto simp: hexkey_def)
  have "\<exists>res. insert_node g t n pre y (ValueNode v) = Inr res \<and> inserted (resolveHash t) (Some p) y v res"
    if "x = k @ y" "hexkey y" for y pre
    using rep_Ext.prems that g cost_simps(6)[of n] by (intro rep_Ext.IH) (cases k; auto)+
  then show ?case unfolding g(1) using insert_Ext[OF rep_Ext.hyps rep_Ext.prems(1-3) g(2)] by blast
next
  case (rep_Branch cs ps u f)
  obtain g where g: "fuel = Suc g" "0 < g" using rep_Branch.prems by (cases fuel) (auto simp: hexkey_def)
  note rb = rep_repb[OF rep_Branch.hyps(1-4) rep_Branch.hyps(5)]
  have "\<exists>res. insert_node g t (cs ! unat c) pre y (ValueNode v) = Inr res \<and> inserted (resolveHash t) (Some p) y v res"
    if "x = c # y" "c < 16" "hexkey y" "ps ! unat c = Some p" for c y p pre
    using rep_Branch.prems that g cost_simps(6)[of "cs ! unat c"] pwf_BranchD(2)[OF rep_Branch.prems(1), of "unat c" p]
    by (intro rep_Branch.IH) (auto simp: word_less_nat_alt)
  then show ?case unfolding g(1) using insert_Branch[OF rb rep_Branch.prems(1-3) g(2)] by blast
next
  case (rep_Hash h n p)
  obtain g where g: "fuel = Suc g" using rep_Hash.prems by (cases fuel) auto
  have "cost n = 0" using rep_Hash.hyps(2) by (cases n) auto
  then obtain d n' where sub: "insert_node g t n pre x (ValueNode v) = Inr (d, n')" "inserted (resolveHash t) (Some p) x v (d, n')"
    using rep_Hash.IH[of x g pre] rep_Hash.prems g by auto
  then have "inserted (resolveHash t) (Some p) x v (if d then (True, n') else (False, n))"
    using rep_Hash.hyps(3) by (auto simp: inserted_def)
  then show ?case using g sub(1) rep_Hash.hyps(1) rep_Hash.prems(2) by (auto simp: hexkey_def)
qed

subsection \<open>Deletion\<close>

definition deleted :: "(byte list \<Rightarrow> byte list \<Rightarrow> trie_error + tnode) \<Rightarrow> ptree option \<Rightarrow> byte list \<Rightarrow> bool \<times> tnode \<Rightarrow> bool" where
  "deleted r po x res \<longleftrightarrow> (\<exists>po'. repo r (snd res) po' \<and> pred_option pwf po' \<and> olookup po' = (olookup po)(x := None) \<and>
     (\<not> fst res \<longrightarrow> po' = po) \<and> (fst res \<longrightarrow> cost (snd res) = 0))"

lemma deletedI:
  "repo r n po' \<Longrightarrow> pred_option pwf po' \<Longrightarrow> olookup po' = (olookup po)(x := None) \<Longrightarrow> (\<not> d \<Longrightarrow> po' = po) \<Longrightarrow>
   (d \<Longrightarrow> cost n = 0) \<Longrightarrow> deleted r po x (d, n)"
  by (auto simp: deleted_def)

lemma deletedE:
  assumes "deleted r po x (d, n)"
  obtains po' where "repo r n po'" "pred_option pwf po'" "olookup po' = (olookup po)(x := None)" "\<not> d \<longrightarrow> po' = po"
    "d \<longrightarrow> cost n = 0"
  using assms unfolding deleted_def fst_conv snd_conv by blast

text \<open>What was not there need not be removed.\<close>

lemma deleted_same:
  assumes "repo r n po" "pred_option pwf po" "olookup po x = None"
  shows "deleted r po x (False, n)"
  using assms by (intro deletedI[of r n po]) auto

text \<open>A key in front of a node: short nodes are merged.\<close>

definition merge_short :: "byte list \<Rightarrow> tnode \<Rightarrow> tnode \<Rightarrow> node_flag \<Rightarrow> tnode" where
  "merge_short k n c fl = (case c of ShortNode k' val' _ \<Rightarrow> ShortNode (k @ k') val' fl | _ \<Rightarrow> ShortNode k n fl)"

lemma rep_merge:
  assumes "rep r c p" "cost c = 0" "rep r n p" "k \<noteq> []"
  shows "rep r (merge_short k n c fl) (mkExt k p)"
  using assms(1)
proof (cases rule: rep.cases)
  case (rep_Leaf l v f)
  then show ?thesis using assms(4) by (auto simp: merge_short_def mkExt_def intro: rep.rep_Leaf)
next
  case (rep_Ext m q l f)
  then show ?thesis using assms(4) by (auto simp: merge_short_def mkExt_def intro: rep.rep_Ext)
next
  case (rep_Branch cs ps v f)
  then show ?thesis using assms(3,4) by (auto simp: merge_short_def mkExt_def intro: rep.rep_Ext)
next
  case (rep_Hash h m)
  then show ?thesis using assms(2) by simp
qed

lemma cost_merge [simp]: "cost (merge_short k n c fl) = 0"
  by (simp add: merge_short_def split: tnode.split)

lemma delete_value: "0 < g \<Longrightarrow> delete_node g t (value_node u) pre [] = Inr (u \<noteq> None, NilNode)"
  by (cases g) (auto simp: value_node_def split: option.split)

lemma delete_Nil: "0 < g \<Longrightarrow> delete_node g t NilNode pre key = Inr (False, NilNode)"
  by (cases g) auto

lemma delete_Leaf:
  assumes "pwf (Leaf k w)" "hexkey x"
  shows "\<exists>res. delete_node (Suc g) t (ShortNode k (ValueNode w) f) pre x = Inr res \<and>
    deleted (resolveHash t) (Some (Leaf k w)) x res"
proof -
  have k: "hexkey k" using assms(1) by simp
  have rl: "repo (resolveHash t) (ShortNode k (ValueNode w) f) (Some (Leaf k w))" by (simp add: rep_Leaf)
  have "hexkey k \<or> nibbles k" using k by simp
  with assms(2) show ?thesis
  proof (cases rule: key_cases)
    case (continues y)
    then have x: "x = k" using hexkey_prefix_free[OF k, of y] assms(2) by auto
    have "deleted (resolveHash t) (Some (Leaf k w)) k (True, NilNode)"
      by (rule deletedI[of _ _ None]) (auto simp: fun_eq_iff)
    then show ?thesis using x continues(2) by (auto simp: Let_def)
  next
    case (parts q a xs b ks)
    then have "x \<noteq> k" "prefixLen x k < length k" by auto
    then show ?thesis using deleted_same[OF rl, of x] assms(1) by (auto simp: Let_def)
  qed
qed

lemma branch_not_emptied:
  assumes "pwf (Branch ps u)" "olookup po = (plookup (Branch ps u))(x := None)"
  obtains p where "po = Some p"
proof -
  obtain a y b z where "a \<noteq> b" "plookup (Branch ps u) (a # y) \<noteq> None" "plookup (Branch ps u) (b # z) \<noteq> None"
    by (rule branch_two[OF assms(1)])
  then have "\<exists>w. olookup po w \<noteq> None" unfolding assms(2) by (metis fun_upd_apply list.inject)
  then show ?thesis using that by (cases po) auto
qed

lemma delete_Ext:
  assumes "rep (resolveHash t) n p" "pwf (Ext k p)" "hexkey x"
    and "\<And>y pre. x = k @ y \<Longrightarrow> hexkey y \<Longrightarrow>
      \<exists>res. delete_node g t n pre y = Inr res \<and> deleted (resolveHash t) (Some p) y res"
  shows "\<exists>res. delete_node (Suc g) t (ShortNode k n f) pre x = Inr res \<and>
    deleted (resolveHash t) (Some (Ext k p)) x res"
proof -
  have k: "nibbles k" "k \<noteq> []" "is_branch p" "pwf p" using assms(2) by auto
  have re: "repo (resolveHash t) (ShortNode k n f) (Some (Ext k p))" using assms(1) by (simp add: rep_Ext)
  have "hexkey k \<or> nibbles k" using k by simp
  with assms(3) show ?thesis
  proof (cases rule: key_cases)
    case (continues y)
    have y: "hexkey y" "y \<noteq> []" using assms(3) continues(1) hexkey_append[OF k(1)] by auto
    obtain d c where sub1: "delete_node g t n (pre @ k) y = Inr (d, c)" "deleted (resolveHash t) (Some p) y (d, c)"
      using assms(4)[OF continues(1) y(1), of "pre @ k"] by auto
    obtain po' where sub: "repo (resolveHash t) c po'" "pred_option pwf po'" "olookup po' = (plookup p)(y := None)"
      "\<not> d \<longrightarrow> po' = Some p" "d \<longrightarrow> cost c = 0" using deletedE[OF sub1(2)] by auto
    obtain p' where p': "po' = Some p'" using branch_not_emptied[of _ _ po' y] k(3,4) sub(3) by (metis is_branchE)
    have pl: "plookup (mkExt k p') = (plookup (Ext k p))(x := None)"
      using sub(3) by (simp add: p' plookup_mkExt plookup_Ext shift_upd continues(1) del: plookup.simps)
    have same: "\<not> d \<Longrightarrow> mkExt k p' = Ext k p" using sub(4) p' k(2,3) by (auto simp: mkExt_def elim: is_branchE)
    have "deleted (resolveHash t) (Some (Ext k p)) x (d, if d then merge_short k c c (newFlag t) else ShortNode k n f)"
      using re rep_merge[of "resolveHash t" c p' c k] sub p' pl same k(2) pwf_mkExt[OF k(1), of p']
      by (intro deletedI[of _ _ "Some (mkExt k p')"]) (auto simp del: plookup.simps)
    then show ?thesis
      using continues sub1(1) k(2) y(2) by (auto simp: Let_def merge_short_def split: if_splits tnode.splits)
  next
    case (parts q a xs b ks)
    then have "prefixLen x k < length k" "\<nexists>y. x = k @ y" by auto
    then show ?thesis
      using deleted_same[OF re, of x] assms(2) shift_outside[of x k "plookup p"]
      by (auto simp: Let_def plookup_Ext simp del: plookup.simps)
  qed
qed

lemma repb_nonnil:
  assumes "repb r cs ps u" "i < 17"
  shows "cs ! i \<noteq> NilNode \<longleftrightarrow> entry ps u (of_nat i)"
proof (cases "i = 16")
  case True
  then show ?thesis using assms(1) by (auto simp: repb_def entry_def value_node_def split: option.split)
next
  case False
  then have i: "i < 16" "unat (of_nat i :: byte) = i" using assms(2) unat_of_nat_byte[of i] by auto
  then have "(of_nat i :: byte) \<noteq> 16" by (auto simp: word_unat_eq_iff)
  then show ?thesis using assms(1) i by (cases "ps ! i") (auto simp: repb_def entry_def repo_def split: option.splits)
qed

lemma onlyChild_Some: "onlyChild cs = Some i \<Longrightarrow> i < length cs \<and> (\<forall>j < length cs. cs ! j \<noteq> NilNode \<longleftrightarrow> j = i)"
proof -
  assume "onlyChild cs = Some i"
  then have "filter (\<lambda>i. cs ! i \<noteq> NilNode) [0..<length cs] = [i]"
    by (auto simp: onlyChild_def split: list.splits)
  from arg_cong[OF this, of set] show ?thesis by auto
qed

lemma onlyChild_None:
  assumes "onlyChild cs = None" "i < length cs" "cs ! i \<noteq> NilNode"
  obtains a b where "a \<noteq> b" "a < length cs" "b < length cs" "cs ! a \<noteq> NilNode" "cs ! b \<noteq> NilNode"
proof -
  let ?f = "filter (\<lambda>i. cs ! i \<noteq> NilNode) [0..<length cs]"
  have "i \<in> set ?f" using assms(2,3) by simp
  then obtain a g where g: "?f = a # g" by (cases ?f) auto
  then obtain b r where f: "?f = a # b # r" using assms(1) by (cases g) (auto simp: onlyChild_def)
  then have "a \<in> set ?f" "b \<in> set ?f" by simp_all
  moreover have "a \<noteq> b" using f distinct_filter[OF distinct_upt, of "\<lambda>i. cs ! i \<noteq> NilNode" 0 "length cs"] by auto
  ultimately show ?thesis using that[of a b] by auto
qed

lemma rep_resolve:
  assumes "rep (resolveHash t) n p"
  obtains c where "resolve t n pre = Inr c" "rep (resolveHash t) c p" "cost c = 0"
  using assms
proof (cases rule: rep.cases)
  case (rep_Hash h m)
  moreover have "cost m = 0" using rep_Hash(3) by (cases m) auto
  ultimately show ?thesis using that[of m] by (simp add: resolve_def)
qed (use that[of n] assms in \<open>auto simp: resolve_def\<close>)

text \<open>What is left of a branch from which an entry was taken.\<close>

definition reduce :: "trie \<Rightarrow> byte list \<Rightarrow> tnode list \<Rightarrow> trie_error + (bool \<times> tnode)" where
  "reduce t prefix cs = (case onlyChild cs of
      None \<Rightarrow> Inr (True, FullNode cs (newFlag t))
    | Some pos \<Rightarrow>
        if pos \<noteq> 16
        then bind_res (resolve t (cs ! pos) prefix) (\<lambda>cnode. Inr (True, merge_short [of_nat pos] (cs ! pos) cnode (newFlag t)))
        else Inr (True, ShortNode [of_nat pos] (cs ! pos) (newFlag t)))"

lemma delete_Full:
  "delete_node (Suc f) t (FullNode cs fl) prefix (c # y) =
    bind_res (child cs c) (\<lambda>n. bind_res (delete_node f t n (prefix @ [c]) y) (\<lambda>(dirty, nn).
      if \<not> dirty then Inr (False, FullNode cs fl) else bind_res (set_child cs c nn) (reduce t prefix)))"
  by (auto simp: reduce_def merge_short_def fun_eq_iff split: option.split tnode.split
      intro!: arg_cong[where f = "bind_res _"])

lemma single_child:
  assumes "length ps = 16" "i < 16" "\<And>c. entry ps u c \<longleftrightarrow> c = of_nat i" "ps ! i = Some p"
  shows "plookup (Branch ps u) = shift [of_nat i] (plookup p)"
proof
  fix x
  have n: "unat (of_nat i :: byte) = i" "(of_nat i :: byte) < 16" "(of_nat i :: byte) \<noteq> 16"
    using assms(2) unat_of_nat_byte[of i] by (auto simp: word_less_nat_alt word_unat_eq_iff)
  have u: "u = None" using assms(3)[of 16] n(3) by (auto simp: entry_def)
  have e: "c < 16 \<Longrightarrow> c \<noteq> of_nat i \<Longrightarrow> ps ! unat c = None" for c :: byte
    using assms(1) assms(3)[of c] by (auto simp: entry_def word_less_nat_alt split: if_splits)
  show "plookup (Branch ps u) x = shift [of_nat i] (plookup p) x"
  proof (cases x)
    case (Cons c y)
    then show ?thesis using assms(1,4) n u e[of c] by (cases "c = of_nat i") (auto simp: plookup_Branch shift_def)
  qed (simp add: shift_def)
qed

lemma single_value:
  assumes "length ps = 16" "\<And>c. entry ps (Some w) c \<longleftrightarrow> c = 16"
  shows "plookup (Branch ps (Some w)) = plookup (Leaf [16] w)"
proof
  fix x
  have e: "c < 16 \<Longrightarrow> ps ! unat c = None" for c :: byte
    using assms(1) assms(2)[of c] by (auto simp: entry_def word_less_nat_alt split: if_splits)
  show "plookup (Branch ps (Some w)) x = plookup (Leaf [16] w) x"
    using assms(1) e by (cases x) (auto simp: plookup_Branch)
qed

definition reduced :: "trie \<Rightarrow> ptree option list \<Rightarrow> byte list option \<Rightarrow> trie_error + (bool \<times> tnode) \<Rightarrow> bool" where
  "reduced t ps u res \<longleftrightarrow> (\<exists>n p. res = Inr (True, n) \<and> rep (resolveHash t) n p \<and> pwf p \<and> cost n = 0 \<and>
     plookup p = plookup (Branch ps u))"

lemma entry_index: "branch_ok ps u \<Longrightarrow> entry ps u e \<Longrightarrow> unat e < 17"
  by (auto simp: entry_def branch_ok_def split: if_splits)

lemma reduce_full:
  assumes "repb (resolveHash t) cs ps u" "branch_ok ps u" "entry ps u e" "onlyChild cs = None"
  shows "reduced t ps u (reduce t pre cs)"
proof -
  have len: "length cs = 17" using assms(1) by (simp add: repb_def)
  have ne: "unat e < length cs" "cs ! unat e \<noteq> NilNode"
    using repb_nonnil[OF assms(1) entry_index[OF assms(2,3)]] entry_index[OF assms(2,3)] assms(3) len by simp_all
  obtain a b where ab: "a \<noteq> b" "a < length cs" "b < length cs" "cs ! a \<noteq> NilNode" "cs ! b \<noteq> NilNode"
    by (rule onlyChild_None[OF assms(4) ne])
  have "unat (of_nat a :: byte) = a" "unat (of_nat b :: byte) = b" using ab len unat_of_nat_byte by simp_all
  then have "(of_nat a :: byte) \<noteq> of_nat b" using ab(1) by metis
  then have "pwf (Branch ps u)"
    using branch_ok_pwf[OF assms(2), of "of_nat a" "of_nat b"] repb_nonnil[OF assms(1)] ab len by simp
  then show ?thesis using assms(1,4) by (auto simp: reduced_def reduce_def rep_Full)
qed

lemma only_entry:
  assumes "repb r cs ps u" "branch_ok ps u" "onlyChild cs = Some i"
  shows "i < 17" "entry ps u c \<longleftrightarrow> c = of_nat i"
proof -
  have len: "length cs = 17" using assms(1) by (simp add: repb_def)
  note only = onlyChild_Some[OF assms(3)]
  show "i < 17" using only len by simp
  show "entry ps u c \<longleftrightarrow> c = of_nat i"
  proof (cases "unat c < 17")
    case True
    then show ?thesis using repb_nonnil[OF assms(1) True] only len unat_of_nat_byte[of i] by (auto simp: word_unat_eq_iff)
  next
    case False
    then show ?thesis
      using only len unat_of_nat_byte[of i] entry_index[OF assms(2), of c] by (auto simp: word_unat_eq_iff)
  qed
qed

lemma reduce_value:
  assumes "repb (resolveHash t) cs ps u" "branch_ok ps u" "onlyChild cs = Some 16"
  shows "reduced t ps u (reduce t pre cs)"
proof -
  note ent = only_entry(2)[OF assms]
  obtain w where w: "u = Some w" using ent[of 16] by (auto simp: entry_def)
  have "cs ! 16 = ValueNode w" "length ps = 16" "w \<noteq> []" using assms(1,2) w by (auto simp: repb_def value_node_def branch_ok_def)
  then show ?thesis
    using assms(3) w ent single_value[of ps w] rep_Leaf[of "resolveHash t" "[16]" w]
    by (auto simp: reduced_def reduce_def simp del: plookup.simps intro!: exI[of _ "Leaf [16] w"])
qed

lemma reduce_child:
  assumes "repb (resolveHash t) cs ps u" "branch_ok ps u" "onlyChild cs = Some i" "i < 16"
  shows "reduced t ps u (reduce t pre cs)"
proof -
  have len: "length ps = 16" using assms(1) by (simp add: repb_def)
  have b: "(of_nat i :: byte) < 16" using assms(4) unat_of_nat_byte[of i] by (simp add: word_less_nat_alt)
  have "cs ! i \<noteq> NilNode" using repb_nonnil[OF assms(1), of i] only_entry(2)[OF assms(1-3)] assms(4) by simp
  then obtain p where p: "ps ! i = Some p" "rep (resolveHash t) (cs ! i) p"
    using assms(1,4) by (cases "ps ! i") (auto simp: repb_def)
  obtain c where c: "resolve t (cs ! i) pre = Inr c" "rep (resolveHash t) c p" "cost c = 0" by (rule rep_resolve[OF p(2)])
  have "pwf p" using assms(2,4) p(1) by (auto simp: branch_ok_def)
  then have "pwf (mkExt [of_nat i] p)" using b by (intro pwf_mkExt) auto
  moreover have "plookup (mkExt [of_nat i] p) = plookup (Branch ps u)"
    using single_child[OF len assms(4) only_entry(2)[OF assms(1-3)] p(1)] by (simp add: plookup_mkExt)
  ultimately show ?thesis
    using rep_merge[OF c(2,3) p(2), of "[of_nat i]" "newFlag t"] c(1) assms(3,4) by (auto simp: reduced_def reduce_def)
qed

lemma reduce_rep:
  assumes "repb (resolveHash t) cs ps u" "branch_ok ps u" "entry ps u e"
  shows "reduced t ps u (reduce t pre cs)"
proof (cases "onlyChild cs")
  case None
  then show ?thesis by (rule reduce_full[OF assms])
next
  case (Some i)
  then consider "i = 16" | "i < 16" using only_entry(1)[OF assms(1,2)] by fastforce
  then show ?thesis using reduce_value[OF assms(1,2)] reduce_child[OF assms(1,2)] Some by cases auto
qed

lemma another_entry:
  assumes "pwf (Branch ps u)"
  obtains e where "entry ps u e" "e \<noteq> c"
  using assms by (metis pwf_BranchE)

lemma delete_Branch_reduced:
  assumes "repb (resolveHash t) cs' ps' u'" "branch_ok ps' u'" "entry ps' u' e"
    "plookup (Branch ps' u') = (plookup (Branch ps u))(x := None)"
  shows "\<exists>res. reduce t pre cs' = Inr res \<and> deleted (resolveHash t) (Some (Branch ps u)) x res"
proof -
  obtain n p where "reduce t pre cs' = Inr (True, n)" "rep (resolveHash t) n p" "pwf p" "cost n = 0"
    "plookup p = plookup (Branch ps' u')" using reduce_rep[OF assms(1-3), of pre] unfolding reduced_def by blast
  then show ?thesis using assms(4) by (auto intro!: deletedI[of _ _ "Some p"])
qed

lemma delete_Branch:
  assumes "repb (resolveHash t) cs ps u" "pwf (Branch ps u)" "hexkey x" "0 < g"
    and "\<And>c y p pre. x = c # y \<Longrightarrow> c < 16 \<Longrightarrow> hexkey y \<Longrightarrow> ps ! unat c = Some p \<Longrightarrow>
      \<exists>res. delete_node g t (cs ! unat c) pre y = Inr res \<and> deleted (resolveHash t) (Some p) y res"
  shows "\<exists>res. delete_node (Suc g) t (FullNode cs f) pre x = Inr res \<and>
    deleted (resolveHash t) (Some (Branch ps u)) x res"
proof -
  note len = pwf_BranchD(1)[OF assms(2)] and ok = pwf_branch_ok[OF assms(2)]
  obtain c y where x: "x = c # y" using assms(3) by (cases x) auto
  obtain e where e: "entry ps u e" "e \<noteq> c" by (rule another_entry[OF assms(2)])
  have l17: "length cs = 17" using assms(1) by (simp add: repb_def)
  have rf: "repo (resolveHash t) (FullNode cs f) (Some (Branch ps u))" using assms(1) by (auto simp: rep_Full)
  consider "c = 16" "y = []" | "c < 16" "hexkey y" using assms(3) x by auto
  then show ?thesis
  proof cases
    case 1
    have rb: "repb (resolveHash t) (cs[16 := NilNode]) ps None" using repb_value[OF assms(1), of None] by (simp add: value_node_def)
    have "branch_ok ps None" "entry ps None e" using ok e 1 by (auto simp: branch_ok_def entry_def)
    from delete_Branch_reduced[OF rb this plookup_Branch_value[OF len, of None u], where pre = pre] show ?thesis
      using delete_value[OF assms(4), of t u] repb_entry(2)[OF assms(1)] 1 x l17 deleted_same[OF rf, of x] assms(2) len
      by (cases "u = None") (auto simp: delete_Full set_child_def plookup_Branch simp del: delete_node.simps)
  next
    case 2
    have "\<exists>d n. delete_node g t (cs ! unat c) (pre @ [c]) y = Inr (d, n) \<and> deleted (resolveHash t) (ps ! unat c) y (d, n)"
      using assms(5)[OF x 2, of _ "pre @ [c]"] repb_entry(3)[OF assms(1) 2(1)] delete_Nil[OF assms(4)]
        deleted_same[of "resolveHash t" NilNode None y] by (cases "ps ! unat c") fastforce+
    then obtain d n where sub1: "delete_node g t (cs ! unat c) (pre @ [c]) y = Inr (d, n)"
      "deleted (resolveHash t) (ps ! unat c) y (d, n)" by blast
    obtain po where po: "repo (resolveHash t) n po" "pred_option pwf po" "olookup po = (olookup (ps ! unat c))(y := None)"
      "\<not> d \<longrightarrow> po = ps ! unat c" by (rule deletedE[OF sub1(2)])
    have pl: "plookup (Branch (ps[unat c := po]) u) = (plookup (Branch ps u))(x := None)"
      using plookup_Branch_child[OF len 2(1) po(3)] x by simp
    have ok': "branch_ok (ps[unat c := po]) u" "entry (ps[unat c := po]) u e"
      using branch_ok_child[OF ok, of po "unat c"] po(2) entry_upd(1)[OF len 2(1)] e by (cases po; simp)+
    note red = delete_Branch_reduced[OF repb_child[OF assms(1) 2(1) po(1)] ok' pl, where pre = pre]
    have i: "unat c < 17" using 2(1) by (simp add: word_less_nat_alt)
    show ?thesis
    proof (cases d)
      case True
      then show ?thesis using red sub1(1) repb_entry(1)[OF assms(1) 2(1)] i l17 x by (simp add: delete_Full set_child_def del: delete_node.simps)
    next
      case False
      then have "ps[unat c := po] = ps" using po(4) by simp
      then have "plookup (Branch ps u) x = None" using pl by (metis fun_upd_same)
      then show ?thesis
        using False deleted_same[OF rf, of x] assms(2) sub1(1) repb_entry(1)[OF assms(1) 2(1)] x by (simp add: delete_Full del: delete_node.simps)
    qed
  qed
qed

lemma delete_rep:
  assumes "rep (resolveHash t) n p" "pwf p" "hexkey x" "2 * length x + 1 + cost n \<le> fuel"
  shows "\<exists>res. delete_node fuel t n pre x = Inr res \<and> deleted (resolveHash t) (Some p) x res"
  using assms
proof (induction arbitrary: x fuel pre rule: rep.induct)
  case (rep_Leaf k w f)
  obtain g where g: "fuel = Suc g" using rep_Leaf.prems by (cases fuel) auto
  show ?case unfolding g using delete_Leaf[OF rep_Leaf.prems(1,2)] .
next
  case (rep_Ext n p k f)
  obtain g where g: "fuel = Suc g" using rep_Ext.prems by (cases fuel) auto
  have "\<exists>res. delete_node g t n pre y = Inr res \<and> deleted (resolveHash t) (Some p) y res"
    if "x = k @ y" "hexkey y" for y pre
    using rep_Ext.prems that g cost_simps(6)[of n] by (intro rep_Ext.IH) (cases k; auto)+
  then show ?case unfolding g using delete_Ext[OF rep_Ext.hyps rep_Ext.prems(1,2)] by blast
next
  case (rep_Branch cs ps u f)
  obtain g where g: "fuel = Suc g" "0 < g" using rep_Branch.prems by (cases fuel) (auto simp: hexkey_def)
  note rb = rep_repb[OF rep_Branch.hyps(1-4) rep_Branch.hyps(5)]
  have "\<exists>res. delete_node g t (cs ! unat c) pre y = Inr res \<and> deleted (resolveHash t) (Some p) y res"
    if "x = c # y" "c < 16" "hexkey y" "ps ! unat c = Some p" for c y p pre
    using rep_Branch.prems that g cost_simps(6)[of "cs ! unat c"] pwf_BranchD(2)[OF rep_Branch.prems(1), of "unat c" p]
    by (intro rep_Branch.IH) (auto simp: word_less_nat_alt)
  then show ?case unfolding g(1) using delete_Branch[OF rb rep_Branch.prems(1,2) g(2)] by blast
next
  case (rep_Hash h n p)
  obtain g where g: "fuel = Suc g" using rep_Hash.prems by (cases fuel) auto
  have "cost n = 0" using rep_Hash.hyps(2) by (cases n) auto
  then obtain d n' where sub: "delete_node g t n pre x = Inr (d, n')" "deleted (resolveHash t) (Some p) x (d, n')"
    using rep_Hash.IH[of x g pre] rep_Hash.prems g by auto
  then have "deleted (resolveHash t) (Some p) x (if d then (True, n') else (False, n))"
    using rep_Hash.hyps(3) by (auto simp: deleted_def)
  then show ?case using g sub(1) rep_Hash.hyps(1) by auto
qed

subsection \<open>Key-value stores\<close>

text \<open>
  What a user of a trie relies on: lookups return what the map has, updates change the map, an update with
  what \<open>val\<close> takes for nothing deletes, and none of them fails.
\<close>

locale key_value_store =
  fixes models :: "'t \<Rightarrow> ('k \<Rightarrow> 'v option) \<Rightarrow> bool"
    and get :: "'t \<Rightarrow> 'k \<Rightarrow> 'e + ('v option \<times> 't)"
    and put :: "'t \<Rightarrow> 'k \<Rightarrow> 'w \<Rightarrow> 'e + 't"
    and val :: "'w \<Rightarrow> 'v option"
  assumes get_ok: "models t m \<Longrightarrow> \<exists>t'. get t k = Inr (m k, t') \<and> models t' m"
    and put_ok: "models t m \<Longrightarrow> \<exists>t'. put t k w = Inr t' \<and> models t' (m(k := val w))"
begin

lemma puts_ok:
  "models t m \<Longrightarrow> \<exists>t'. foldM (\<lambda>t kw. put t (fst kw) (snd kw)) t kws = Inr t' \<and>
     models t' (foldl (\<lambda>m kw. m(fst kw := val (snd kw))) m kws)"
proof (induction kws arbitrary: t m)
  case Nil
  then show ?case by simp
next
  case (Cons kw kws)
  obtain t1 where t1: "put t (fst kw) (snd kw) = Inr t1" "models t1 (m(fst kw := val (snd kw)))"
    using put_ok[OF Cons.prems] by blast
  show ?case using Cons.IH[OF t1(2)] unfolding foldM.simps foldl.simps t1(1) bind_res_simps .
qed

lemma get_after_puts:
  assumes "models t m"
  shows "\<exists>t1 t2. foldM (\<lambda>t kw. put t (fst kw) (snd kw)) t kws = Inr t1 \<and>
    get t1 k = Inr (foldl (\<lambda>m kw. m(fst kw := val (snd kw))) m kws k, t2)"
  using puts_ok[OF assms] get_ok by blast

end

definition trie_models :: "trie \<Rightarrow> (byte list \<Rightarrow> byte list option) \<Rightarrow> bool" where
  "trie_models t m \<longleftrightarrow> (\<exists>po. repo (resolveHash t) (T_root t) po \<and> pred_option pwf po \<and>
     (\<forall>k. olookup po (keybytesToHex k) = m k) \<and> (\<forall>x. olookup po x \<noteq> None \<longrightarrow> x \<in> range keybytesToHex))"

text \<open>Two calls for every nibble and its terminator, one for a node to load and one for the value.\<close>

definition trie_fuel :: "byte list \<Rightarrow> nat" where
  "trie_fuel key = 4 * length key + 4"

definition trie_value :: "byte list \<Rightarrow> byte list option" where
  "trie_value v = (if length v \<noteq> 0 then Some v else None)"

lemma length_keybytesToHex: "length (keybytesToHex key) = 2 * length key + 1"
  by (induction key) (simp_all add: keybytesToHex_eq)

lemma keybytesToHex_inject: "keybytesToHex a = keybytesToHex b \<longleftrightarrow> a = b"
  by (metis hexToKeybytes_keybytesToHex sum.inject(2))

lemma resolveHash_root [simp]: "resolveHash (t\<lparr>T_root := n\<rparr>) = resolveHash t"
  by (simp add: resolveHash_def fun_eq_iff Let_def split: option.split)

lemma trie_modelsI:
  assumes "repo (resolveHash t) n po'" "pred_option pwf po'" "olookup po' = (olookup po)(keybytesToHex key := w)"
    "\<forall>k. olookup po (keybytesToHex k) = m k" "\<forall>x. olookup po x \<noteq> None \<longrightarrow> x \<in> range keybytesToHex"
  shows "trie_models (t\<lparr>T_root := n\<rparr>) (m(key := w))"
  using assms unfolding trie_models_def by (intro exI[of _ po']) (auto simp: keybytesToHex_inject)

lemma trie_get:
  assumes "trie_models t m" "trie_fuel key \<le> fuel"
  shows "\<exists>t'. TryGet fuel t key = Inr (m key, t') \<and> trie_models t' m"
proof -
  obtain po where po: "repo (resolveHash t) (T_root t) po" "pred_option pwf po" "\<forall>k. olookup po (keybytesToHex k) = m k"
    "\<forall>x. olookup po x \<noteq> None \<longrightarrow> x \<in> range keybytesToHex" using assms(1) by (auto simp: trie_models_def)
  have "\<exists>n d. tryGet fuel t (T_root t) (keybytesToHex key) 0 = Inr (m key, n, d) \<and> repo (resolveHash t) n po"
  proof (cases po)
    case None
    then show ?thesis using po(1,3) assms(2) tryGet_Nil[of fuel t "keybytesToHex key" 0] by (auto simp: trie_fuel_def)
  next
    case (Some p)
    have "got t p (drop 0 (keybytesToHex key)) (tryGet fuel t (T_root t) (keybytesToHex key) 0)"
      using po(1,2) Some assms(2) keybytesToHex_hexkey[of key] cost_simps(6)[of "T_root t"]
      by (intro tryGet_rep) (simp_all add: length_keybytesToHex trie_fuel_def)
    then show ?thesis using po(3) Some by (auto simp: got_def)
  qed
  then obtain n d where n: "tryGet fuel t (T_root t) (keybytesToHex key) 0 = Inr (m key, n, d)" "repo (resolveHash t) n po"
    by blast
  then have "trie_models (t\<lparr>T_root := n\<rparr>) m" using po by (auto simp: trie_models_def)
  then show ?thesis using n(1) assms(1) by (auto simp: TryGet_def)
qed

lemma trie_insert:
  assumes "trie_models t m" "trie_fuel key \<le> fuel" "v \<noteq> []"
  shows "\<exists>d n. insert_node fuel t (T_root t) [] (keybytesToHex key) (ValueNode v) = Inr (d, n) \<and>
    trie_models (t\<lparr>T_root := n\<rparr>) (m(key \<mapsto> v))"
proof -
  let ?x = "keybytesToHex key"
  have x: "hexkey ?x" by (rule keybytesToHex_hexkey)
  obtain po where po: "repo (resolveHash t) (T_root t) po" "pred_option pwf po" "\<forall>k. olookup po (keybytesToHex k) = m k"
    "\<forall>x. olookup po x \<noteq> None \<longrightarrow> x \<in> range keybytesToHex" using assms(1) by (auto simp: trie_models_def)
  have "\<exists>d n. insert_node fuel t (T_root t) [] ?x (ValueNode v) = Inr (d, n) \<and> inserted (resolveHash t) po ?x v (d, n)"
  proof (cases po)
    case None
    have "inserted (resolveHash t) None ?x v (True, nshort t ?x (ValueNode v))"
      using x assms(3) by (intro insertedI[of _ _ "Leaf ?x v"]) (auto simp: nshort_def fun_eq_iff intro: rep_Leaf)
    then show ?thesis using None po(1) assms(2) insert_Nil[of fuel t "[]" ?x "ValueNode v"] by (auto simp: trie_fuel_def)
  next
    case (Some p)
    then show ?thesis
      using insert_rep[OF _ _ x assms(3), of t "T_root t" p fuel "[]"] po(1,2) assms(2) cost_simps(6)[of "T_root t"]
      by (auto simp: length_keybytesToHex trie_fuel_def)
  qed
  then obtain d n where n: "insert_node fuel t (T_root t) [] ?x (ValueNode v) = Inr (d, n)" "inserted (resolveHash t) po ?x v (d, n)"
    by blast
  obtain p' where "rep (resolveHash t) n p'" "pwf p'" "plookup p' = (olookup po)(?x \<mapsto> v)" by (rule insertedE[OF n(2)])
  then have "trie_models (t\<lparr>T_root := n\<rparr>) (m(key \<mapsto> v))" using po(3,4) by (intro trie_modelsI[of _ _ "Some p'" po]) auto
  then show ?thesis using n(1) by blast
qed

lemma trie_delete:
  assumes "trie_models t m" "trie_fuel key \<le> fuel"
  shows "\<exists>d n. delete_node fuel t (T_root t) [] (keybytesToHex key) = Inr (d, n) \<and>
    trie_models (t\<lparr>T_root := n\<rparr>) (m(key := None))"
proof -
  let ?x = "keybytesToHex key"
  obtain po where po: "repo (resolveHash t) (T_root t) po" "pred_option pwf po" "\<forall>k. olookup po (keybytesToHex k) = m k"
    "\<forall>x. olookup po x \<noteq> None \<longrightarrow> x \<in> range keybytesToHex" using assms(1) by (auto simp: trie_models_def)
  have "\<exists>d n. delete_node fuel t (T_root t) [] ?x = Inr (d, n) \<and> deleted (resolveHash t) po ?x (d, n)"
  proof (cases po)
    case None
    then show ?thesis
      using po(1) assms(2) delete_Nil[of fuel t "[]" ?x] deleted_same[of "resolveHash t" NilNode None ?x] by (auto simp: trie_fuel_def)
  next
    case (Some p)
    then show ?thesis
      using delete_rep[OF _ _ keybytesToHex_hexkey[of key], of t "T_root t" p fuel "[]"] po(1,2) assms(2) cost_simps(6)[of "T_root t"]
      by (auto simp: length_keybytesToHex trie_fuel_def)
  qed
  then obtain d n where n: "delete_node fuel t (T_root t) [] ?x = Inr (d, n)" "deleted (resolveHash t) po ?x (d, n)" by blast
  obtain po' where "repo (resolveHash t) n po'" "pred_option pwf po'" "olookup po' = (olookup po)(?x := None)"
    by (rule deletedE[OF n(2)])
  then have "trie_models (t\<lparr>T_root := n\<rparr>) (m(key := None))" using po(3,4) by (intro trie_modelsI[of _ _ po' po]) auto
  then show ?thesis using n(1) by blast
qed

lemma trie_update:
  assumes "trie_models t m" "trie_fuel key \<le> fuel"
  shows "\<exists>t'. TryUpdate fuel t key v = Inr t' \<and> trie_models t' (m(key := trie_value v))"
  using trie_insert[OF assms, of v] trie_delete[OF assms] by (cases v) (auto simp: TryUpdate_def trie_value_def)

interpretation trie_store: key_value_store trie_models "\<lambda>t k. TryGet (trie_fuel k) t k" "\<lambda>t k. TryUpdate (trie_fuel k) t k" trie_value
  by unfold_locales (use trie_get trie_update in blast)+

lemma otree_unique:
  assumes "pred_option pwf po" "pred_option pwf qo" "olookup po = olookup qo"
  shows "po = qo"
proof -
  have "po = None \<longleftrightarrow> (\<forall>x. olookup po x = None)" if "pred_option pwf po" for po
    using that pwf_nonempty by (cases po) fastforce+
  then have "po = None \<longleftrightarrow> qo = None" using assms by metis
  then show ?thesis using assms tree_unique by (cases po; cases qo) (auto simp del: plookup.simps)
qed

definition empty_trie :: "(hash \<Rightarrow> byte list option) \<Rightarrow> trie" where
  "empty_trie db = \<lparr>T_db = db, T_root = NilNode, cachegen = 0, cachelimit = 0\<rparr>"

lemma empty_trie_models: "trie_models (empty_trie db) Map.empty"
  by (auto simp: trie_models_def empty_trie_def intro!: exI[of _ None])

text \<open>The map after a sequence of updates: the last one for a key counts.\<close>

definition after_updates :: "(byte list \<Rightarrow> byte list option) \<Rightarrow> (byte list \<times> byte list) list \<Rightarrow> byte list \<Rightarrow> byte list option" where
  "after_updates m kws key = (case map_of (rev kws) key of None \<Rightarrow> m key | Some v \<Rightarrow> trie_value v)"

lemma foldl_updates: "foldl (\<lambda>m kw. m(fst kw := trie_value (snd kw))) m kws = after_updates m kws"
proof
  fix key
  show "foldl (\<lambda>m kw. m(fst kw := trie_value (snd kw))) m kws key = after_updates m kws key"
    by (induction kws arbitrary: m) (auto simp: after_updates_def map_add_def split: option.splits)
qed

text \<open>Tries that represent the same map represent the same tree.\<close>

lemma trie_same_tree:
  assumes "trie_models t m" "trie_models t' m"
  shows "\<exists>po. pred_option pwf po \<and> repo (resolveHash t) (T_root t) po \<and> repo (resolveHash t') (T_root t') po"
proof -
  obtain po where po: "repo (resolveHash t) (T_root t) po" "pred_option pwf po" "\<And>k. olookup po (keybytesToHex k) = m k"
    "\<And>x. olookup po x \<noteq> None \<Longrightarrow> x \<in> range keybytesToHex" using assms(1) by (auto simp: trie_models_def)
  obtain qo where qo: "repo (resolveHash t') (T_root t') qo" "pred_option pwf qo" "\<And>k. olookup qo (keybytesToHex k) = m k"
    "\<And>x. olookup qo x \<noteq> None \<Longrightarrow> x \<in> range keybytesToHex" using assms(2) by (auto simp: trie_models_def)
  have "olookup po x = olookup qo x" for x
  proof (cases "x \<in> range keybytesToHex")
    case True
    then show ?thesis using po(3) qo(3) by auto
  next
    case False
    then have "olookup po x = None" "olookup qo x = None" using po(4)[of x] qo(4)[of x] by blast+
    then show ?thesis by simp
  qed
  then have "olookup po = olookup qo" by (simp add: fun_eq_iff)
  then have "po = qo" by (rule otree_unique[OF po(2) qo(2)])
  then show ?thesis using po(1,2) qo(1) by blast
qed

subsection \<open>Properties\<close>

text \<open>
  C24.  A trie is a map: if the root of a trie, in memory or in the database, represents a map, then lookup,
  update and deletion succeed with the stated fuel, a lookup returns the value of the map, an update sets
  it, an update with no bytes and a deletion remove it, and the new root represents the new map.
\<close>

theorem trie_implements_map:
  assumes "trie_models t m" "trie_fuel key \<le> fuel"
  shows "(\<exists>t'. TryGet fuel t key = Inr (m key, t') \<and> trie_models t' m) \<and>
    (\<exists>t'. TryUpdate fuel t key v = Inr t' \<and> trie_models t' (m(key := trie_value v))) \<and>
    (\<exists>t'. TryDelete fuel t key = Inr t' \<and> trie_models t' (m(key := None)))"
  using trie_get[OF assms] trie_update[OF assms, of v] trie_delete[OF assms] by (auto simp: TryDelete_def)

text \<open>
  C26.  Whatever updates and deletions are made on an empty trie, a lookup returns the last value given for
  its key, or nothing if that was empty or there was none.
\<close>

theorem trie_last_write_wins:
  "\<exists>t1 t2. foldM (\<lambda>t kw. TryUpdate (trie_fuel (fst kw)) t (fst kw) (snd kw)) (empty_trie db) kws = Inr t1 \<and>
     TryGet (trie_fuel key) t1 key =
       Inr (case map_of (rev kws) key of None \<Rightarrow> None | Some v \<Rightarrow> trie_value v, t2)"
  using trie_store.get_after_puts[OF empty_trie_models, of db kws key] by (simp add: foldl_updates after_updates_def)

text \<open>
  C25.  A trie does not remember how it came about: start from two tries and make any updates and deletions on
  each; if the maps that result are the same, both are the same tree, node by node, in canonical form,
  whatever part of them is in the database.
\<close>

theorem trie_history_independent:
  assumes "trie_models s m" "trie_models s' m'"
    "foldM (\<lambda>t kw. TryUpdate (trie_fuel (fst kw)) t (fst kw) (snd kw)) s kws = Inr t"
    "foldM (\<lambda>t kw. TryUpdate (trie_fuel (fst kw)) t (fst kw) (snd kw)) s' kws' = Inr t'"
    "\<And>key. after_updates m kws key = after_updates m' kws' key"
  shows "\<exists>po. pred_option pwf po \<and> repo (resolveHash t) (T_root t) po \<and> repo (resolveHash t') (T_root t') po"
proof -
  have "trie_models t (after_updates m kws)" using trie_store.puts_ok[OF assms(1), of kws] assms(3) by (simp add: foldl_updates)
  moreover have "trie_models t' (after_updates m' kws')"
    using trie_store.puts_ok[OF assms(2), of kws'] assms(4) by (simp add: foldl_updates)
  moreover have "after_updates m kws = after_updates m' kws'" using assms(5) by (simp add: fun_eq_iff)
  ultimately show ?thesis using trie_same_tree by simp
qed

subsection \<open>At concrete inputs\<close>

theorem trie_implements_map_witness:
  "(\<exists>t'. TryGet 8 (empty_trie Map.empty) [0x12] = Inr (None, t') \<and> trie_models t' Map.empty) \<and>
   (\<exists>t'. TryUpdate 8 (empty_trie Map.empty) [0x12] [7] = Inr t' \<and> trie_models t' [[0x12] \<mapsto> [7]]) \<and>
   (\<exists>t'. TryDelete 8 (empty_trie Map.empty) [0x12] = Inr t' \<and> trie_models t' Map.empty)"
  using trie_implements_map[OF empty_trie_models, of "[0x12]" 8 Map.empty "[7]"] by (simp add: trie_fuel_def trie_value_def)

text \<open>Two keys with a common nibble, inserted in both orders, once with values that are overwritten and deleted again.\<close>

theorem trie_history_independent_witness:
  "\<exists>t t' po. foldM (\<lambda>t kw. TryUpdate (trie_fuel (fst kw)) t (fst kw) (snd kw)) (empty_trie Map.empty)
       [([0x12], [7]), ([0x13], [8])] = Inr t \<and>
     foldM (\<lambda>t kw. TryUpdate (trie_fuel (fst kw)) t (fst kw) (snd kw)) (empty_trie Map.empty)
       [([0x13], [9]), ([0x14], [1]), ([0x12], [7]), ([0x13], [8]), ([0x14], [])] = Inr t' \<and>
     pred_option pwf po \<and> repo (resolveHash t) (T_root t) po \<and> repo (resolveHash t') (T_root t') po"
proof -
  note ok = trie_store.puts_ok[OF empty_trie_models, of Map.empty]
  obtain t where t: "foldM (\<lambda>t kw. TryUpdate (trie_fuel (fst kw)) t (fst kw) (snd kw)) (empty_trie Map.empty)
      [([0x12], [7]), ([0x13], [8])] = Inr t" using ok by blast
  obtain t' where t': "foldM (\<lambda>t kw. TryUpdate (trie_fuel (fst kw)) t (fst kw) (snd kw)) (empty_trie Map.empty)
      [([0x13], [9]), ([0x14], [1]), ([0x12], [7]), ([0x13], [8]), ([0x14], [])] = Inr t'" using ok by blast
  have "after_updates Map.empty [([0x12], [7]), ([0x13], [8])] key =
      after_updates Map.empty [([0x13], [9]), ([0x14], [1]), ([0x12], [7]), ([0x13], [8]), ([0x14], [])] key" for key
    by (simp add: after_updates_def trie_value_def)
  from trie_history_independent[OF empty_trie_models empty_trie_models t t' this] show ?thesis using t t' by blast
qed

text \<open>
  A two-element node with an empty key makes the decoder panic: \<open>compactToHex\<close> reads the first nibble of
  nothing.
\<close>

lemma decode_empty_key_panics: "decodeNode h [0xC2, 0x80, 0x80] gen = Inl TriePanic"
proof -
  have split: "SplitList [0xC2, 0x80, 0x80] = Inr ([0x80, 0x80], [])" "CountValues [0x80, 0x80] = Inr 2"
    "SplitString [0x80, 0x80] = Inr ([], [0x80])" "compactToHex [] = Inl PanicIndex"
    by code_simp+
  then show ?thesis
    by (simp add: decodeNode_def eval_nat_numeral decodeShortWith_def rlp_err_def panic_err_def Let_def del: CountValues.simps)
qed

end
