(* ===== verification/Spec2Isabelle.thy ===== *)
theory Spec2Isabelle
  imports Alien_Seal Alien_Api Trie_Map
begin

text \<open>
  A verification development of the Go node in this repository, a fork of go-ethereum whose consensus
  engine \<open>alien\<close> is a delegated proof of stake with side chains.  File names are relative to \<open>src/\<close>.

  \<^bold>\<open>The program and the theories.\<close>  Voters put the balance of their account behind a candidate; every
  loop of \<open>MaxSignerCount\<close> blocks has a queue of signers, which is elected from the candidates and fixes
  who seals at which time.  All of this is computed from the headers alone: a header's extra data carries
  the votes, confirmations, proposals and declares of its block, and a \<open>Snapshot\<close> is the state after a
  block.  The engine finds the snapshot of a header's parent, verifies the header against it, and on the
  other side assembles and seals blocks.  Side chains take their signers from the main chain.

  \<^item> \<open>Prelude\<close>, \<open>Go_Map\<close>, \<open>Go_Sort\<close>, \<open>Go_State\<close>, \<open>Go_Text\<close>, \<open>Go_Strconv\<close> model what the sources use of the
    language and its library: machine integers, results with errors and panics, maps in their order of
    iteration, \<open>sort.Sort\<close>, methods on a state, strings and decimal numbers.
  \<^item> \<open>Common_Types\<close> and \<open>Hexutil\<close>: hashes, addresses and hex text (\<open>common/types.go\<close>, \<open>common/bytes.go\<close>,
    \<open>common/hexutil\<close>).
  \<^item> \<open>Rlp_Encode\<close>, \<open>Rlp_Decode\<close>, \<open>Rlp_Raw\<close>: the serialisation of \<open>rlp/encode.go\<close>, \<open>rlp/decode.go\<close> and
    \<open>rlp/raw.go\<close>.  The encoder has its buffer with list headers merged in at the end, the decoder its
    stream with the stack of open lists.  Go types are a datatype, reflection is a function on it.
  \<^item> \<open>Alien_Types\<close>: the records of the engine (\<open>Snapshot\<close>, \<open>Header\<close>, \<open>HeaderExtra\<close>, \<open>Proposal\<close>, ...).
  \<^item> \<open>Alien_Tally\<close>, \<open>Alien_Signing\<close>, \<open>Alien_Proposal\<close>, \<open>Alien_SideChain\<close>, \<open>Alien_Reward\<close>, \<open>Alien_Apply\<close>:
    the operations of \<open>consensus/alien/snapshot.go\<close>, by subject, and \<open>apply\<close>, which composes them.
    Proposals live in an explicit heap, because the code shares them between maps.
  \<^item> \<open>Alien_Queue\<close>: the elections of \<open>consensus/alien/signer_queue.go\<close>.
  \<^item> \<open>Alien_CustomTx\<close>: the transactions read by \<open>consensus/alien/custom_tx.go\<close>.
  \<^item> \<open>Alien_Codec\<close>: what the engine puts through RLP, the hash that is signed, and \<open>ecrecover\<close>.
  \<^item> \<open>Alien_Engine\<close>: \<open>consensus/alien/alien.go\<close> and \<open>cross_chain.go\<close>; \<open>Alien_Verify\<close> and \<open>Alien_Seal\<close> prove
    what verification and block production guarantee; \<open>Alien_Api\<close> is \<open>consensus/alien/api.go\<close>.
  \<^item> \<open>Trie_Keys\<close> and \<open>Trie\<close>: the Merkle Patricia trie of \<open>trie/encoding.go\<close>, \<open>trie/node.go\<close> and
    \<open>trie/trie.go\<close>, which decodes nodes from the database as it meets them; \<open>Trie_Tree\<close> and \<open>Trie_Map\<close> prove
    that it implements a map.

  \<^bold>\<open>What the lemmas show.\<close>
  \<^item> Snapshots: every snapshot reachable from a genesis snapshot is consistent, tallies are the sums of the
    stakes behind the candidates, the recount at the end of \<open>apply\<close> never rejects, and positive stakes
    never lead to a panic; the vote operations refine an abstract ledger.
  \<^item> Queue and turns: a queue is accepted exactly if it is the one elected, at each time exactly one signer
    is in turn and each signer of the queue gets its slot in every round; punishment is bounded.
  \<^item> Proposals and side chains: acceptance by two thirds of the tally, settlement of deposits, quorums of
    side chain confirmations; rewards are accounted for to the unit.
  \<^item> Engine: an accepted header was sealed by the signer in turn in its parent's snapshot, and two accepted
    headers in one slot have one signer; the snapshot returned is that of the block asked for; what
    \<open>Finalize\<close> assembles passes the checks on queue and missing signers; the signature cache is invisible.
  \<^item> Interface: the search for the block of a time finds the last block at or before it, and side chains
    accept exactly the coinbase of the main chain's signer in turn.
  \<^item> Serialisation: RLP decodes what it encodes, accepts only canonical input, returns only typed values and
    ends on all types without one-byte arrays; the extra data of headers is such a value.
  \<^item> Tries: the key encodings are inverse to each other; nodes represent canonical trees, lookup, update and
    deletion refine those of a map, and the tree depends only on the map, not on the order of updates.
  \<^item> Errors of the code are stated as theorems and lemmas too: panics on zero stakes, on short queues and on
    unsigned confirmations, loops that do not end, proposals of a block that share a memory cell.

  \<^bold>\<open>Interfaces.\<close>  The locales \<open>finite_map\<close> (Go maps), \<open>sort_order\<close> and \<open>hash_sort\<close> (what \<open>sort.Sort\<close>
  promises), \<open>rlp_codec\<close> (a Go type with its RLP image) and \<open>key_value_store\<close> (a map that is updated) carry the lemmas their clients share; each is
  interpreted on the model's own definitions.

  \<^bold>\<open>Fuel and bounds.\<close>  \<open>verifyHeader\<close> has a depth, since \<open>snapshot\<close> verifies the genesis header;
  two levels are enough, as \<open>Alien_Verify\<close> shows.  \<open>timeSearch\<close> has the number of rounds; \<open>Alien_Api\<close> bounds it
  by the length of the interval and gives the case without a bound.  The RLP decoder's slice loop has a fuel
  that the length of the input bounds.  The trie operations have the depth of the recursion through the
  database; \<open>trie_fuel\<close>, four for every byte of the key and four more, is enough.  Running out is the error \<open>NotTerminating\<close>, so no statement about results
  holds merely because a loop does not end.  All other loops are total functions.  Lengths below
  \<open>2 ^ 63\<close> are assumed where the code converts them to \<open>int\<close>.

  \<^bold>\<open>Parameters.\<close>  Keccak, elliptic curve recovery and signing, the clock, what the caches evict, whether the
  database accepts a write, the state root, \<open>types.NewBlock\<close> and the main chain's RPC client are arguments;
  what a theorem needs of them is a hypothesis, and its witness instantiates them.

  \<^bold>\<open>Not modelled.\<close>  Goroutines, channels, locks and timers: verification runs in order, waiting has no
  effect.  JSON encoding of snapshots in the database: a stored snapshot is read back as it was.  The
  rest of the node: virtual machine, state, hashing and storing of trie nodes, transaction pool, block chain, networking,
  RPC transport, key store, metrics and logging, and the engines \<open>clique\<close> and \<open>ethash\<close>.  Cryptographic
  primitives and the packages outside \<open>src/\<close> are parameters.
\<close>

end
